(* ===== verification/Bridge_Prelude.thy ===== *)
theory Bridge_Prelude
  imports Main "HOL-Library.AList"
begin

text \<open>
  What every component of the bridge shares: Go's 64-bit integers, the string functions of
  \<open>strings\<close> and \<open>strconv\<close> the program calls, Go maps with the laws the components rely on,
  and the errors of a cancelled context.

  A Go string is a list of bytes (\<^typ>\<open>string\<close>). Case mapping, folding and space trimming are
  those of ASCII; bytes outside ASCII are left alone and compare exactly. A Go \<open>int\<close> is an
  \<^typ>\<open>int\<close>; where a computation can leave the 64-bit range it is wrapped with \<open>wrap64\<close>.
\<close>

named_theorems wf_rules \<open>preservation of the components' state invariants\<close>

section \<open>64-bit integers\<close>

definition min_int64 :: int where
  "min_int64 = - (2 ^ 63)"

definition max_int64 :: int where
  "max_int64 = 2 ^ 63 - 1"

definition in_int64 :: "int \<Rightarrow> bool" where
  "in_int64 x \<longleftrightarrow> min_int64 \<le> x \<and> x \<le> max_int64"

text \<open>Two's complement: what an addition or multiplication of \<open>int\<close> values leaves.\<close>

definition wrap64 :: "int \<Rightarrow> int" where
  "wrap64 x = (x + 2 ^ 63) mod 2 ^ 64 - 2 ^ 63"

lemma wrap64_in [simp]: "in_int64 (wrap64 x)"
proof -
  have "0 \<le> (x + 2 ^ 63) mod 2 ^ 64" "(x + 2 ^ 63) mod 2 ^ 64 < (2::int) ^ 64"
    by (rule pos_mod_sign, simp, rule pos_mod_bound, simp)
  then show ?thesis
    by (simp add: in_int64_def wrap64_def min_int64_def max_int64_def)
qed

lemma wrap64_id: "in_int64 x \<Longrightarrow> wrap64 x = x"
  by (simp add: in_int64_def wrap64_def min_int64_def max_int64_def)

lemma wrap64_wrap_add: "wrap64 (wrap64 a + b) = wrap64 (a + b)"
proof -
  have "((a + 2 ^ 63) mod 2 ^ 64 - 2 ^ 63 + b + 2 ^ 63) mod 2 ^ 64
      = ((a + 2 ^ 63) mod 2 ^ 64 + b) mod (2::int) ^ 64"
    by (simp add: algebra_simps)
  also have "\<dots> = (a + 2 ^ 63 + b) mod 2 ^ 64"
    by (rule mod_add_left_eq)
  finally show ?thesis
    by (simp add: wrap64_def algebra_simps)
qed

section \<open>Strings\<close>

definition is_space :: "char \<Rightarrow> bool" where
  "is_space c \<longleftrightarrow> (of_char c :: nat) \<in> {9, 10, 11, 12, 13, 32}"

definition is_digit :: "char \<Rightarrow> bool" where
  "is_digit c \<longleftrightarrow> 48 \<le> (of_char c :: nat) \<and> (of_char c :: nat) \<le> 57"

definition digit_val :: "char \<Rightarrow> int" where
  "digit_val c = int (of_char c) - 48"

definition upper_char :: "char \<Rightarrow> char" where
  "upper_char c = (if 97 \<le> (of_char c :: nat) \<and> (of_char c :: nat) \<le> 122
                   then char_of ((of_char c :: nat) - 32) else c)"

definition lower_char :: "char \<Rightarrow> char" where
  "lower_char c = (if 65 \<le> (of_char c :: nat) \<and> (of_char c :: nat) \<le> 90
                   then char_of ((of_char c :: nat) + 32) else c)"

definition to_upper :: "string \<Rightarrow> string" where
  "to_upper s = map upper_char s"

definition to_lower :: "string \<Rightarrow> string" where
  "to_lower s = map lower_char s"

text \<open>\<open>strings.EqualFold\<close>.\<close>

definition equal_fold :: "string \<Rightarrow> string \<Rightarrow> bool" where
  "equal_fold s t \<longleftrightarrow> to_lower s = to_lower t"

text \<open>\<open>strings.TrimSpace\<close>.\<close>

definition trim_space :: "string \<Rightarrow> string" where
  "trim_space s = rev (dropWhile is_space (rev (dropWhile is_space s)))"

text \<open>\<open>strings.HasPrefix\<close>, \<open>strings.CutPrefix\<close> and \<open>strings.TrimPrefix\<close>.\<close>

fun cut_prefix :: "string \<Rightarrow> string \<Rightarrow> string option" where
  "cut_prefix s [] = Some s"
| "cut_prefix [] (_ # _) = None"
| "cut_prefix (c # s) (p # ps) = (if c = p then cut_prefix s ps else None)"

definition has_prefix :: "string \<Rightarrow> string \<Rightarrow> bool" where
  "has_prefix s p \<longleftrightarrow> cut_prefix s p \<noteq> None"

definition trim_prefix :: "string \<Rightarrow> string \<Rightarrow> string" where
  "trim_prefix s p = (case cut_prefix s p of None \<Rightarrow> s | Some r \<Rightarrow> r)"

lemma cut_prefix_iff: "cut_prefix s p = Some r \<longleftrightarrow> s = p @ r"
  by (induction s p rule: cut_prefix.induct) auto

lemma has_prefix_iff: "has_prefix s p \<longleftrightarrow> (\<exists>r. s = p @ r)"
  by (auto simp: has_prefix_def cut_prefix_iff)

text \<open>\<open>strings.Cut\<close> at a one-byte separator: before, after, found.\<close>

fun cut_at :: "char \<Rightarrow> string \<Rightarrow> string \<times> string \<times> bool" where
  "cut_at sep [] = ([], [], False)"
| "cut_at sep (c # s) =
     (if c = sep then ([], s, True)
      else (case cut_at sep s of (a, b, f) \<Rightarrow> (c # a, b, f)))"

lemma cut_at_found:
  "cut_at sep s = (a, b, f) \<Longrightarrow>
    (if f then s = a @ sep # b \<and> sep \<notin> set a else a = s \<and> b = [] \<and> sep \<notin> set s)"
proof (induction s arbitrary: a)
  case Nil
  then show ?case by simp
next
  case (Cons c s)
  obtain a' b' f' where rec: "cut_at sep s = (a', b', f')" by (cases "cut_at sep s")
  from Cons.prems rec Cons.IH [of a'] show ?case by (auto split: if_splits)
qed

lemma cut_at_append [simp]: "sep \<notin> set a \<Longrightarrow> cut_at sep (a @ sep # b) = (a, b, True)"
  by (induction a) auto

text \<open>\<open>strings.Split\<close> at a one-byte separator: always at least one part.\<close>

fun split_on :: "char \<Rightarrow> string \<Rightarrow> string list" where
  "split_on sep [] = [[]]"
| "split_on sep (c # s) =
     (if c = sep then [] # split_on sep s
      else (case split_on sep s of [] \<Rightarrow> [[c]] | p # ps \<Rightarrow> (c # p) # ps))"

lemma split_on_not_Nil [simp]: "split_on sep s \<noteq> []"
  by (induction s) (auto split: list.splits)

lemma split_on_no_sep: "p \<in> set (split_on sep s) \<Longrightarrow> sep \<notin> set p"
proof (induction s arbitrary: p)
  case Nil
  then show ?case by simp
next
  case (Cons c s)
  then show ?case
    by (cases "split_on sep s") (auto split: if_splits)
qed

section \<open>Decimal integers\<close>

fun digits_val :: "string \<Rightarrow> int \<Rightarrow> int option" where
  "digits_val [] acc = Some acc"
| "digits_val (c # cs) acc =
     (if is_digit c then digits_val cs (acc * 10 + digit_val c) else None)"

text \<open>
  \<open>strconv.ParseInt(s, 10, bits)\<close>: an optional sign, at least one digit, nothing else, and a
  value in range; every error is \<^const>\<open>None\<close>.
\<close>

definition parse_int :: "nat \<Rightarrow> string \<Rightarrow> int option" where
  "parse_int bits s =
     (let neg = (case s of [] \<Rightarrow> False | c # _ \<Rightarrow> c = CHR ''-'');
          ds = (case s of [] \<Rightarrow> [] | c # cs \<Rightarrow> if c = CHR ''-'' \<or> c = CHR ''+'' then cs else s)
      in if ds = [] then None
         else (case digits_val ds 0 of
                 None \<Rightarrow> None
               | Some v \<Rightarrow>
                   let n = (if neg then - v else v)
                   in if - (2 ^ (bits - 1)) \<le> n \<and> n < 2 ^ (bits - 1) then Some n else None))"

text \<open>\<open>strconv.Atoi\<close> on a 64-bit platform.\<close>

definition atoi :: "string \<Rightarrow> int option" where
  "atoi s = parse_int 64 s"

lemma parse_int_range:
  "parse_int bits s = Some n \<Longrightarrow> - (2 ^ (bits - 1)) \<le> n \<and> n < 2 ^ (bits - 1)"
  by (auto simp: parse_int_def Let_def split: if_splits option.splits)

lemma atoi_in_int64: "atoi s = Some n \<Longrightarrow> in_int64 n"
  unfolding atoi_def in_int64_def min_int64_def max_int64_def
  by (drule parse_int_range) simp

text \<open>The verbs \<open>%d\<close> and \<open>%02d\<close> of \<open>fmt\<close>.\<close>

fun nat_str :: "nat \<Rightarrow> string" where
  "nat_str n = (if n < 10 then [char_of (n + 48)] else nat_str (n div 10) @ [char_of (n mod 10 + 48)])"

declare nat_str.simps [simp del]

definition fmt_d :: "int \<Rightarrow> string" where
  "fmt_d n = (if n < 0 then CHR ''-'' # nat_str (nat (- n)) else nat_str (nat n))"

definition fmt_02d :: "int \<Rightarrow> string" where
  "fmt_02d n =
     (let s = nat_str (nat \<bar>n\<bar>); w = (if n < 0 then 1 else 2)
      in (if n < 0 then ''-'' else []) @ replicate (w - length s) (CHR ''0'') @ s)"

lemma digit_char: "d < 10 \<Longrightarrow> is_digit (char_of (d + 48 :: nat))"
  by (simp add: is_digit_def)

lemma digit_val_char: "d < 10 \<Longrightarrow> digit_val (char_of (d + 48 :: nat)) = int d"
  by (simp add: digit_val_def)

lemma digits_val_snoc:
  "digits_val (s @ [c]) acc =
    (case digits_val s acc of None \<Rightarrow> None
     | Some v \<Rightarrow> if is_digit c then Some (v * 10 + digit_val c) else None)"
  by (induction s arbitrary: acc) auto

lemma digits_val_nat_str: "digits_val (nat_str n) 0 = Some (int n)"
proof (induction n rule: nat_str.induct)
  case (1 n)
  show ?case
  proof (cases "n < 10")
    case True
    then show ?thesis
      by (subst nat_str.simps) (simp add: digit_char digit_val_char)
  next
    case False
    have "int (n div 10) * 10 + int (n mod 10) = int n"
      by (metis div_mult_mod_eq of_nat_add of_nat_mult of_nat_numeral)
    with 1 False show ?thesis
      by (subst nat_str.simps) (simp add: digits_val_snoc digit_char digit_val_char)
  qed
qed

lemma nat_str_digits: "c \<in> set (nat_str n) \<Longrightarrow> is_digit c"
proof (induction n rule: nat_str.induct)
  case (1 n)
  then show ?case
    by (subst (asm) nat_str.simps) (auto simp: digit_char split: if_splits)
qed

lemma nat_str_not_Nil: "nat_str n \<noteq> []"
  by (subst nat_str.simps) simp

lemma is_digit_sign: "\<not> is_digit (CHR ''-'')" "\<not> is_digit (CHR ''+'')"
  by (simp_all add: is_digit_def)

text \<open>Printing a 64-bit integer and parsing it back.\<close>

lemma atoi_fmt_d:
  assumes "in_int64 n"
  shows "atoi (fmt_d n) = Some n"
proof (cases "n < 0")
  case True
  then show ?thesis
    using assms digits_val_nat_str [of "nat (- n)"] nat_str_not_Nil [of "nat (- n)"]
    by (simp add: atoi_def parse_int_def fmt_d_def in_int64_def min_int64_def max_int64_def)
next
  case False
  obtain c cs where cs: "nat_str (nat n) = c # cs"
    using nat_str_not_Nil by (cases "nat_str (nat n)") auto
  then have "is_digit c" using nat_str_digits [of c "nat n"] by simp
  then have "c \<noteq> CHR ''-''" "c \<noteq> CHR ''+''" using is_digit_sign by auto
  then show ?thesis
    using assms False cs digits_val_nat_str [of "nat n"]
    by (simp add: atoi_def parse_int_def fmt_d_def in_int64_def min_int64_def max_int64_def Let_def
        split: option.splits)
qed

section \<open>Go maps\<close>

text \<open>
  A Go map is an association list without duplicate keys. Its iteration order is the list's; a
  result that must not depend on Go's random order is stated for every permutation of the list.
\<close>

type_synonym ('k, 'v) gomap = "('k \<times> 'v) list"

definition mget :: "('k, 'v) gomap \<Rightarrow> 'k \<Rightarrow> 'v option" where
  "mget m k = map_of m k"

definition mput :: "'k \<Rightarrow> 'v \<Rightarrow> ('k, 'v) gomap \<Rightarrow> ('k, 'v) gomap" where
  "mput k v m = AList.update k v m"

definition mdel :: "'k \<Rightarrow> ('k, 'v) gomap \<Rightarrow> ('k, 'v) gomap" where
  "mdel k m = AList.delete k m"

definition mkeys :: "('k, 'v) gomap \<Rightarrow> 'k list" where
  "mkeys m = map fst m"

definition mwf :: "('k, 'v) gomap \<Rightarrow> bool" where
  "mwf m \<longleftrightarrow> distinct (map fst m)"

text \<open>The interface the components use, and what follows from it alone.\<close>

locale go_map =
  fixes emp :: "'m"
    and get :: "'m \<Rightarrow> 'k \<Rightarrow> 'v option"
    and put :: "'k \<Rightarrow> 'v \<Rightarrow> 'm \<Rightarrow> 'm"
    and del :: "'k \<Rightarrow> 'm \<Rightarrow> 'm"
    and keys :: "'m \<Rightarrow> 'k list"
    and ok :: "'m \<Rightarrow> bool"
  assumes get_emp: "get emp k = None"
    and get_put: "get (put k v m) j = (if j = k then Some v else get m j)"
    and get_del: "get (del k m) j = (if j = k then None else get m j)"
    and keys_get: "set (keys m) = {k. get m k \<noteq> None}"
    and ok_emp: "ok emp"
    and ok_put: "ok m \<Longrightarrow> ok (put k v m)"
    and ok_del: "ok m \<Longrightarrow> ok (del k m)"
    and keys_distinct: "ok m \<Longrightarrow> distinct (keys m)"
begin

lemma size_keys: "ok m \<Longrightarrow> length (keys m) = card {k. get m k \<noteq> None}"
  by (metis distinct_card keys_distinct keys_get)

lemma finite_keys: "finite {k. get m k \<noteq> None}"
  by (metis List.finite_set keys_get)

lemma size_put:
  assumes "ok m"
  shows "length (keys (put k v m)) =
    (if get m k = None then Suc (length (keys m)) else length (keys m))"
proof -
  have "{j. get (put k v m) j \<noteq> None} = insert k {j. get m j \<noteq> None}"
    by (auto simp: get_put)
  then show ?thesis
    using assms finite_keys [of m] by (simp add: size_keys ok_put card_insert_if)
qed

lemma size_del_present:
  assumes "ok m" and "get m k \<noteq> None"
  shows "Suc (length (keys (del k m))) = length (keys m)"
proof -
  have eq: "{j. get (del k m) j \<noteq> None} = {j. get m j \<noteq> None} - {k}"
    by (auto simp: get_del)
  have "k \<in> {j. get m j \<noteq> None}" using assms(2) by simp
  then have "Suc (card ({j. get m j \<noteq> None} - {k})) = card {j. get m j \<noteq> None}"
    using finite_keys [of m] by (metis card_Suc_Diff1)
  with eq show ?thesis
    using assms(1) by (simp add: size_keys ok_del)
qed

text \<open>A loop of insertions: the last value written under a key is the one found.\<close>

lemma get_fold_put:
  "get (fold (\<lambda>(k, v). put k v) kvs m) j =
    (case map_of (rev kvs) j of None \<Rightarrow> get m j | Some v \<Rightarrow> Some v)"
  by (induction kvs arbitrary: m) (auto simp: get_put map_add_def split: option.splits prod.splits)

lemma ok_fold_put: "ok m \<Longrightarrow> ok (fold (\<lambda>(k, v). put k v) kvs m)"
  by (induction kvs arbitrary: m) (auto simp: ok_put)

text \<open>A loop of deletions.\<close>

lemma get_fold_del: "get (fold del ks m) j = (if j \<in> set ks then None else get m j)"
  by (induction ks arbitrary: m) (auto simp: get_del)

lemma ok_fold_del: "ok m \<Longrightarrow> ok (fold del ks m)"
  by (induction ks arbitrary: m) (auto simp: ok_del)

end

interpretation gm: go_map "[]" mget mput mdel mkeys mwf
proof (unfold_locales, goal_cases)
  case (2 k v m j)
  then show ?case by (simp add: mget_def mput_def update_conv')
next
  case (3 k m j)
  then show ?case by (simp add: mget_def mdel_def delete_conv')
next
  case (4 m)
  then show ?case by (auto simp: mget_def mkeys_def map_of_eq_None_iff)
next
  case (6 m k v)
  then show ?case by (simp add: mwf_def mput_def distinct_update)
next
  case (7 m k)
  then show ?case by (simp add: mwf_def mdel_def distinct_delete)
qed (simp_all add: mget_def mwf_def mkeys_def)

declare gm.get_put [simp] gm.get_del [simp] gm.get_emp [simp]
declare gm.ok_emp [wf_rules] gm.ok_put [wf_rules] gm.ok_del [wf_rules]

text \<open>Iterating over a map with pairwise distinct keys meets each binding once.\<close>

lemma mget_Some_iff: "mwf m \<Longrightarrow> mget m k = Some v \<longleftrightarrow> (k, v) \<in> set m"
  by (simp add: mwf_def mget_def)

lemma mwf_filter [wf_rules]: "mwf m \<Longrightarrow> mwf (filter P m)"
  by (simp add: mwf_def distinct_map_filter)

lemma mget_filter:
  "mwf m \<Longrightarrow> mget (filter (\<lambda>(k, v). P k v) m) j =
    (case mget m j of None \<Rightarrow> None | Some v \<Rightarrow> if P j v then Some v else None)"
proof (induction m)
  case Nil
  then show ?case by (simp add: mget_def)
next
  case (Cons kv m)
  obtain k v where kv: "kv = (k, v)" by (cases kv)
  have "k \<notin> fst ` set (filter (\<lambda>(k, v). P k v) m)"
    using Cons.prems kv by (auto simp: mwf_def)
  then have "map_of (filter (\<lambda>(k, v). P k v) m) k = None"
    by (simp add: map_of_eq_None_iff)
  with Cons kv show ?case
    by (auto simp: mwf_def mget_def split: option.splits)
qed

section \<open>Results\<close>

text \<open>\<open>if err != nil { return err }\<close>: stop at the first error of a sequence of calls.\<close>

definition bindE :: "'e + 'a \<Rightarrow> ('a \<Rightarrow> 'e + 'b) \<Rightarrow> 'e + 'b" where
  "bindE m f = (case m of Inl err \<Rightarrow> Inl err | Inr x \<Rightarrow> f x)"

lemma bindE_simps [simp]: "bindE (Inl err) f = Inl err" "bindE (Inr x) f = f x"
  by (simp_all add: bindE_def)

lemma bindE_Inr_iff: "bindE m f = Inr y \<longleftrightarrow> (\<exists>x. m = Inr x \<and> f x = Inr y)"
  by (cases m) simp_all

lemma bindE_InrE:
  assumes "bindE m f = Inr y"
  obtains x where "m = Inr x" "f x = Inr y"
  using assms by (auto simp: bindE_Inr_iff)

lemma bindE_cong [fundef_cong]:
  "m = n \<Longrightarrow> (\<And>x. n = Inr x \<Longrightarrow> f x = g x) \<Longrightarrow> bindE m f = bindE n g"
  by (cases n) simp_all

section \<open>Contexts\<close>

text \<open>What \<open>ctx.Err()\<close> can hold; the scheduler and the client tell the two apart.\<close>

datatype ctx_err = Canceled | DeadlineExceeded

end
