(* ===== verification/Go_Calendar.thy ===== *)
theory Go_Calendar
  imports Bridge_Prelude
begin

text \<open>
  Go's \<open>time.Time\<close> and \<open>time.Duration\<close> as the program uses them. An instant is the number of
  nanoseconds since 1 January of year 1 (UTC), so that the zero \<open>time.Time\<close> is 0; a duration is a
  number of nanoseconds. \<open>time.Date\<close> and \<open>AddDate\<close> normalise out-of-range months and days in the
  proleptic Gregorian calendar. The local time zone is UTC, as in the distroless image.
\<close>

type_synonym instant = int
type_synonym duration = int

definition second :: duration where "second = 1000000000"
definition minute :: duration where "minute = 60 * second"
definition hour :: duration where "hour = 60 * minute"
definition day :: duration where "day = 24 * hour"

lemmas duration_defs = second_def minute_def hour_def day_def

text \<open>Unix seconds of an instant (\<open>Unix()\<close>) and back (\<open>time.Unix(s, 0)\<close>).\<close>

definition unix_epoch :: instant where
  "unix_epoch = 719162 * day"

definition to_unix :: "instant \<Rightarrow> int" where
  "to_unix t = (t - unix_epoch) div second"

definition of_unix :: "int \<Rightarrow> instant" where
  "of_unix s = unix_epoch + s * second"

lemma to_unix_of_unix [simp]: "to_unix (of_unix s) = s"
  by (simp add: to_unix_def of_unix_def second_def)

lemma of_unix_le_iff: "of_unix a \<le> of_unix b \<longleftrightarrow> a \<le> b"
  by (simp add: of_unix_def second_def)

lemma of_unix_to_unix_le: "of_unix (to_unix t) \<le> t"
proof -
  have "(t - unix_epoch) div second * second \<le> t - unix_epoch"
    by (simp add: second_def)
  then show ?thesis by (simp add: of_unix_def to_unix_def)
qed

lemma to_unix_mono: "a \<le> b \<Longrightarrow> to_unix a \<le> to_unix b"
  by (simp add: to_unix_def second_def zdiv_mono1)

text \<open>\<open>t.Sub(u)\<close>: the difference, saturated at the limits of a 64-bit duration.\<close>

definition time_sub :: "instant \<Rightarrow> instant \<Rightarrow> duration" where
  "time_sub t u = max min_int64 (min max_int64 (t - u))"

lemma time_sub_mono: "u' \<le> u \<Longrightarrow> time_sub t u \<le> time_sub t u'"
  by (auto simp: time_sub_def min_int64_def max_int64_def)

lemma time_sub_id: "in_int64 (t - u) \<Longrightarrow> time_sub t u = t - u"
  by (auto simp: time_sub_def in_int64_def min_int64_def max_int64_def)

section \<open>Civil dates\<close>

definition is_leap :: "int \<Rightarrow> bool" where
  "is_leap y \<longleftrightarrow> y mod 4 = 0 \<and> (y mod 100 = 0 \<longrightarrow> y mod 400 = 0)"

text \<open>Days from 1 January of year 1 to 1 January of year y.\<close>

definition days_to_year :: "int \<Rightarrow> int" where
  "days_to_year y = 365 * (y - 1) + (y - 1) div 4 - (y - 1) div 100 + (y - 1) div 400"

definition days_before :: "int \<Rightarrow> int" where
  "days_before m = [0, 31, 59, 90, 120, 151, 181, 212, 243, 273, 304, 334] ! nat m"

text \<open>The day of \<open>time.Date(y, m, d, \<dots>)\<close>, for any month and day number.\<close>

definition date_days :: "int \<Rightarrow> int \<Rightarrow> int \<Rightarrow> int" where
  "date_days y m d =
     (let y' = y + (m - 1) div 12; m' = (m - 1) mod 12
      in days_to_year y' + days_before m' + (if is_leap y' \<and> 2 \<le> m' then 1 else 0) + (d - 1))"

text \<open>What \<open>time.Now()\<close> gives: a date and the nanoseconds passed of that day.\<close>

record civil =
  c_year :: int
  c_month :: int
  c_day :: int
  c_tod :: duration

definition date_instant :: "int \<Rightarrow> int \<Rightarrow> int \<Rightarrow> duration \<Rightarrow> instant" where
  "date_instant y m d tod = date_days y m d * day + tod"

definition instant_of :: "civil \<Rightarrow> instant" where
  "instant_of c = date_instant (c_year c) (c_month c) (c_day c) (c_tod c)"

text \<open>\<open>now.AddDate(0, months, 0)\<close>.\<close>

definition add_months :: "civil \<Rightarrow> int \<Rightarrow> instant" where
  "add_months c n = date_instant (c_year c) (c_month c + n) (c_day c) (c_tod c)"

definition days_in_month :: "int \<Rightarrow> int \<Rightarrow> int" where
  "days_in_month y m = date_days y (m + 1) 1 - date_days y m 1"

definition civil_ok :: "civil \<Rightarrow> bool" where
  "civil_ok c \<longleftrightarrow> 1 \<le> c_month c \<and> c_month c \<le> 12 \<and> 1 \<le> c_day c
     \<and> c_day c \<le> days_in_month (c_year c) (c_month c) \<and> 0 \<le> c_tod c \<and> c_tod c < day"

section \<open>Months are ordered as their first days are\<close>

text \<open>A month is identified by its index 12 y + m - 1; its first day depends on the index alone.\<close>

definition first_day :: "int \<Rightarrow> int" where
  "first_day i = date_days (i div 12) (i mod 12 + 1) 1"

lemma month_index_div: "(12 * y + m - 1) div 12 = (y + (m - 1) div 12 :: int)"
proof -
  have "12 * y + m - 1 = (m - 1) + y * 12" by simp
  then show ?thesis by (simp only: div_mult_self1)
qed

lemma month_index_mod: "(12 * y + m - 1) mod 12 = (m - 1) mod (12 :: int)"
proof -
  have "12 * y + m - 1 = (m - 1) + y * 12" by simp
  then show ?thesis by (simp only: mod_mult_self1)
qed

lemma date_days_index: "date_days y m d = first_day (12 * y + m - 1) + (d - 1)"
  unfolding first_day_def date_days_def Let_def month_index_div month_index_mod by simp

lemma div_pred:
  fixes y k :: int
  assumes "1 < k"
  shows "y div k - (y - 1) div k = (if y mod k = 0 then 1 else 0)"
proof -
  have y: "y = k * (y div k) + y mod k" by simp
  have r: "0 \<le> y mod k" "y mod k < k" using assms by simp_all
  show ?thesis
  proof (cases "y mod k = 0")
    case True
    have "y - 1 = (k - 1) + k * (y div k - 1)" using y True by (simp add: algebra_simps)
    then have "(y - 1) div k = (k - 1) div k + (y div k - 1)"
      using assms by (metis div_mult_self2 less_numeral_extra(3) order_less_trans zero_less_one add.commute)
    moreover have "(k - 1) div k = 0" using assms by (simp add: div_pos_pos_trivial)
    ultimately show ?thesis using True by simp
  next
    case False
    then have r1: "0 \<le> y mod k - 1" "y mod k - 1 < k" using r by auto
    have "y - 1 = (y mod k - 1) + k * (y div k)" using y by (simp add: algebra_simps)
    then have "(y - 1) div k = (y mod k - 1) div k + y div k"
      using assms by (metis div_mult_self2 less_numeral_extra(3) order_less_trans zero_less_one add.commute)
    moreover have "(y mod k - 1) div k = 0" using r1 by (simp add: div_pos_pos_trivial)
    ultimately show ?thesis using False by simp
  qed
qed

lemma leap_count:
  assumes "c \<Longrightarrow> b" "b \<Longrightarrow> a"
  shows "365 + (if a then 1 else 0) - (if b then 1 else 0) + (if c then 1 else 0)
    = (if a \<and> (b \<longrightarrow> c) then 366 else 365 :: int)"
  using assms by (cases a; cases b; cases c) simp_all

lemma year_days_diff:
  fixes y :: int
  shows "365 * y + a - b + c - (365 * (y - 1) + a' - b' + c')
    = 365 + (a - a') - (b - b') + (c - c')"
  by simp

lemma days_to_year_Suc: "days_to_year (y + 1) - days_to_year y = (if is_leap y then 366 else 365)"
proof -
  have "days_to_year (y + 1) - days_to_year y = 365 + (y div 4 - (y - 1) div 4)
      - (y div 100 - (y - 1) div 100) + (y div 400 - (y - 1) div 400)"
    unfolding days_to_year_def add_diff_cancel_right' by (rule year_days_diff)
  also have "\<dots> = 365 + (if y mod 4 = 0 then 1 else 0)
      - (if y mod 100 = 0 then 1 else 0) + (if y mod 400 = 0 then 1 else 0)"
    by (simp only: div_pred [of 4 y, simplified] div_pred [of 100 y, simplified]
        div_pred [of 400 y, simplified])
  finally have eq: "days_to_year (y + 1) - days_to_year y = 365 + (if y mod 4 = 0 then 1 else 0)
      - (if y mod 100 = 0 then 1 else 0) + (if y mod 400 = 0 then 1 else 0)" .
  have nested: "y mod 400 = 0 \<Longrightarrow> y mod 100 = 0" "y mod 100 = 0 \<Longrightarrow> y mod 4 = 0"
    using mod_mod_cancel [of 100 400 y] mod_mod_cancel [of 4 100 y] by auto
  show ?thesis
    unfolding eq is_leap_def by (rule leap_count) (fact nested)+
qed

lemma twelve_cases:
  fixes m :: int
  assumes "0 \<le> m" "m < 12"
  obtains "m = 0" | "m = 1" | "m = 2" | "m = 3" | "m = 4" | "m = 5"
        | "m = 6" | "m = 7" | "m = 8" | "m = 9" | "m = 10" | "m = 11"
proof -
  have "m = 0 \<or> m = 1 \<or> m = 2 \<or> m = 3 \<or> m = 4 \<or> m = 5
      \<or> m = 6 \<or> m = 7 \<or> m = 8 \<or> m = 9 \<or> m = 10 \<or> m = 11"
    using assms by presburger
  then show thesis using that by blast
qed

lemma first_day_decomp:
  assumes "0 \<le> m" "m < 12"
  shows "first_day (12 * y + m) =
    days_to_year y + days_before m + (if is_leap y \<and> 2 \<le> m then 1 else 0)"
proof -
  have "(12 * y + m) div 12 = y" "(12 * y + m) mod 12 = m" using assms by auto
  then show ?thesis using assms by (simp add: first_day_def date_days_def)
qed

lemma first_day_step:
  "28 \<le> first_day (i + 1) - first_day i" "first_day (i + 1) - first_day i \<le> 31"
proof -
  define y m where "y = i div 12" and "m = i mod 12"
  have i: "i = 12 * y + m" and m: "0 \<le> m" "m < 12"
    by (simp_all add: y_def m_def)
  have "28 \<le> first_day (i + 1) - first_day i \<and> first_day (i + 1) - first_day i \<le> 31"
  proof (cases "m = 11")
    case True
    have i1: "i + 1 = 12 * (y + 1) + 0" using i True by simp
    have "first_day (i + 1) = days_to_year (y + 1)"
      unfolding i1 by (subst first_day_decomp) (simp_all add: days_before_def)
    moreover have "first_day i = days_to_year y + 334 + (if is_leap y then 1 else 0)"
      using first_day_decomp [of 11 y] i True by (simp add: days_before_def)
    ultimately show ?thesis
      using days_to_year_Suc [of y] by (auto split: if_splits)
  next
    case False
    then have m1: "0 \<le> m + 1" "m + 1 < 12" and i1: "i + 1 = 12 * y + (m + 1)" using i m by auto
    have "first_day (i + 1) - first_day i =
        days_before (m + 1) - days_before m + (if is_leap y \<and> m = 1 then 1 else 0)"
      unfolding i1 unfolding i first_day_decomp [OF m1] first_day_decomp [OF m] using m by auto
    moreover have "days_before (m + 1) - days_before m \<in> {28, 30, 31}"
      "m = 1 \<Longrightarrow> days_before (m + 1) - days_before m = 28"
      by (cases rule: twelve_cases [OF m], use False in \<open>simp_all add: days_before_def\<close>)+
    ultimately show ?thesis by auto
  qed
  then show "28 \<le> first_day (i + 1) - first_day i" "first_day (i + 1) - first_day i \<le> 31"
    by simp_all
qed

lemma first_day_add: "first_day i + 28 * int n \<le> first_day (i + int n)"
proof (induction n)
  case 0
  then show ?case by simp
next
  case (Suc n)
  have "first_day (i + int n) + 28 \<le> first_day (i + int n + 1)"
    using first_day_step(1) [of "i + int n"] by simp
  with Suc show ?case by (simp add: algebra_simps)
qed

lemma first_day_mono: "i \<le> j \<Longrightarrow> first_day i + 28 * (j - i) \<le> first_day j"
  using first_day_add [of i "nat (j - i)"] by simp

lemma first_day_le_iff:
  assumes "0 \<le> k" "k < 28"
  shows "first_day i \<le> first_day j + k \<longleftrightarrow> i \<le> j"
proof
  assume le: "first_day i \<le> first_day j + k"
  show "i \<le> j"
  proof (rule ccontr)
    assume "\<not> i \<le> j"
    then have "first_day j + 28 * (i - j) \<le> first_day i" "1 \<le> i - j"
      using first_day_mono [of j i] by auto
    with le assms show False by (simp add: algebra_simps)
  qed
next
  assume "i \<le> j"
  then show "first_day i \<le> first_day j + k"
    using first_day_mono [of i j] assms by (simp add: algebra_simps)
qed

text \<open>A day of month k + 1 beyond the 28th is at most in the following month.\<close>

lemma first_day_le_next:
  assumes "k \<le> 30" "first_day i \<le> first_day j + k"
  shows "i \<le> j + 1"
proof (rule ccontr)
  assume "\<not> i \<le> j + 1"
  then have "first_day j + 28 * (i - j) \<le> first_day i" "2 \<le> i - j"
    using first_day_mono [of j i] by auto
  with assms show False by (simp add: algebra_simps)
qed

lemma days_in_month_bounds: "28 \<le> days_in_month y m" "days_in_month y m \<le> 31"
  using first_day_step [of "12 * y + m - 1"]
  by (simp_all add: days_in_month_def date_days_index algebra_simps)

text \<open>The first of a month is not after a moment of another day iff that day is not before it.\<close>

lemma date_instant_le_iff:
  assumes "0 \<le> tod" "tod < day"
  shows "date_instant y m 1 0 \<le> date_instant y' m' d' tod \<longleftrightarrow> date_days y m 1 \<le> date_days y' m' d'"
proof -
  have pos: "0 < day" by (simp add: duration_defs)
  show ?thesis
  proof
    assume "date_instant y m 1 0 \<le> date_instant y' m' d' tod"
    then have "date_days y m 1 * day < (date_days y' m' d' + 1) * day"
      using assms by (simp add: date_instant_def algebra_simps)
    then have "date_days y m 1 < date_days y' m' d' + 1"
      using pos mult_less_cancel_right_pos by blast
    then show "date_days y m 1 \<le> date_days y' m' d'" by simp
  next
    assume "date_days y m 1 \<le> date_days y' m' d'"
    then have "date_days y m 1 * day \<le> date_days y' m' d' * day"
      using pos by (simp add: mult_right_mono)
    then show "date_instant y m 1 0 \<le> date_instant y' m' d' tod"
      using assms unfolding date_instant_def by linarith
  qed
qed

end
