(* ===== verification/Anilist_Show.thy ===== *)
theory Anilist_Show
  imports Go_Calendar
begin

text \<open>
  The AniList show record and its predicates (\<open>internal/anilist/anilist.go\<close>, the types and the
  methods of \<open>Show\<close>). A Go pointer that may be nil is an \<open>option\<close>. \<open>IsWithinMonths\<close> reads the
  clock; the model takes the moment as an argument.
\<close>

record tag =
  tag_Name :: string

record relation_edge =
  RelationType :: string

record relation_block =
  Edges :: "relation_edge list"

record fuzzy_date =
  fd_Year :: "int option"
  fd_Month :: "int option"
  fd_Day :: "int option"

record show_title =
  English :: "string option"
  Romaji :: "string option"

record anilist_show =
  sh_ID :: int
  sh_IDMal :: "int option"
  sh_Title :: show_title
  sh_Format :: string
  sh_Duration :: "int option"
  sh_Tags :: "tag list"
  sh_Season :: string
  sh_StartDate :: fuzzy_date
  sh_Relations :: "relation_block option"

fun is_new_edges :: "relation_edge list \<Rightarrow> bool" where
  "is_new_edges [] = True"
| "is_new_edges (e # es) =
     (if RelationType e = ''PREQUEL'' \<or> RelationType e = ''PARENT'' then False
      else is_new_edges es)"

definition IsNew :: "anilist_show \<Rightarrow> bool" where
  "IsNew s = (case sh_Relations s of None \<Rightarrow> True | Some r \<Rightarrow> is_new_edges (Edges r))"

definition SkipByDuration :: "anilist_show \<Rightarrow> bool" where
  "SkipByDuration s = (case sh_Duration s of None \<Rightarrow> False | Some d \<Rightarrow> d \<le> 10)"

fun has_tag_in :: "tag list \<Rightarrow> string \<Rightarrow> bool" where
  "has_tag_in [] name = False"
| "has_tag_in (t # ts) name = (if equal_fold (tag_Name t) name then True else has_tag_in ts name)"

definition HasTag :: "anilist_show \<Rightarrow> string \<Rightarrow> bool" where
  "HasTag s name = has_tag_in (sh_Tags s) name"

definition IsWithinMonths :: "civil \<Rightarrow> anilist_show \<Rightarrow> int \<Rightarrow> bool" where
  "IsWithinMonths now s months =
     (case (fd_Year (sh_StartDate s), fd_Month (sh_StartDate s)) of
        (Some y, Some m) \<Rightarrow> \<not> (add_months now months < date_instant y m 1 0)
      | _ \<Rightarrow> True)"

definition DisplayTitle :: "anilist_show \<Rightarrow> string" where
  "DisplayTitle s =
     (case English (sh_Title s) of
        Some (c # cs) \<Rightarrow> c # cs
      | _ \<Rightarrow> (case Romaji (sh_Title s) of
                Some r \<Rightarrow> r
              | None \<Rightarrow> ''Anime #'' @ fmt_d (sh_ID s)))"

section \<open>Lemmas\<close>

lemma is_new_edges_iff:
  "is_new_edges es \<longleftrightarrow> (\<forall>e \<in> set es. RelationType e \<noteq> ''PREQUEL'' \<and> RelationType e \<noteq> ''PARENT'')"
  by (induction es) auto

lemma has_tag_in_iff: "has_tag_in ts name \<longleftrightarrow> (\<exists>t \<in> set ts. equal_fold (tag_Name t) name)"
  by (induction ts) auto

lemma IsWithinMonths_known:
  assumes "fd_Year (sh_StartDate s) = Some y" "fd_Month (sh_StartDate s) = Some m"
    and "0 \<le> c_tod now" "c_tod now < day"
  shows "IsWithinMonths now s n \<longleftrightarrow>
    first_day (12 * y + m - 1)
      \<le> first_day (12 * c_year now + c_month now + n - 1) + (c_day now - 1)"
proof -
  have "IsWithinMonths now s n \<longleftrightarrow>
      date_days y m 1 \<le> date_days (c_year now) (c_month now + n) (c_day now)"
    using assms
    by (simp add: IsWithinMonths_def add_months_def not_less date_instant_le_iff)
  then show ?thesis by (simp add: date_days_index algebra_simps)
qed

text \<open>
  Claim C26. For a show with a known start month, counted in months from the current one: every
  start up to \<open>n\<close> months ahead is kept, nothing more than \<open>n + 1\<close> months ahead is, and up to the
  28th of the month the limit is exactly \<open>n\<close> months. (On the last days of a month
  \<open>AddDate\<close> may overflow into the month after the target one and let one more month through.)
\<close>

theorem IsWithinMonths_months_ahead:
  fixes now n
  defines "ahead s y m \<equiv> 12 * y + m - (12 * c_year now + c_month now)"
  assumes "civil_ok now" "fd_Year (sh_StartDate s) = Some y" "fd_Month (sh_StartDate s) = Some m"
  shows "(ahead s y m \<le> n \<longrightarrow> IsWithinMonths now s n)
    \<and> (n + 1 < ahead s y m \<longrightarrow> \<not> IsWithinMonths now s n)
    \<and> (c_day now \<le> 28 \<longrightarrow> IsWithinMonths now s n = (ahead s y m \<le> n))"
proof -
  let ?i = "12 * y + m - 1" and ?j = "12 * c_year now + c_month now + n - 1" and ?k = "c_day now - 1"
  have day: "0 \<le> ?k" "?k \<le> 30" and tod: "0 \<le> c_tod now" "c_tod now < day"
    using assms(2) days_in_month_bounds [of "c_year now" "c_month now"] by (auto simp: civil_ok_def)
  have iff: "IsWithinMonths now s n \<longleftrightarrow> first_day ?i \<le> first_day ?j + ?k"
    using IsWithinMonths_known [OF assms(3,4) tod] by simp
  have "first_day ?i \<le> first_day ?j + ?k" if "?i \<le> ?j"
    using first_day_mono [OF that] day that by (simp add: algebra_simps)
  moreover have "?i \<le> ?j + 1" if "first_day ?i \<le> first_day ?j + ?k"
    using first_day_le_next [OF day(2) that] .
  moreover have "first_day ?i \<le> first_day ?j + ?k \<longleftrightarrow> ?i \<le> ?j" if "c_day now \<le> 28"
    using first_day_le_iff [of ?k ?i ?j] day that by simp
  ultimately show ?thesis by (auto simp: iff ahead_def)
qed

text \<open>On 31 January 2023 with \<open>n = 1\<close>: February is kept, and so is March, as 31 February is 3 March.\<close>

lemma IsWithinMonths_months_ahead_witness:
  fixes s
  defines "now \<equiv> \<lparr>c_year = 2023, c_month = 1, c_day = 31, c_tod = 0\<rparr>"
    and "show_in m \<equiv> \<lparr>sh_ID = 1, sh_IDMal = None, sh_Title = \<lparr>English = None, Romaji = None\<rparr>,
      sh_Format = ''TV'', sh_Duration = None, sh_Tags = [], sh_Season = [],
      sh_StartDate = \<lparr>fd_Year = Some 2023, fd_Month = Some m, fd_Day = None\<rparr>, sh_Relations = None\<rparr>"
  shows "IsWithinMonths now (show_in 2) 1 \<and> IsWithinMonths now (show_in 3) 1 \<and> \<not> IsWithinMonths now (show_in 4) 1"
proof -
  have ok: "civil_ok now"
    by (simp add: now_def civil_ok_def days_in_month_def date_days_def Let_def days_to_year_def
        days_before_def is_leap_def duration_defs)
  have "IsWithinMonths now (show_in 3) 1"
    by (simp add: now_def show_in_def IsWithinMonths_def add_months_def date_instant_def date_days_def
        Let_def days_to_year_def days_before_def is_leap_def duration_defs)
  moreover have "IsWithinMonths now (show_in 2) 1" "\<not> IsWithinMonths now (show_in 4) 1"
    using IsWithinMonths_months_ahead [OF ok, of "show_in 2" 2023 2 1]
      IsWithinMonths_months_ahead [OF ok, of "show_in 4" 2023 4 1]
    by (simp_all add: show_in_def now_def)
  ultimately show ?thesis by simp
qed

end
