(* ===== verification/Show_Filter.thy ===== *)
theory Show_Filter
  imports Anilist_Show
begin

text \<open>
  The filters of \<open>internal/filter/filter.go\<close>. Each Go filter walks its input once and appends the
  kept shows to \<open>shows[:0]\<close>, so it writes into the array it is reading. The list functions below
  give what the returned slice holds; the functions named \<open>_array\<close> are the loops on the backing array, and
  \<open>filters_in_place\<close> shows that their results are those of the list functions.
\<close>

section \<open>The filters\<close>

record filter_stats =
  SkippedDuration :: int
  SkippedTags :: int

fun hasExcludedTag :: "anilist_show \<Rightarrow> string list \<Rightarrow> bool" where
  "hasExcludedTag sh [] = False"
| "hasExcludedTag sh (ex # exs) =
     (if ex = [] then hasExcludedTag sh exs
      else if HasTag sh ex then True
      else hasExcludedTag sh exs)"

fun filter_stats_loop ::
    "anilist_show list \<Rightarrow> string list \<Rightarrow> anilist_show list \<Rightarrow> filter_stats \<Rightarrow>
     anilist_show list \<times> filter_stats" where
  "filter_stats_loop [] tags out st = (out, st)"
| "filter_stats_loop (sh # shs) tags out st =
     (if SkipByDuration sh
      then filter_stats_loop shs tags out (st\<lparr>SkippedDuration := SkippedDuration st + 1\<rparr>)
      else if hasExcludedTag sh tags
      then filter_stats_loop shs tags out (st\<lparr>SkippedTags := SkippedTags st + 1\<rparr>)
      else filter_stats_loop shs tags (out @ [sh]) st)"

definition FilterWithStats ::
    "anilist_show list \<Rightarrow> string list \<Rightarrow> anilist_show list \<times> filter_stats" where
  "FilterWithStats shows tags =
     filter_stats_loop shows tags [] \<lparr>SkippedDuration = 0, SkippedTags = 0\<rparr>"

fun future_loop ::
    "civil \<Rightarrow> anilist_show list \<Rightarrow> int \<Rightarrow> anilist_show list \<Rightarrow> int \<Rightarrow> anilist_show list \<times> int" where
  "future_loop now [] months out skipped = (out, skipped)"
| "future_loop now (sh # shs) months out skipped =
     (if \<not> IsWithinMonths now sh months then future_loop now shs months out (skipped + 1)
      else future_loop now shs months (out @ [sh]) skipped)"

definition FilterFutureWithStats ::
    "civil \<Rightarrow> anilist_show list \<Rightarrow> int \<Rightarrow> anilist_show list \<times> int" where
  "FilterFutureWithStats now shows aheadMonths =
     (if aheadMonths \<le> 0 then (shows, 0) else future_loop now shows aheadMonths [] 0)"

fun FilterByFormats :: "anilist_show list \<Rightarrow> string list \<Rightarrow> anilist_show list" where
  "FilterByFormats [] formats = []"
| "FilterByFormats (sh # shs) formats =
     (if List.member formats (sh_Format sh) then sh # FilterByFormats shs formats
      else FilterByFormats shs formats)"

text \<open>The switch over the season names.\<close>

definition season_has_month :: "string \<Rightarrow> int \<Rightarrow> bool" where
  "season_has_month season m =
     (if season = ''WINTER'' then m = 12 \<or> m = 1 \<or> m = 2 \<or> m = 3
      else if season = ''SPRING'' then 4 \<le> m \<and> m \<le> 6
      else if season = ''SUMMER'' then 7 \<le> m \<and> m \<le> 9
      else if season = ''FALL'' then m = 10 \<or> m = 11
      else False)"

definition keep_season :: "string \<Rightarrow> anilist_show \<Rightarrow> bool" where
  "keep_season season sh =
     (if sh_Season sh = season then True
      else if sh_Season sh \<noteq> [] then False
      else (case fd_Month (sh_StartDate sh) of
              None \<Rightarrow> False
            | Some m \<Rightarrow> if m < 1 \<or> 12 < m then False else season_has_month season m))"

fun season_loop :: "string \<Rightarrow> anilist_show list \<Rightarrow> anilist_show list" where
  "season_loop season [] = []"
| "season_loop season (sh # shs) =
     (if keep_season season sh then sh # season_loop season shs else season_loop season shs)"

definition FilterBySeason :: "anilist_show list \<Rightarrow> string \<Rightarrow> anilist_show list" where
  "FilterBySeason shows season = (if season = ''ALL'' then shows else season_loop season shows)"

fun FilterFirstSeason :: "anilist_show list \<Rightarrow> anilist_show list" where
  "FilterFirstSeason [] = []"
| "FilterFirstSeason (sh # shs) =
     (if IsNew sh then sh # FilterFirstSeason shs else FilterFirstSeason shs)"

section \<open>The loops on the backing array\<close>

text \<open>
  \<open>out := shows[:0]\<close> and then \<open>range shows\<close>: the element read at i is the array's current one, and an append writes the
  array at position w, the length of \<open>out\<close>. The body of a loop says whether it appends the element, and keeps counters.
  The result is the array, w and the counters.
\<close>

function range_append :: "('a \<Rightarrow> 's \<Rightarrow> bool \<times> 's) \<Rightarrow> 'a list \<Rightarrow> nat \<Rightarrow> 's \<Rightarrow> nat \<Rightarrow> nat \<Rightarrow> 'a list \<times> nat \<times> 's" where
  "range_append body arr n st i w =
     (if i < n then
        (case body (arr ! i) st of
           (True, st') \<Rightarrow> range_append body (arr[w := arr ! i]) n st' (Suc i) (Suc w)
         | (False, st') \<Rightarrow> range_append body arr n st' (Suc i) w)
      else (arr, w, st))"
  by pat_completeness auto
termination
  by (relation "measure (\<lambda>(body, arr, n, st, i, w). n - i)") auto

declare range_append.simps [simp del]

definition stats_body :: "string list \<Rightarrow> anilist_show \<Rightarrow> filter_stats \<Rightarrow> bool \<times> filter_stats" where
  "stats_body tags sh st =
     (if SkipByDuration sh then (False, st\<lparr>SkippedDuration := SkippedDuration st + 1\<rparr>)
      else if hasExcludedTag sh tags then (False, st\<lparr>SkippedTags := SkippedTags st + 1\<rparr>)
      else (True, st))"

definition FilterWithStats_array ::
    "anilist_show list \<Rightarrow> nat \<Rightarrow> string list \<Rightarrow> anilist_show list \<times> nat \<times> filter_stats" where
  "FilterWithStats_array arr n tags =
     range_append (stats_body tags) arr n \<lparr>SkippedDuration = 0, SkippedTags = 0\<rparr> 0 0"

definition future_body :: "civil \<Rightarrow> int \<Rightarrow> anilist_show \<Rightarrow> int \<Rightarrow> bool \<times> int" where
  "future_body now months sh skipped =
     (if \<not> IsWithinMonths now sh months then (False, skipped + 1) else (True, skipped))"

definition FilterFutureWithStats_array ::
    "civil \<Rightarrow> anilist_show list \<Rightarrow> nat \<Rightarrow> int \<Rightarrow> anilist_show list \<times> nat \<times> int" where
  "FilterFutureWithStats_array now arr n aheadMonths =
     (if aheadMonths \<le> 0 then (arr, n, 0) else range_append (future_body now aheadMonths) arr n 0 0 0)"

definition formats_body :: "string list \<Rightarrow> anilist_show \<Rightarrow> unit \<Rightarrow> bool \<times> unit" where
  "formats_body formats sh st = (if List.member formats (sh_Format sh) then (True, st) else (False, st))"

definition FilterByFormats_array ::
    "anilist_show list \<Rightarrow> nat \<Rightarrow> string list \<Rightarrow> anilist_show list \<times> nat \<times> unit" where
  "FilterByFormats_array arr n formats = range_append (formats_body formats) arr n () 0 0"

definition season_body :: "string \<Rightarrow> anilist_show \<Rightarrow> unit \<Rightarrow> bool \<times> unit" where
  "season_body season sh st =
     (if sh_Season sh = season then (True, st)
      else if sh_Season sh \<noteq> [] then (False, st)
      else (case fd_Month (sh_StartDate sh) of
              None \<Rightarrow> (False, st)
            | Some m \<Rightarrow> if m < 1 \<or> 12 < m then (False, st) else (season_has_month season m, st)))"

definition FilterBySeason_array ::
    "anilist_show list \<Rightarrow> nat \<Rightarrow> string \<Rightarrow> anilist_show list \<times> nat \<times> unit" where
  "FilterBySeason_array arr n season =
     (if season = ''ALL'' then (arr, n, ()) else range_append (season_body season) arr n () 0 0)"

definition first_body :: "anilist_show \<Rightarrow> unit \<Rightarrow> bool \<times> unit" where
  "first_body sh st = (if IsNew sh then (True, st) else (False, st))"

definition FilterFirstSeason_array :: "anilist_show list \<Rightarrow> nat \<Rightarrow> anilist_show list \<times> nat \<times> unit" where
  "FilterFirstSeason_array arr n = range_append first_body arr n () 0 0"

text \<open>The loop as a fold over the elements that are still to be read.\<close>

fun kept :: "('a \<Rightarrow> 's \<Rightarrow> bool \<times> 's) \<Rightarrow> 'a list \<Rightarrow> 's \<Rightarrow> 'a list \<times> 's" where
  "kept body [] st = ([], st)"
| "kept body (x # xs) st =
     (case body x st of (keep, st') \<Rightarrow> (case kept body xs st' of (ys, st'') \<Rightarrow> (if keep then x # ys else ys, st'')))"

lemma range_append_done: "\<not> i < n \<Longrightarrow> range_append body arr n st i w = (arr, w, st)"
  by (simp add: range_append.simps)

lemma range_append_more:
  "i < n \<Longrightarrow> body (arr ! i) st = (keep, st') \<Longrightarrow>
    range_append body arr n st i w =
      (if keep then range_append body (arr[w := arr ! i]) n st' (Suc i) (Suc w) else range_append body arr n st' (Suc i) w)"
  by (cases keep) (simp_all add: range_append.simps [of body arr n st i w])

text \<open>What the loop has left to do from read index i with w elements written.\<close>

lemma range_append_kept_gen:
  assumes "w \<le> i" "i \<le> n" "n \<le> length arr" "range_append body arr n st i w = (arr', w', st')"
  shows "take w' arr' = take w arr @ fst (kept body (drop i (take n arr)) st)
    \<and> st' = snd (kept body (drop i (take n arr)) st)
    \<and> length arr' = length arr \<and> drop n arr' = drop n arr \<and> w' \<le> n"
  using assms
proof (induction "n - i" arbitrary: arr i st w)
  case 0
  then show ?case by (simp add: range_append_done)
next
  case (Suc k)
  then have lt: "i < n" by simp
  then have split: "drop i (take n arr) = arr ! i # drop (Suc i) (take n arr)"
    using Suc.prems(3) Cons_nth_drop_Suc [of i "take n arr"] by simp
  obtain keep st1 where b: "body (arr ! i) st = (keep, st1)" by (cases "body (arr ! i) st")
  note run = Suc.prems(4) [unfolded range_append_more [where body = body and arr = arr and st = st, OF lt b]]
  have k: "k = n - Suc i" using Suc.hyps(2) lt by simp
  show ?case
  proof (cases keep)
    case False
    then have "range_append body arr n st1 (Suc i) w = (arr', w', st')" using run by simp
    from Suc.hyps(1) [OF k _ _ Suc.prems(3) this] show ?thesis
      using Suc.prems(1) lt False b unfolding split by (simp split: prod.splits)
  next
    case True
    let ?arr = "arr[w := arr ! i]"
    have w: "w < length arr" using lt Suc.prems(1,3) by linarith
    have rest: "drop (Suc i) (take n ?arr) = drop (Suc i) (take n arr)" "drop n ?arr = drop n arr"
      using Suc.prems(1) lt by (simp_all add: take_update_swap)
    have front: "take (Suc w) ?arr = take w arr @ [arr ! i]"
      using w by (simp add: take_Suc_conv_app_nth)
    have "range_append body ?arr n st1 (Suc i) (Suc w) = (arr', w', st')" using run True by simp
    from Suc.hyps(1) [OF k _ _ _ this] show ?thesis
      using Suc.prems(1,3) lt True b unfolding split front rest by (simp split: prod.splits)
  qed
qed

text \<open>A slice on an array, of which a filter keeps what the list function gives.\<close>

definition holds_slice :: "'a list \<Rightarrow> nat \<Rightarrow> 'a list \<times> nat \<times> 's \<Rightarrow> 'a list \<Rightarrow> 's \<Rightarrow> bool" where
  "holds_slice arr n r xs st \<longleftrightarrow>
     (case r of (arr', w', st') \<Rightarrow> take w' arr' = xs \<and> st' = st \<and> length arr' = length arr \<and> drop n arr' = drop n arr \<and> w' \<le> n)"

lemma range_append_kept:
  assumes "n \<le> length arr" "kept body (take n arr) st = (xs, st')"
  shows "holds_slice arr n (range_append body arr n st 0 0) xs st'"
  using range_append_kept_gen [OF _ _ assms(1), of 0 0 body st] assms(2)
  by (cases "range_append body arr n st 0 0") (simp add: holds_slice_def)

section \<open>Closed forms\<close>

lemma hasExcludedTag_iff:
  "hasExcludedTag sh tags \<longleftrightarrow> (\<exists>t \<in> set tags. t \<noteq> [] \<and> HasTag sh t)"
  by (induction tags) auto

definition keep_stats :: "string list \<Rightarrow> anilist_show \<Rightarrow> bool" where
  "keep_stats tags sh \<longleftrightarrow> \<not> SkipByDuration sh \<and> \<not> hasExcludedTag sh tags"

lemma filter_stats_loop_eq:
  "filter_stats_loop shs tags out st =
    (out @ filter (keep_stats tags) shs,
     st\<lparr>SkippedDuration := SkippedDuration st + int (length (filter SkipByDuration shs)),
        SkippedTags := SkippedTags st
          + int (length (filter (\<lambda>s. \<not> SkipByDuration s \<and> hasExcludedTag s tags) shs))\<rparr>)"
  by (induction shs arbitrary: out st) (simp_all add: keep_stats_def)

lemma FilterWithStats_eq:
  "FilterWithStats shs tags =
    (filter (keep_stats tags) shs,
     \<lparr>SkippedDuration = int (length (filter SkipByDuration shs)),
      SkippedTags = int (length (filter (\<lambda>s. \<not> SkipByDuration s \<and> hasExcludedTag s tags) shs))\<rparr>)"
  by (simp add: FilterWithStats_def filter_stats_loop_eq)

lemma future_loop_eq:
  "future_loop now shs n out k =
    (out @ filter (\<lambda>s. IsWithinMonths now s n) shs,
     k + int (length (filter (\<lambda>s. \<not> IsWithinMonths now s n) shs)))"
  by (induction shs arbitrary: out k) simp_all

lemma FilterFutureWithStats_eq:
  "0 < n \<Longrightarrow> FilterFutureWithStats now shs n =
    (filter (\<lambda>s. IsWithinMonths now s n) shs,
     int (length (filter (\<lambda>s. \<not> IsWithinMonths now s n) shs)))"
  by (simp add: FilterFutureWithStats_def future_loop_eq)

lemma FilterByFormats_eq: "FilterByFormats shs fmts = filter (\<lambda>s. sh_Format s \<in> set fmts) shs"
  by (induction shs) auto

lemma season_loop_eq: "season_loop season shs = filter (keep_season season) shs"
  by (induction shs) auto

lemma FilterBySeason_eq:
  "FilterBySeason shs season = filter (\<lambda>s. season = ''ALL'' \<or> keep_season season s) shs"
  by (simp add: FilterBySeason_def season_loop_eq)

lemma FilterFirstSeason_eq: "FilterFirstSeason shs = filter IsNew shs"
  by (induction shs) auto

text \<open>A show without an explicit season is in exactly one season of the year.\<close>

definition season_of_month :: "int \<Rightarrow> string" where
  "season_of_month m =
     (if m = 12 \<or> m \<le> 3 then ''WINTER'' else if m \<le> 6 then ''SPRING''
      else if m \<le> 9 then ''SUMMER'' else ''FALL'')"

lemma season_has_month_iff:
  assumes "1 \<le> m" "m \<le> 12"
  shows "season_has_month season m \<longleftrightarrow> season = season_of_month m"
proof -
  have m: "0 \<le> m - 1" "m - 1 < 12" using assms by simp_all
  show ?thesis
    by (cases rule: twelve_cases [OF m])
      (simp_all add: season_has_month_def season_of_month_def diff_eq_eq)
qed

section \<open>Properties\<close>

text \<open>
  \<open>FilterWithStats\<close> keeps, in order, exactly the shows that are not known to last ten
  minutes or less and carry no excluded tag (compared without case, empty names ignored), and
  every other show is counted once, under duration first.
\<close>

lemma FilterWithStats_keeps:
  "fst (FilterWithStats shs tags) =
     filter (\<lambda>s. (case sh_Duration s of None \<Rightarrow> True | Some d \<Rightarrow> 10 < d)
       \<and> (\<forall>t \<in> set tags. t \<noteq> [] \<longrightarrow> (\<forall>g \<in> set (sh_Tags s). \<not> equal_fold (tag_Name g) t))) shs
   \<and> SkippedDuration (snd (FilterWithStats shs tags)) =
       int (length (filter (\<lambda>s. \<exists>d. sh_Duration s = Some d \<and> d \<le> 10) shs))
   \<and> int (length (fst (FilterWithStats shs tags))) + SkippedDuration (snd (FilterWithStats shs tags))
       + SkippedTags (snd (FilterWithStats shs tags)) = int (length shs)"
proof (intro conjI)
  show "fst (FilterWithStats shs tags) =
     filter (\<lambda>s. (case sh_Duration s of None \<Rightarrow> True | Some d \<Rightarrow> 10 < d)
       \<and> (\<forall>t \<in> set tags. t \<noteq> [] \<longrightarrow> (\<forall>g \<in> set (sh_Tags s). \<not> equal_fold (tag_Name g) t))) shs"
  proof -
    have "(\<not> SkipByDuration s) = (case sh_Duration s of None \<Rightarrow> True | Some d \<Rightarrow> 10 < d)" for s
      by (auto simp: SkipByDuration_def split: option.splits)
    then have "keep_stats tags = (\<lambda>s. (case sh_Duration s of None \<Rightarrow> True | Some d \<Rightarrow> 10 < d)
       \<and> (\<forall>t \<in> set tags. t \<noteq> [] \<longrightarrow> (\<forall>g \<in> set (sh_Tags s). \<not> equal_fold (tag_Name g) t)))"
      by (intro ext) (simp only: keep_stats_def hasExcludedTag_iff HasTag_def has_tag_in_iff, blast)
    then show ?thesis by (simp only: FilterWithStats_eq fst_conv)
  qed
  have "SkipByDuration = (\<lambda>s. \<exists>d. sh_Duration s = Some d \<and> d \<le> 10)"
    by (auto simp: SkipByDuration_def split: option.splits)
  then show "SkippedDuration (snd (FilterWithStats shs tags)) =
      int (length (filter (\<lambda>s. \<exists>d. sh_Duration s = Some d \<and> d \<le> 10) shs))"
    by (simp add: FilterWithStats_eq)
  show "int (length (fst (FilterWithStats shs tags))) + SkippedDuration (snd (FilterWithStats shs tags))
      + SkippedTags (snd (FilterWithStats shs tags)) = int (length shs)"
    unfolding FilterWithStats_eq by (induction shs) (auto simp: keep_stats_def)
qed

lemma FilterWithStats_keeps_witness:
  fixes tmpl
  defines "sh k d tg \<equiv> \<lparr>sh_ID = k, sh_IDMal = None, sh_Title = \<lparr>English = None, Romaji = None\<rparr>,
      sh_Format = ''TV'', sh_Duration = d, sh_Tags = [\<lparr>tag_Name = tg\<rparr>], sh_Season = [],
      sh_StartDate = \<lparr>fd_Year = None, fd_Month = None, fd_Day = None\<rparr>, sh_Relations = None\<rparr>"
  shows "fst (FilterWithStats [sh 1 (Some 10) ''A'', sh 2 None ''hentai'', sh 3 (Some 24) ''A''] [''Hentai''])
      = [sh 3 (Some 24) ''A'']
    \<and> SkippedDuration (snd (FilterWithStats [sh 1 (Some 10) ''A''] [])) = 1"
proof -
  have "equal_fold ''hentai'' ''Hentai''" "\<not> equal_fold ''A'' ''Hentai''" by code_simp+
  then show ?thesis
    using FilterWithStats_keeps [of "[sh 1 (Some 10) ''A'', sh 2 None ''hentai'', sh 3 (Some 24) ''A'']" "[''Hentai'']"]
      FilterWithStats_keeps [of "[sh 1 (Some 10) ''A'']" "[]"]
    by (simp add: sh_def)
qed

lemma kept_stats:
  "kept (stats_body tags) shs st =
    (let r = filter_stats_loop shs tags [] st in (fst r, snd r))"
  by (induction shs arbitrary: st) (simp_all add: stats_body_def filter_stats_loop_eq keep_stats_def Let_def)

lemma kept_future: "kept (future_body now months) shs k = future_loop now shs months [] k"
  by (induction shs arbitrary: k) (simp_all add: future_body_def future_loop_eq)

lemma kept_formats: "kept (formats_body formats) shs st = (FilterByFormats shs formats, ())"
  by (induction shs) (simp_all add: formats_body_def)

lemma season_body_eq: "season_body season sh st = (keep_season season sh, ())"
  by (simp add: season_body_def keep_season_def split: option.splits)

lemma kept_season: "kept (season_body season) shs st = (season_loop season shs, ())"
  by (induction shs) (simp_all add: season_body_eq)

lemma kept_first: "kept first_body shs st = (FilterFirstSeason shs, ())"
  by (induction shs) (simp_all add: first_body_def)

text \<open>
  Claim C25. The five loops that append to \<open>shows[:0]\<close> while ranging over \<open>shows\<close> overwrite nothing they
  still have to read: on the backing array they compute the filters' results and counters, never grow the array
  and leave what lies beyond the slice untouched.
\<close>

theorem filters_in_place:
  assumes "n \<le> length arr"
  shows "holds_slice arr n (FilterWithStats_array arr n tags)
        (fst (FilterWithStats (take n arr) tags)) (snd (FilterWithStats (take n arr) tags))
    \<and> holds_slice arr n (FilterFutureWithStats_array now arr n months)
        (fst (FilterFutureWithStats now (take n arr) months)) (snd (FilterFutureWithStats now (take n arr) months))
    \<and> holds_slice arr n (FilterByFormats_array arr n formats) (FilterByFormats (take n arr) formats) ()
    \<and> holds_slice arr n (FilterBySeason_array arr n season) (FilterBySeason (take n arr) season) ()
    \<and> holds_slice arr n (FilterFirstSeason_array arr n) (FilterFirstSeason (take n arr)) ()"
proof (intro conjI)
  show "holds_slice arr n (FilterWithStats_array arr n tags)
      (fst (FilterWithStats (take n arr) tags)) (snd (FilterWithStats (take n arr) tags))"
    unfolding FilterWithStats_array_def FilterWithStats_def
    by (rule range_append_kept [OF assms]) (simp add: kept_stats Let_def)
  show "holds_slice arr n (FilterFutureWithStats_array now arr n months)
      (fst (FilterFutureWithStats now (take n arr) months)) (snd (FilterFutureWithStats now (take n arr) months))"
  proof (cases "months \<le> 0")
    case True
    then show ?thesis by (simp add: FilterFutureWithStats_array_def FilterFutureWithStats_def holds_slice_def)
  next
    case False
    then show ?thesis
      unfolding FilterFutureWithStats_array_def FilterFutureWithStats_def
      by (simp add: range_append_kept [OF assms] kept_future)
  qed
  show "holds_slice arr n (FilterByFormats_array arr n formats) (FilterByFormats (take n arr) formats) ()"
    unfolding FilterByFormats_array_def by (rule range_append_kept [OF assms kept_formats])
  show "holds_slice arr n (FilterBySeason_array arr n season) (FilterBySeason (take n arr) season) ()"
    using range_append_kept [OF assms kept_season]
    by (simp add: FilterBySeason_array_def FilterBySeason_def holds_slice_def)
  show "holds_slice arr n (FilterFirstSeason_array arr n) (FilterFirstSeason (take n arr)) ()"
    unfolding FilterFirstSeason_array_def by (rule range_append_kept [OF assms kept_first])
qed

definition dated_show :: "int \<Rightarrow> string \<Rightarrow> anilist_show" where
  "dated_show k rel = \<lparr>sh_ID = k, sh_IDMal = None, sh_Title = \<lparr>English = None, Romaji = None\<rparr>,
     sh_Format = ''TV'', sh_Duration = None, sh_Tags = [], sh_Season = [],
     sh_StartDate = \<lparr>fd_Year = Some 2030, fd_Month = Some k, fd_Day = None\<rparr>,
     sh_Relations = Some \<lparr>Edges = [\<lparr>RelationType = rel\<rparr>]\<rparr>\<rparr>"

lemma filters_in_place_witness:
  "holds_slice [dated_show 4 ''PREQUEL'', dated_show 1 ''OTHER'', dated_show 9 ''OTHER''] 2
      (FilterFirstSeason_array [dated_show 4 ''PREQUEL'', dated_show 1 ''OTHER'', dated_show 9 ''OTHER''] 2)
      [dated_show 1 ''OTHER''] ()
    \<and> holds_slice [dated_show 4 [], dated_show 1 [], dated_show 9 []] 2
      (FilterFutureWithStats_array \<lparr>c_year = 2029, c_month = 12, c_day = 5, c_tod = 0\<rparr>
        [dated_show 4 [], dated_show 1 [], dated_show 9 []] 2 2)
      [dated_show 1 []] 1"
proof -
  let ?now = "\<lparr>c_year = 2029, c_month = 12, c_day = 5, c_tod = 0\<rparr>"
  have fut: "FilterFutureWithStats ?now [dated_show 4 [], dated_show 1 []] 2 = ([dated_show 1 []], 1)"
    and first: "FilterFirstSeason [dated_show 4 ''PREQUEL'', dated_show 1 ''OTHER''] = [dated_show 1 ''OTHER'']"
    by code_simp+
  have "2 \<le> length [dated_show 4 r, dated_show 1 r', dated_show 9 r'']" for r r' r'' by simp
  note all = filters_in_place [OF this]
  have "take 2 [dated_show 4 r, dated_show 1 r', dated_show 9 r''] = [dated_show 4 r, dated_show 1 r']" for r r' r''
    by simp
  note slices = all [unfolded this]
  show ?thesis
    using slices(1) [of "''PREQUEL''" "''OTHER''" "''OTHER''"] slices(1) [of "[]" "[]" "[]" _ ?now 2]
    unfolding fut first by simp
qed

text \<open>
  The four seasons split the shows of a year: a show with an explicit season is listed
  under that season only, one without a season under the season of its start month (December to
  March, then quarters, October and November), and only shows with neither are in none of them.
\<close>

lemma FilterBySeason_partition:
  assumes "s \<in> set shs" "season \<noteq> []"
  shows "s \<in> set (FilterBySeason shs season) \<longleftrightarrow>
    season = ''ALL'' \<or>
    (if sh_Season s \<noteq> [] then season = sh_Season s
     else (case fd_Month (sh_StartDate s) of
             None \<Rightarrow> False
           | Some m \<Rightarrow> 1 \<le> m \<and> m \<le> 12 \<and> season = season_of_month m))"
  using assms
  by (auto simp: FilterBySeason_eq keep_season_def season_has_month_iff not_less split: option.splits)

lemma FilterBySeason_partition_witness:
  fixes s
  defines "sh m \<equiv> \<lparr>sh_ID = 1, sh_IDMal = None, sh_Title = \<lparr>English = None, Romaji = None\<rparr>,
      sh_Format = ''TV'', sh_Duration = None, sh_Tags = [], sh_Season = [],
      sh_StartDate = \<lparr>fd_Year = Some 2024, fd_Month = Some m, fd_Day = None\<rparr>, sh_Relations = None\<rparr>"
  shows "sh 3 \<in> set (FilterBySeason [sh 3] ''WINTER'') \<and> sh 3 \<notin> set (FilterBySeason [sh 3] ''SPRING'')"
  using FilterBySeason_partition [of "sh 3" "[sh 3]" "''WINTER''"]
    FilterBySeason_partition [of "sh 3" "[sh 3]" "''SPRING''"]
  by (simp add: sh_def season_of_month_def)

end
