(* ===== verification/Mapping_Resolve.thy ===== *)
theory Mapping_Resolve
  imports Anilist_Show
begin

text \<open>
  The in-memory anibridge mapping, its key snapshots and the resolver
  (\<open>internal/mapping/anibridge.go\<close>, \<open>internal/mapping/resolve.go\<close>). The resolver's atomic pointer
  is an \<open>option\<close>; a lookup reads it once and works on that snapshot.
\<close>

section \<open>The mapping and its metadata\<close>

record anibridge_mapping =
  byMAL :: "(int, int) gomap"
  byAniList :: "(int, int) gomap"

definition mapping_wf :: "anibridge_mapping \<Rightarrow> bool" where
  "mapping_wf m \<longleftrightarrow> mwf (byMAL m) \<and> mwf (byAniList m)"

definition NewAnibridgeMapping ::
    "(int, int) gomap \<Rightarrow> (int, int) gomap \<Rightarrow> anibridge_mapping" where
  "NewAnibridgeMapping mal ani = \<lparr>byMAL = mal, byAniList = ani\<rparr>"

definition LookupByMAL :: "anibridge_mapping \<Rightarrow> int \<Rightarrow> int option" where
  "LookupByMAL m malID = mget (byMAL m) malID"

definition LookupByAniList :: "anibridge_mapping \<Rightarrow> int \<Rightarrow> int option" where
  "LookupByAniList m anilistID = mget (byAniList m) anilistID"

definition Stats :: "anibridge_mapping \<Rightarrow> nat \<times> nat" where
  "Stats m = (length (mkeys (byMAL m)), length (mkeys (byAniList m)))"

definition Keys :: "anibridge_mapping \<Rightarrow> int list \<times> int list" where
  "Keys m = (sort (mkeys (byMAL m)), sort (mkeys (byAniList m)))"

record metadata =
  ETag :: string
  LastModified :: string
  MD5 :: string
  FetchedAt :: instant
  URL :: string
  MALKeys :: "int list"
  AniListKeys :: "int list"

definition zero_metadata :: metadata where
  "zero_metadata = \<lparr>ETag = [], LastModified = [], MD5 = [], FetchedAt = 0, URL = [],
     MALKeys = [], AniListKeys = []\<rparr>"

text \<open>Two loops over Go maps used as sets; the result is the second map's size.\<close>

definition present_keys :: "int list \<Rightarrow> (int, bool) gomap" where
  "present_keys ks = fold (\<lambda>k. mput k True) ks []"

definition missing_step ::
    "(int, bool) gomap \<Rightarrow> int \<Rightarrow> (int, bool) gomap \<Rightarrow> (int, bool) gomap" where
  "missing_step present k missing =
     (if mget present k = Some True then missing else mput k True missing)"

definition countMissing :: "int list \<Rightarrow> int list \<Rightarrow> nat" where
  "countMissing from_ks in_ks =
     length (mkeys (fold (missing_step (present_keys in_ks)) from_ks []))"

definition diffKeyCounts :: "metadata \<Rightarrow> metadata \<Rightarrow> nat \<times> nat" where
  "diffKeyCounts prev cur =
     (countMissing (MALKeys cur) (MALKeys prev) + countMissing (AniListKeys cur) (AniListKeys prev),
      countMissing (MALKeys prev) (MALKeys cur) + countMissing (AniListKeys prev) (AniListKeys cur))"

section \<open>The resolver\<close>

record resolved_show =
  TVDBID :: int
  rs_Title :: string
  Resolved :: bool

type_synonym resolver = "anibridge_mapping option"

definition NewResolver :: resolver where
  "NewResolver = None"

definition SetMapping :: "anibridge_mapping option \<Rightarrow> resolver \<Rightarrow> resolver" where
  "SetMapping m r = (case m of None \<Rightarrow> r | Some _ \<Rightarrow> m)"

definition resolveShow :: "anibridge_mapping option \<Rightarrow> anilist_show \<Rightarrow> int \<times> bool" where
  "resolveShow m s =
     (case m of
        None \<Rightarrow> (0, False)
      | Some mp \<Rightarrow>
          let fallback =
            (if 0 < sh_ID s then
               (case LookupByAniList mp (sh_ID s) of
                  Some tvdb \<Rightarrow> (tvdb, True)
                | None \<Rightarrow> (0, False))
             else (0, False))
          in (case sh_IDMal s of
                None \<Rightarrow> fallback
              | Some mal \<Rightarrow>
                  if 0 < mal then
                    (case LookupByMAL mp mal of
                       Some tvdb \<Rightarrow> (tvdb, True)
                     | None \<Rightarrow> fallback)
                  else fallback))"

definition resolve_one :: "anibridge_mapping option \<Rightarrow> anilist_show \<Rightarrow> resolved_show" where
  "resolve_one m s =
     (let rs = \<lparr>TVDBID = 0, rs_Title = DisplayTitle s, Resolved = False\<rparr>
      in (case resolveShow m s of
            (tvdb, ok) \<Rightarrow> if ok then rs\<lparr>TVDBID := tvdb, Resolved := True\<rparr> else rs))"

definition ResolveBatch ::
    "anibridge_mapping option \<Rightarrow> anilist_show list \<Rightarrow> (int, resolved_show) gomap" where
  "ResolveBatch m shows = fold (\<lambda>s. mput (sh_ID s) (resolve_one m s)) shows []"

section \<open>Lemmas\<close>

lemma mget_present_keys: "mget (present_keys ks) j = (if j \<in> set ks then Some True else None)"
proof -
  have "mget (fold (\<lambda>k. mput k True) ks m) j = (if j \<in> set ks then Some True else mget m j)" for m
    by (induction ks arbitrary: m) auto
  then show ?thesis by (simp add: present_keys_def)
qed

lemma fold_missing:
  assumes "mwf m" "present = present_keys ks"
  shows "mwf (fold (missing_step present) xs m)
    \<and> set (mkeys (fold (missing_step present) xs m)) = set (mkeys m) \<union> (set xs - set ks)"
  using assms(1)
proof (induction xs arbitrary: m)
  case Nil
  then show ?case by simp
next
  case (Cons x xs)
  have step: "mwf (missing_step present x m)"
    "set (mkeys (missing_step present x m)) = set (mkeys m) \<union> ({x} - set ks)"
    using Cons.prems assms(2)
    by (auto simp: missing_step_def mget_present_keys gm.keys_get gm.ok_put)
  show ?case
    using Cons.IH [OF step(1)] step(2) by auto
qed

lemma countMissing_card: "countMissing xs ks = card (set xs - set ks)"
proof -
  let ?m = "fold (missing_step (present_keys ks)) xs []"
  have "mwf ?m" "set (mkeys ?m) = set xs - set ks"
    using fold_missing [OF gm.ok_emp refl, of ks xs] by (simp_all add: mkeys_def)
  then show ?thesis
    unfolding countMissing_def by (metis distinct_card gm.keys_distinct)
qed

lemma card_balance:
  assumes "finite A" "finite B"
  shows "card (A - B) + card B = card (B - A) + card A"
proof -
  have "card A = card (A \<inter> B) + card (A - B)" "card B = card (A \<inter> B) + card (B - A)"
    using assms by (metis card_Int_Diff, metis Int_commute card_Int_Diff)
  then show ?thesis by simp
qed

lemma find_append:
  "find P (xs @ ys) = (case find P xs of None \<Rightarrow> find P ys | Some x \<Rightarrow> Some x)"
  by (induction xs) auto

lemma mget_ResolveBatch_gen:
  "mget (fold (\<lambda>s. mput (sh_ID s) (resolve_one m s)) shs acc) k =
    (case find (\<lambda>s. sh_ID s = k) (rev shs) of
       None \<Rightarrow> mget acc k | Some s \<Rightarrow> Some (resolve_one m s))"
proof (induction shs arbitrary: acc)
  case Nil
  then show ?case by simp
next
  case (Cons s shs)
  then show ?case by (auto simp: find_append split: option.splits)
qed

lemma mget_ResolveBatch:
  "mget (ResolveBatch m shs) k =
    map_option (resolve_one m) (find (\<lambda>s. sh_ID s = k) (rev shs))"
  by (simp add: ResolveBatch_def mget_ResolveBatch_gen split: option.splits)

lemma Resolved_iff: "Resolved (resolve_one m s) \<longleftrightarrow> snd (resolveShow m s)"
  by (cases "resolveShow m s") (simp add: resolve_one_def Let_def)

lemma TVDBID_resolve_one: "snd (resolveShow m s) \<Longrightarrow> TVDBID (resolve_one m s) = fst (resolveShow m s)"
  by (cases "resolveShow m s") (simp add: resolve_one_def Let_def)

lemma rs_Title_resolve_one [simp]: "rs_Title (resolve_one m s) = DisplayTitle s"
  by (cases "resolveShow m s") (simp add: resolve_one_def Let_def)

lemma resolveShow_None [simp]: "resolveShow None s = (0, False)"
  by (simp add: resolveShow_def)

section \<open>Properties\<close>

text \<open>The id a mapping gives a show: by a positive MAL id first, else by a positive AniList id.\<close>

definition tvdb_for :: "anibridge_mapping option \<Rightarrow> anilist_show \<Rightarrow> int option" where
  "tvdb_for m s =
     (let by_mal = Option.bind m (\<lambda>mp. Option.bind (sh_IDMal s) (\<lambda>i. if 0 < i then LookupByMAL mp i else None));
          by_ani = Option.bind m (\<lambda>mp. if 0 < sh_ID s then LookupByAniList mp (sh_ID s) else None)
      in if by_mal \<noteq> None then by_mal else by_ani)"

lemma resolveShow_tvdb_for:
  "resolveShow m s = (case tvdb_for m s of None \<Rightarrow> (0, False) | Some t \<Rightarrow> (t, True))"
  by (auto simp: resolveShow_def tvdb_for_def Let_def split: option.splits)

text \<open>
  Claim C24. The batch answers exactly the ids of the given shows; when an id occurs twice the last
  show counts. A show is resolved when the mapping knows its positive MAL id, or else its
  positive AniList id, and carries that TVDB id and its display title; otherwise it carries TVDB id
  0 and is unresolved. Without a mapping nothing is resolved.
\<close>

theorem ResolveBatch_answers:
  "mget (ResolveBatch m shs) k =
    map_option (\<lambda>s. \<lparr>TVDBID = (case tvdb_for m s of None \<Rightarrow> 0 | Some t \<Rightarrow> t), rs_Title = DisplayTitle s,
        Resolved = (tvdb_for m s \<noteq> None)\<rparr>) (find (\<lambda>s. sh_ID s = k) (rev shs))"
proof -
  have "resolve_one m = (\<lambda>s. \<lparr>TVDBID = (case tvdb_for m s of None \<Rightarrow> 0 | Some t \<Rightarrow> t),
      rs_Title = DisplayTitle s, Resolved = (tvdb_for m s \<noteq> None)\<rparr>)"
    by (rule ext) (auto simp: resolve_one_def Let_def resolveShow_tvdb_for split: option.splits)
  then show ?thesis by (simp only: mget_ResolveBatch)
qed

text \<open>
  The logged difference of two key snapshots counts the distinct ids that appeared and
  those that disappeared, over both id spaces, and accounts for the change of size exactly.
\<close>

lemma diffKeyCounts_counts:
  "fst (diffKeyCounts prev cur) =
     card (set (MALKeys cur) - set (MALKeys prev)) + card (set (AniListKeys cur) - set (AniListKeys prev))
   \<and> snd (diffKeyCounts prev cur) =
     card (set (MALKeys prev) - set (MALKeys cur)) + card (set (AniListKeys prev) - set (AniListKeys cur))
   \<and> fst (diffKeyCounts prev cur) + card (set (MALKeys prev)) + card (set (AniListKeys prev))
     = snd (diffKeyCounts prev cur) + card (set (MALKeys cur)) + card (set (AniListKeys cur))"
  using card_balance [of "set (MALKeys cur)" "set (MALKeys prev)"]
    card_balance [of "set (AniListKeys cur)" "set (AniListKeys prev)"]
  by (simp add: diffKeyCounts_def countMissing_card)

end
