(* ===== verification/Json_Tokens.thy ===== *)
theory Json_Tokens
  imports Bridge_Prelude
begin

text \<open>
  The token stream of \<open>encoding/json\<close>'s \<open>Decoder\<close> as the mapping parser sees it, and the parser's
  routines on it that skip a value (\<open>internal/mapping/parse.go\<close>, \<open>parserToken\<close>, \<open>skipToken\<close>,
  \<open>skipValue\<close>).

  The stream is the list of tokens the decoder will still return and the reason why it returns no
  more after them: the end of the input, invalid syntax, a read error (the size limit included), or
  the cancellation of the context at that point. Cancellation is seen between two tokens: a token
  read while the context ends is dropped by \<open>parserToken\<close>, so it does not belong to the list.
\<close>

section \<open>Documents and their tokens\<close>

datatype json =
    JNull
  | JBool bool
  | JNum string
  | JStr string
  | JArr "json list"
  | JObj "(string \<times> json) list"

datatype delim = LBrace | RBrace | LBrack | RBrack

datatype token = Delim delim | Str string | Num string | Boolean bool | Null

fun toks :: "json \<Rightarrow> token list" where
  "toks JNull = [Null]"
| "toks (JBool b) = [Boolean b]"
| "toks (JNum n) = [Num n]"
| "toks (JStr s) = [Str s]"
| "toks (JArr vs) = Delim LBrack # concat (map toks vs) @ [Delim RBrack]"
| "toks (JObj kvs) = Delim LBrace # concat (map (\<lambda>kv. Str (fst kv) # toks (snd kv)) kvs) @ [Delim RBrace]"

definition member_toks :: "(string \<times> json) list \<Rightarrow> token list" where
  "member_toks kvs = concat (map (\<lambda>kv. Str (fst kv) # toks (snd kv)) kvs)"

lemma member_toks_simps [simp]:
  "member_toks [] = []"
  "member_toks (kv # kvs) = Str (fst kv) # toks (snd kv) @ member_toks kvs"
  by (simp_all add: member_toks_def)

lemma toks_JObj: "toks (JObj kvs) = Delim LBrace # member_toks kvs @ [Delim RBrace]"
  by (simp add: member_toks_def)

text \<open>How many containers are open at once in a value.\<close>

fun depth :: "json \<Rightarrow> nat" where
  "depth (JArr vs) = Suc (foldr max (map depth vs) 0)"
| "depth (JObj kvs) = Suc (foldr max (map (\<lambda>kv. depth (snd kv)) kvs) 0)"
| "depth _ = 0"

definition members_depth :: "(string \<times> json) list \<Rightarrow> nat" where
  "members_depth kvs = foldr max (map (\<lambda>kv. depth (snd kv)) kvs) 0"

lemma members_depth_simps [simp]:
  "members_depth [] = 0"
  "members_depth (kv # kvs) = max (depth (snd kv)) (members_depth kvs)"
  by (simp_all add: members_depth_def)

lemma depth_JObj: "depth (JObj kvs) = Suc (members_depth kvs)"
  by (simp add: members_depth_def)

section \<open>The decoder\<close>

datatype dec_end = EndEOF | EndSyntax | EndRead | EndCancel ctx_err

datatype sem_err = BadMetaType | BadMetaField | BadEpisodes | BadDestination | BadRange

datatype parse_err =
    Eof
  | Syntax
  | ReadError
  | Ctx ctx_err
  | MaxDepth
  | NotObject
  | KeyNotString
  | BadTargets
  | Semantic sem_err
  | TypePanic

fun end_err :: "dec_end \<Rightarrow> parse_err" where
  "end_err EndEOF = Eof"
| "end_err EndSyntax = Syntax"
| "end_err EndRead = ReadError"
| "end_err (EndCancel c) = Ctx c"

text \<open>What \<open>ctx.Err()\<close> gives between two tokens.\<close>

fun ctx_done :: "dec_end \<Rightarrow> token list \<Rightarrow> ctx_err option" where
  "ctx_done (EndCancel c) [] = Some c"
| "ctx_done _ _ = None"

definition parserToken :: "dec_end \<Rightarrow> token list \<Rightarrow> parse_err + token \<times> token list" where
  "parserToken e ts =
     (case ctx_done e ts of
        Some c \<Rightarrow> Inl (Ctx c)
      | None \<Rightarrow> (case ts of [] \<Rightarrow> Inl (end_err e) | t # ts' \<Rightarrow> Inr (t, ts')))"

text \<open>\<open>Decoder.More()\<close> looks at the next byte: anything but a closing bracket, and not the end.\<close>

fun has_more :: "dec_end \<Rightarrow> token list \<Rightarrow> bool" where
  "has_more e [] = (e = EndSyntax)"
| "has_more e (t # ts) = (t \<noteq> Delim RBrace \<and> t \<noteq> Delim RBrack)"

lemma ctx_done_Cons [simp]: "ctx_done e (t # ts) = None"
  by (cases e) simp_all

lemma parserToken_Cons [simp]: "parserToken e (t # ts) = Inr (t, ts)"
  by (simp add: parserToken_def)

lemma parserToken_Nil [simp]: "parserToken e [] = Inl (end_err e)"
  by (cases e) (simp_all add: parserToken_def)

lemma parserToken_length: "parserToken e ts = Inr (t, ts') \<Longrightarrow> length ts' < length ts"
  by (cases ts) simp_all

section \<open>Skipping a value\<close>

definition maxMappingValueDepth :: nat where
  "maxMappingValueDepth = 10000"

function skip_loop ::
    "dec_end \<Rightarrow> nat \<Rightarrow> delim list \<Rightarrow> token list \<Rightarrow> parse_err + token list" where
  "skip_loop e enclosing stack ts =
     (if stack = [] then Inr ts
      else (case parserToken e ts of
              Inl err \<Rightarrow> Inl err
            | Inr (t, ts') \<Rightarrow>
                (case t of
                   Delim d \<Rightarrow>
                     (if d = LBrace \<or> d = LBrack then
                        (if maxMappingValueDepth < length (d # stack) + enclosing then Inl MaxDepth
                         else skip_loop e enclosing (d # stack) ts')
                      else skip_loop e enclosing (tl stack) ts')
                 | _ \<Rightarrow> skip_loop e enclosing stack ts')))"
  by pat_completeness auto
termination
  by (relation "measure (\<lambda>(e, enclosing, stack, ts). length ts)") (auto dest: parserToken_length)

declare skip_loop.simps [simp del]

definition skipToken ::
    "dec_end \<Rightarrow> token \<Rightarrow> nat \<Rightarrow> token list \<Rightarrow> parse_err + token list" where
  "skipToken e t enclosing ts =
     (case t of
        Delim d \<Rightarrow>
          (if maxMappingValueDepth < length [d] + enclosing then Inl MaxDepth
           else skip_loop e enclosing [d] ts)
      | _ \<Rightarrow> Inr ts)"

definition skipValue :: "dec_end \<Rightarrow> nat \<Rightarrow> token list \<Rightarrow> parse_err + token list" where
  "skipValue e enclosing ts =
     (case parserToken e ts of
        Inl err \<Rightarrow> Inl err
      | Inr (t, ts') \<Rightarrow> skipToken e t enclosing ts')"

section \<open>What skipping does on a document\<close>

text \<open>The scalar tokens and the brackets, one step of the loop each.\<close>

lemma skip_loop_Nil [simp]: "skip_loop e enc [] ts = Inr ts"
  by (simp add: skip_loop.simps)

lemma skip_loop_scalar:
  "stack \<noteq> [] \<Longrightarrow> (\<And>d. t \<noteq> Delim d) \<Longrightarrow>
    skip_loop e enc stack (t # ts) = skip_loop e enc stack ts"
  by (subst skip_loop.simps) (simp split: token.splits)

lemma skip_loop_open:
  "stack \<noteq> [] \<Longrightarrow> d = LBrace \<or> d = LBrack \<Longrightarrow>
    skip_loop e enc stack (Delim d # ts) =
      (if maxMappingValueDepth < Suc (length stack) + enc then Inl MaxDepth
       else skip_loop e enc (d # stack) ts)"
  by (subst skip_loop.simps) auto

lemma skip_loop_close:
  "stack \<noteq> [] \<Longrightarrow> d = RBrace \<or> d = RBrack \<Longrightarrow>
    skip_loop e enc stack (Delim d # ts) = skip_loop e enc (tl stack) ts"
  by (subst skip_loop.simps) auto

lemmas skip_loop_steps = skip_loop_scalar skip_loop_open skip_loop_close

lemma skip_loop_concat:
  assumes "\<And>x rest stack. x \<in> set xs \<Longrightarrow> stack \<noteq> [] \<Longrightarrow>
      length stack + enc \<le> maxMappingValueDepth \<Longrightarrow>
      skip_loop e enc stack (f x @ rest) =
        (if g x + length stack + enc \<le> maxMappingValueDepth then skip_loop e enc stack rest
         else Inl MaxDepth)"
    and "stack \<noteq> []" "length stack + enc \<le> maxMappingValueDepth"
  shows "skip_loop e enc stack (concat (map f xs) @ rest) =
    (if foldr max (map g xs) 0 + length stack + enc \<le> maxMappingValueDepth
     then skip_loop e enc stack rest else Inl MaxDepth)"
  using assms by (induction xs) auto

lemma skip_loop_toks:
  assumes "stack \<noteq> []" "length stack + enc \<le> maxMappingValueDepth"
  shows "skip_loop e enc stack (toks v @ rest) =
    (if depth v + length stack + enc \<le> maxMappingValueDepth then skip_loop e enc stack rest
     else Inl MaxDepth)"
  using assms
proof (induction v arbitrary: stack rest rule: toks.induct)
  case (5 vs)
  show ?case
  proof (cases "Suc (length stack) + enc \<le> maxMappingValueDepth")
    case True
    have "skip_loop e enc (LBrack # stack) (concat (map toks vs) @ Delim RBrack # rest) =
        (if foldr max (map depth vs) 0 + length (LBrack # stack) + enc \<le> maxMappingValueDepth
         then skip_loop e enc (LBrack # stack) (Delim RBrack # rest) else Inl MaxDepth)"
      by (rule skip_loop_concat) (use 5 True in auto)
    with 5 True show ?thesis by (simp add: skip_loop_open skip_loop_close)
  next
    case False
    with 5 show ?thesis by (simp add: skip_loop_open)
  qed
next
  case (6 kvs)
  show ?case
  proof (cases "Suc (length stack) + enc \<le> maxMappingValueDepth")
    case True
    have "skip_loop e enc (LBrace # stack)
          (concat (map (\<lambda>kv. Str (fst kv) # toks (snd kv)) kvs) @ Delim RBrace # rest) =
        (if foldr max (map (\<lambda>kv. depth (snd kv)) kvs) 0 + length (LBrace # stack) + enc
            \<le> maxMappingValueDepth
         then skip_loop e enc (LBrace # stack) (Delim RBrace # rest) else Inl MaxDepth)"
      by (rule skip_loop_concat) (use 6 True in \<open>auto simp: skip_loop_scalar\<close>)
    with 6 True show ?thesis by (simp add: skip_loop_open skip_loop_close)
  next
    case False
    with 6 show ?thesis by (simp add: skip_loop_open)
  qed
qed (simp_all add: skip_loop_scalar)

text \<open>Every value's first token, and what \<open>skipToken\<close> does after it.\<close>

definition head_tok :: "json \<Rightarrow> token" where
  "head_tok v = hd (toks v)"

definition tail_toks :: "json \<Rightarrow> token list" where
  "tail_toks v = tl (toks v)"

lemma toks_split: "toks v = head_tok v # tail_toks v"
  by (cases v) (simp_all add: head_tok_def tail_toks_def)

lemma head_tok_simps [simp]:
  "head_tok JNull = Null" "head_tok (JBool b) = Boolean b" "head_tok (JNum n) = Num n"
  "head_tok (JStr s) = Str s" "head_tok (JArr vs) = Delim LBrack" "head_tok (JObj kvs) = Delim LBrace"
  by (simp_all add: head_tok_def)

lemma has_more_toks [simp]: "has_more e (toks v @ rest)"
  by (cases v) (simp_all)

lemma skipToken_toks:
  assumes "enc < maxMappingValueDepth"
  shows "skipToken e (head_tok v) enc (tail_toks v @ rest) =
    (if depth v + enc \<le> maxMappingValueDepth then Inr rest else Inl MaxDepth)"
proof (cases "\<exists>d. head_tok v = Delim d")
  case False
  then show ?thesis
    using assms by (cases v) (simp_all add: skipToken_def tail_toks_def)
next
  case True
  then obtain d where d: "head_tok v = Delim d" "d = LBrace \<or> d = LBrack"
    by (cases v) auto
  let ?K = "RBrack"
  show ?thesis
  proof (cases v)
    case (JArr vs)
    have "skip_loop e enc [LBrack] (concat (map toks vs) @ Delim RBrack # rest) =
        (if foldr max (map depth vs) 0 + length [LBrack] + enc \<le> maxMappingValueDepth
         then skip_loop e enc [LBrack] (Delim RBrack # rest) else Inl MaxDepth)"
      by (rule skip_loop_concat) (use assms in \<open>auto simp: skip_loop_toks\<close>)
    then show ?thesis
      using assms JArr by (simp add: skipToken_def tail_toks_def skip_loop_close)
  next
    case (JObj kvs)
    have "skip_loop e enc [LBrace]
          (concat (map (\<lambda>kv. Str (fst kv) # toks (snd kv)) kvs) @ Delim RBrace # rest) =
        (if foldr max (map (\<lambda>kv. depth (snd kv)) kvs) 0 + length [LBrace] + enc
            \<le> maxMappingValueDepth
         then skip_loop e enc [LBrace] (Delim RBrace # rest) else Inl MaxDepth)"
      by (rule skip_loop_concat) (use assms in \<open>auto simp: skip_loop_toks skip_loop_scalar\<close>)
    then show ?thesis
      using assms JObj by (simp add: skipToken_def tail_toks_def skip_loop_close)
  qed (use d in auto)
qed

lemma skipValue_toks:
  assumes "enc < maxMappingValueDepth"
  shows "skipValue e enc (toks v @ rest) =
    (if depth v + enc \<le> maxMappingValueDepth then Inr rest else Inl MaxDepth)"
  using skipToken_toks [OF assms, of e v rest] by (simp add: skipValue_def toks_split)

lemma skip_loop_shrinks: "skip_loop e enc stack ts = Inr ts' \<Longrightarrow> length ts' \<le> length ts"
proof (induction e enc stack ts rule: skip_loop.induct)
  case (1 e enc stack ts)
  show ?case
  proof (cases "stack = []")
    case True
    with "1.prems" show ?thesis by simp
  next
    case False
    then obtain t ts1 where ts: "ts = t # ts1"
      using "1.prems" by (cases ts) (simp_all add: skip_loop.simps [of e enc stack "[]"])
    have tok: "parserToken e ts = Inr (t, ts1)" using ts by simp
    have "length ts' \<le> length ts1"
    proof (cases t)
      case (Delim d)
      note IH = "1.IH"(1) [OF False tok refl Delim] "1.IH"(2) [OF False tok refl Delim]
      have run: "skip_loop e enc stack (Delim d # ts1) = Inr ts'"
        using "1.prems" ts Delim by simp
      show ?thesis
        using IH run False
        by (cases d) (simp_all add: skip_loop_open skip_loop_close split: if_splits)
    qed (use "1.IH"(3-6) [OF False tok refl] "1.prems" False ts in
        \<open>auto simp: skip_loop_scalar\<close>)
    with ts show ?thesis by simp
  qed
qed

lemma skipToken_shrinks: "skipToken e t enc ts = Inr ts' \<Longrightarrow> length ts' \<le> length ts"
  by (auto simp: skipToken_def split: token.splits if_splits dest: skip_loop_shrinks)

lemma skipValue_shrinks: "skipValue e enc ts = Inr ts' \<Longrightarrow> length ts' < length ts"
  by (cases ts) (auto simp: skipValue_def less_Suc_eq_le dest: skipToken_shrinks)

end
