(* ===== verification/Mapping_Parse.thy ===== *)
theory Mapping_Parse
  imports Json_Tokens Mapping_Resolve "HOL-Library.Multiset"
begin

text \<open>
  The streaming parser of the anibridge data set (\<open>internal/mapping/parse.go\<close>): per root key the
  TVDB tid chosen among its targets. The functions below follow the Go functions on the token
  stream of \<open>Json_Tokens\<close>; \<open>Mapping_Reference\<close> states what they compute on a document.
\<close>

section \<open>Episode ranges\<close>

definition sourceRangeCount :: "string \<Rightarrow> int option" where
  "sourceRangeCount srcRange =
     (if srcRange = [] then None
      else (case cut_at (CHR ''-'') srcRange of
              (first, final, hasEnd) \<Rightarrow>
                (case atoi first of
                   None \<Rightarrow> None
                 | Some start \<Rightarrow>
                     if start \<le> 0 then None
                     else if \<not> hasEnd \<or> final = [] then Some 1
                     else (case atoi final of
                             None \<Rightarrow> None
                           | Some stop \<Rightarrow> if stop < start then None else Some (stop - start + 1)))))"

text \<open>The type assertion \<open>t.(string)\<close> on an object key.\<close>

definition token_string :: "token \<Rightarrow> parse_err + string" where
  "token_string t = (case t of Str s \<Rightarrow> Inr s | _ \<Rightarrow> Inl TypePanic)"

definition destination_err :: "token \<Rightarrow> sem_err option \<Rightarrow> sem_err option" where
  "destination_err t sem = (case t of Str _ \<Rightarrow> sem | Null \<Rightarrow> sem | _ \<Rightarrow> Some BadDestination)"

function scan_members ::
    "dec_end \<Rightarrow> (string, unit) gomap \<Rightarrow> sem_err option \<Rightarrow> token list \<Rightarrow>
     parse_err + (string, unit) gomap \<times> sem_err option \<times> token list" where
  "scan_members e ranges sem ts =
     (if \<not> has_more e ts then Inr (ranges, sem, ts)
      else bindE (parserToken e ts) (\<lambda>(k, ts1).
           bindE (token_string k) (\<lambda>key.
           bindE (parserToken e ts1) (\<lambda>(t, ts2).
           bindE (skipToken e t 2 ts2) (\<lambda>ts3.
             scan_members e (mput key () ranges) (destination_err t sem) ts3)))))"
  by pat_completeness auto
termination
  by (relation "measure (\<lambda>(e, ranges, sem, ts). length ts)")
    (auto dest!: parserToken_length skipToken_shrinks)

declare scan_members.simps [simp del]

text \<open>The sum over the distinct ranges, in 64 bits; the context is checked before each.\<close>

fun sum_ranges ::
    "dec_end \<Rightarrow> token list \<Rightarrow> string list \<Rightarrow> int \<Rightarrow> parse_err + (int \<times> sem_err option)" where
  "sum_ranges e ts [] tot = Inr (tot, None)"
| "sum_ranges e ts (r # rs) tot =
     (case ctx_done e ts of
        Some c \<Rightarrow> Inl (Ctx c)
      | None \<Rightarrow>
          (case sourceRangeCount r of
             None \<Rightarrow> Inr (0, Some BadRange)
           | Some n \<Rightarrow> sum_ranges e ts rs (wrap64 (tot + n))))"

definition scanEpisodeRanges ::
    "dec_end \<Rightarrow> token list \<Rightarrow> parse_err + ((int \<times> sem_err option) \<times> token list)" where
  "scanEpisodeRanges e ts =
     bindE (parserToken e ts) (\<lambda>(t, ts1).
       if t = Null then Inr ((0, None), ts1)
       else if t \<noteq> Delim LBrace
       then bindE (skipToken e t 1 ts1) (\<lambda>ts2. Inr ((0, Some BadEpisodes), ts2))
       else bindE (scan_members e [] None ts1) (\<lambda>(ranges, sem, ts2).
            bindE (parserToken e ts2) (\<lambda>(_, ts3).
              if sem \<noteq> None then Inr ((0, sem), ts3)
              else bindE (sum_ranges e ts3 (mkeys ranges) 0) (\<lambda>r. Inr (r, ts3)))))"

lemma scan_members_shrinks:
  "scan_members e ranges sem ts = Inr (r, s, ts') \<Longrightarrow> length ts' \<le> length ts"
proof (induction e ranges sem ts rule: scan_members.induct)
  case (1 e ranges sem ts)
  show ?case
  proof (cases "has_more e ts")
    case False
    with "1.prems" show ?thesis by (simp add: scan_members.simps [of e ranges sem ts])
  next
    case True
    with "1.prems" obtain k ts1 key t ts2 ts3 where
      tok: "parserToken e ts = Inr (k, ts1)" "token_string k = Inr key"
        "parserToken e ts1 = Inr (t, ts2)" "skipToken e t 2 ts2 = Inr ts3"
      and rec: "scan_members e (mput key () ranges) (destination_err t sem) ts3 = Inr (r, s, ts')"
      unfolding scan_members.simps [of e ranges sem ts] by (auto elim!: bindE_InrE)
    have "length ts' \<le> length ts3"
      using "1.IH" [of "(k, ts1)" k ts1 key "(t, ts2)" t ts2 ts3] True tok rec by simp
    with parserToken_length [OF tok(1)] parserToken_length [OF tok(3)] skipToken_shrinks [OF tok(4)]
    show ?thesis by simp
  qed
qed

lemma scanEpisodeRanges_shrinks:
  "scanEpisodeRanges e ts = Inr (r, ts') \<Longrightarrow> length ts' < length ts"
  by (auto simp: scanEpisodeRanges_def elim!: bindE_InrE split: if_splits
      dest!: parserToken_length skipToken_shrinks scan_members_shrinks)

section \<open>Choosing a target\<close>

record target_summary =
  ts_id :: int
  ts_episodes :: int
  ts_isS1 :: bool
  ts_err :: "sem_err option"

text \<open>The descriptor \<open>tvdb_show:<id>:<scope>\<close>: id and scope, when both are there and the id is positive.\<close>

definition descriptor_target :: "string \<Rightarrow> (int \<times> string) option" where
  "descriptor_target descriptor =
     (case cut_at (CHR '':'') (trim_prefix descriptor ''tvdb_show:'') of
        (rawID, scope, found) \<Rightarrow>
          if \<not> has_prefix descriptor ''tvdb_show:'' \<or> \<not> found then None
          else (case atoi rawID of
                  None \<Rightarrow> None
                | Some tid \<Rightarrow> if tid \<le> 0 then None else Some (tid, scope)))"

definition summary :: "int \<Rightarrow> string \<Rightarrow> int \<times> sem_err option \<Rightarrow> target_summary" where
  "summary tid scope counted =
     \<lparr>ts_id = tid, ts_episodes = fst counted, ts_isS1 = (scope = ''s1''), ts_err = snd counted\<rparr>"

function targets_loop ::
    "dec_end \<Rightarrow> (string, target_summary) gomap \<Rightarrow> token list \<Rightarrow>
     parse_err + ((string, target_summary) gomap \<times> token list)" where
  "targets_loop e summaries ts =
     (if \<not> has_more e ts then Inr (summaries, ts)
      else bindE (parserToken e ts) (\<lambda>(k, ts1).
           bindE (token_string k) (\<lambda>descriptor.
             (case descriptor_target descriptor of
                None \<Rightarrow> bindE (skipValue e 1 ts1) (\<lambda>ts2. targets_loop e summaries ts2)
              | Some (tid, scope) \<Rightarrow>
                  bindE (scanEpisodeRanges e ts1) (\<lambda>(counted, ts2).
                    targets_loop e (mput descriptor (summary tid scope counted) summaries) ts2)))))"
  by pat_completeness auto
termination
  by (relation "measure (\<lambda>(e, summaries, ts). length ts)")
    (auto dest!: parserToken_length skipValue_shrinks scanEpisodeRanges_shrinks)

declare targets_loop.simps [simp del]

text \<open>The body of the selection loop over the summaries, then the loop.\<close>

definition pick_step :: "target_summary \<Rightarrow> target_summary \<Rightarrow> target_summary" where
  "pick_step candidate best =
     (if ts_isS1 candidate \<noteq> ts_isS1 best then
        (if ts_isS1 candidate then candidate else best)
      else if ts_episodes best < ts_episodes candidate
           \<or> ts_episodes candidate = ts_episodes best \<and> ts_id candidate < ts_id best
      then candidate else best)"

fun pick_loop ::
    "dec_end \<Rightarrow> token list \<Rightarrow> target_summary list \<Rightarrow> target_summary \<Rightarrow>
     parse_err + target_summary" where
  "pick_loop e ts [] best = Inr best"
| "pick_loop e ts (candidate # cs) best =
     (case ctx_done e ts of
        Some c \<Rightarrow> Inl (Ctx c)
      | None \<Rightarrow>
          (case ts_err candidate of
             Some err \<Rightarrow> Inl (Semantic err)
           | None \<Rightarrow> pick_loop e ts cs (pick_step candidate best)))"

definition no_target :: target_summary where
  "no_target = \<lparr>ts_id = 0, ts_episodes = - 1, ts_isS1 = False, ts_err = None\<rparr>"

definition extractTVDB :: "dec_end \<Rightarrow> token list \<Rightarrow> parse_err + (int option \<times> token list)" where
  "extractTVDB e ts =
     bindE (parserToken e ts) (\<lambda>(t, ts1).
       if t = Null then Inr (None, ts1)
       else if t \<noteq> Delim LBrace then Inl BadTargets
       else bindE (targets_loop e [] ts1) (\<lambda>(summaries, ts2).
            bindE (parserToken e ts2) (\<lambda>(_, ts3).
            bindE (pick_loop e ts3 (map snd summaries) no_target) (\<lambda>best.
              Inr (if 0 < ts_id best then Some (ts_id best) else None, ts3)))))"

lemma targets_loop_shrinks:
  "targets_loop e summaries ts = Inr (s, ts') \<Longrightarrow> length ts' \<le> length ts"
proof (induction e summaries ts rule: targets_loop.induct)
  case (1 e summaries ts)
  show ?case
  proof (cases "has_more e ts")
    case False
    with "1.prems" show ?thesis by (simp add: targets_loop.simps [of e summaries ts])
  next
    case True
    from "1.prems" True obtain k ts1 d where
      k: "parserToken e ts = Inr (k, ts1)" and d: "token_string k = Inr d"
      and rest: "(case descriptor_target d of
                None \<Rightarrow> bindE (skipValue e 1 ts1) (\<lambda>ts2. targets_loop e summaries ts2)
              | Some (tid, scope) \<Rightarrow>
                  bindE (scanEpisodeRanges e ts1) (\<lambda>(counted, ts2).
                    targets_loop e (mput d (summary tid scope counted) summaries) ts2)) = Inr (s, ts')"
      unfolding targets_loop.simps [of e summaries ts]
      by (auto elim!: bindE_InrE)
    show ?thesis
    proof (cases "descriptor_target d")
      case None
      with rest obtain ts2 where "skipValue e 1 ts1 = Inr ts2" "targets_loop e summaries ts2 = Inr (s, ts')"
        by (auto elim!: bindE_InrE)
      then show ?thesis
        using "1.IH"(1) [of "(k, ts1)" k ts1 d ts2] True k d None parserToken_length [OF k]
          skipValue_shrinks [of e 1 ts1 ts2] by simp
    next
      case (Some p)
      then obtain tid scope where p: "descriptor_target d = Some (tid, scope)" by (cases p) auto
      with rest obtain r ts2 where
        scan: "scanEpisodeRanges e ts1 = Inr (r, ts2)" and
        rec: "targets_loop e (mput d (summary tid scope r) summaries) ts2 = Inr (s, ts')"
        by (auto elim!: bindE_InrE)
      then show ?thesis
        using "1.IH"(2) [of "(k, ts1)" k ts1 d "(tid, scope)" tid scope "(r, ts2)" r ts2]
          True k d p parserToken_length [OF k] scanEpisodeRanges_shrinks [OF scan] by simp
    qed
  qed
qed

lemma extractTVDB_shrinks: "extractTVDB e ts = Inr (r, ts') \<Longrightarrow> length ts' < length ts"
  by (auto simp: extractTVDB_def elim!: bindE_InrE split: if_splits
      dest!: parserToken_length targets_loop_shrinks)

section \<open>Data set metadata\<close>

record anibridge_meta =
  SchemaVersion :: string
  GeneratedOn :: string

definition meta_field ::
    "string \<Rightarrow> token \<Rightarrow> anibridge_meta \<times> sem_err option \<Rightarrow> anibridge_meta \<times> sem_err option" where
  "meta_field key t st =
     (let schema = equal_fold key ''schema_version''; generated = equal_fold key ''generated_on''
      in if (schema \<or> generated) \<and> t \<noteq> Null then
           (case t of
              Str v \<Rightarrow> (if schema then (fst st)\<lparr>SchemaVersion := v\<rparr> else (fst st)\<lparr>GeneratedOn := v\<rparr>, snd st)
            | _ \<Rightarrow> (fst st, Some BadMetaField))
         else st)"

function meta_loop ::
    "dec_end \<Rightarrow> anibridge_meta \<times> sem_err option \<Rightarrow> token list \<Rightarrow>
     parse_err + ((anibridge_meta \<times> sem_err option) \<times> token list)" where
  "meta_loop e st ts =
     (if \<not> has_more e ts then Inr (st, ts)
      else bindE (parserToken e ts) (\<lambda>(k, ts1).
           bindE (token_string k) (\<lambda>key.
           bindE (parserToken e ts1) (\<lambda>(t, ts2).
           bindE (skipToken e t 1 ts2) (\<lambda>ts3.
             meta_loop e (meta_field key t st) ts3)))))"
  by pat_completeness auto
termination
  by (relation "measure (\<lambda>(e, st, ts). length ts)")
    (auto dest!: parserToken_length skipToken_shrinks)

declare meta_loop.simps [simp del]

definition parseDatasetMetadata ::
    "dec_end \<Rightarrow> token list \<Rightarrow> parse_err + ((anibridge_meta \<times> sem_err option) \<times> token list)" where
  "parseDatasetMetadata e ts =
     (let meta = \<lparr>SchemaVersion = [], GeneratedOn = []\<rparr> in
      bindE (parserToken e ts) (\<lambda>(t, ts1).
       if t = Null then Inr ((meta, None), ts1)
       else if t \<noteq> Delim LBrace
       then bindE (skipToken e t 0 ts1) (\<lambda>ts2. Inr ((meta, Some BadMetaType), ts2))
       else bindE (meta_loop e (meta, None) ts1) (\<lambda>(st, ts2).
            bindE (parserToken e ts2) (\<lambda>(_, ts3). Inr (st, ts3)))))"

lemma meta_loop_shrinks: "meta_loop e st ts = Inr (st', ts') \<Longrightarrow> length ts' \<le> length ts"
proof (induction e st ts rule: meta_loop.induct)
  case (1 e st ts)
  show ?case
  proof (cases "has_more e ts")
    case False
    with "1.prems" show ?thesis by (simp add: meta_loop.simps [of e st ts])
  next
    case True
    with "1.prems" obtain k ts1 key t ts2 ts3 where
      tok: "parserToken e ts = Inr (k, ts1)" "token_string k = Inr key"
        "parserToken e ts1 = Inr (t, ts2)" "skipToken e t 1 ts2 = Inr ts3"
      and rec: "meta_loop e (meta_field key t st) ts3 = Inr (st', ts')"
      unfolding meta_loop.simps [of e st ts] by (auto elim!: bindE_InrE)
    have "length ts' \<le> length ts3"
      using "1.IH" [of "(k, ts1)" k ts1 key "(t, ts2)" t ts2 ts3] True tok rec by simp
    with parserToken_length [OF tok(1)] parserToken_length [OF tok(3)] skipToken_shrinks [OF tok(4)]
    show ?thesis by simp
  qed
qed

lemma parseDatasetMetadata_shrinks:
  "parseDatasetMetadata e ts = Inr (r, ts') \<Longrightarrow> length ts' < length ts"
  by (auto simp: parseDatasetMetadata_def Let_def elim!: bindE_InrE split: if_splits
      dest!: parserToken_length skipToken_shrinks meta_loop_shrinks)

section \<open>The root object\<close>

datatype id_space = MalSpace | AniListSpace

text \<open>The two recognised key prefixes, and the id after one.\<close>

definition key_space :: "string \<Rightarrow> (id_space \<times> string) option" where
  "key_space key =
     (case cut_prefix key ''mal:'' of
        Some rest \<Rightarrow> Some (MalSpace, rest)
      | None \<Rightarrow>
          (case cut_prefix key ''anilist:'' of
             Some rest \<Rightarrow> Some (AniListSpace, rest)
           | None \<Rightarrow> None))"

definition put_target :: "id_space \<Rightarrow> int \<Rightarrow> int option \<Rightarrow> anibridge_mapping \<Rightarrow> anibridge_mapping" where
  "put_target space i tvdb m =
     (case tvdb of
        None \<Rightarrow> m
      | Some t \<Rightarrow> (case space of
           MalSpace \<Rightarrow> m\<lparr>byMAL := mput i t (byMAL m)\<rparr>
         | AniListSpace \<Rightarrow> m\<lparr>byAniList := mput i t (byAniList m)\<rparr>))"

text \<open>The value after a root key: extracted, read as metadata, or skipped.\<close>

definition root_member ::
    "dec_end \<Rightarrow> string \<Rightarrow> anibridge_mapping \<Rightarrow> token list \<Rightarrow>
     parse_err + (anibridge_mapping \<times> token list)" where
  "root_member e key m ts =
     (case key_space key of
        Some (space, rawID) \<Rightarrow>
          (case atoi rawID of
             Some i \<Rightarrow>
               if 0 < i then bindE (extractTVDB e ts) (\<lambda>(tvdb, ts2). Inr (put_target space i tvdb m, ts2))
               else bindE (skipValue e 0 ts) (\<lambda>ts2. Inr (m, ts2))
           | None \<Rightarrow> bindE (skipValue e 0 ts) (\<lambda>ts2. Inr (m, ts2)))
      | None \<Rightarrow>
          if key = ''$meta'' then bindE (parseDatasetMetadata e ts) (\<lambda>(_, ts2). Inr (m, ts2))
          else bindE (skipValue e 0 ts) (\<lambda>ts2. Inr (m, ts2)))"

lemma root_member_shrinks: "root_member e key m ts = Inr (m', ts') \<Longrightarrow> length ts' < length ts"
  by (auto simp: root_member_def elim!: bindE_InrE split: option.splits if_splits
      dest!: extractTVDB_shrinks skipValue_shrinks parseDatasetMetadata_shrinks)

function root_loop ::
    "dec_end \<Rightarrow> anibridge_mapping \<Rightarrow> token list \<Rightarrow> parse_err + (anibridge_mapping \<times> token list)" where
  "root_loop e m ts =
     (if \<not> has_more e ts then Inr (m, ts)
      else (case ctx_done e ts of
              Some c \<Rightarrow> Inl (Ctx c)
            | None \<Rightarrow>
                bindE (parserToken e ts) (\<lambda>(t, ts1).
                  (case t of
                     Str key \<Rightarrow> bindE (root_member e key m ts1) (\<lambda>(m', ts2). root_loop e m' ts2)
                   | _ \<Rightarrow> Inl KeyNotString))))"
  by pat_completeness auto
termination
  by (relation "measure (\<lambda>(e, m, ts). length ts)")
    (auto dest!: parserToken_length root_member_shrinks)

declare root_loop.simps [simp del]

definition parseAnibridgeJSON :: "dec_end \<Rightarrow> token list \<Rightarrow> parse_err + anibridge_mapping" where
  "parseAnibridgeJSON e ts =
     bindE (parserToken e ts) (\<lambda>(t, ts1).
       if t \<noteq> Delim LBrace then Inl NotObject
       else bindE (root_loop e (NewAnibridgeMapping [] []) ts1) (\<lambda>(m, ts2).
            bindE (parserToken e ts2) (\<lambda>_. Inr m)))"

end
