(* ===== verification/Mapping_Reference.thy ===== *)
theory Mapping_Reference
  imports Mapping_Parse
begin

text \<open>
  What the parser of \<open>Mapping_Parse\<close> computes, stated on JSON documents instead of token streams:
  the meaning of a target list, of a root member and of the whole document, and the lemmas that the
  streaming functions compute exactly that and stop right after the value they read. The parser's
  own file calls the frozen parser it is compared with the reference; this theory plays that part.
\<close>

section \<open>The meaning of a document\<close>

definition good_destination :: "json \<Rightarrow> bool" where
  "good_destination v = (case v of JStr _ \<Rightarrow> True | JNull \<Rightarrow> True | _ \<Rightarrow> False)"

text \<open>Episodes of a target: the 64-bit sum over its distinct ranges, or the semantic error.\<close>

definition counted :: "json \<Rightarrow> int \<times> sem_err option" where
  "counted v =
     (case v of
        JNull \<Rightarrow> (0, None)
      | JObj kvs \<Rightarrow>
          if \<exists>kv \<in> set kvs. \<not> good_destination (snd kv) then (0, Some BadDestination)
          else if \<exists>kv \<in> set kvs. sourceRangeCount (fst kv) = None then (0, Some BadRange)
          else (wrap64 (\<Sum>r \<in> fst ` set kvs. the (sourceRangeCount r)), None)
      | _ \<Rightarrow> (0, Some BadEpisodes))"

definition add_target ::
    "string \<times> json \<Rightarrow> (string, target_summary) gomap \<Rightarrow> (string, target_summary) gomap" where
  "add_target kv S =
     (case descriptor_target (fst kv) of
        None \<Rightarrow> S
      | Some (tid, scope) \<Rightarrow> mput (fst kv) (summary tid scope (counted (snd kv))) S)"

lemma add_target_None: "descriptor_target (fst kv) = None \<Longrightarrow> add_target kv S = S"
  by (simp add: add_target_def)

lemma add_target_Some:
  "descriptor_target (fst kv) = Some (tid, scope) \<Longrightarrow>
    add_target kv S = mput (fst kv) (summary tid scope (counted (snd kv))) S"
  by (simp add: add_target_def)

definition candidates :: "(string \<times> json) list \<Rightarrow> target_summary list" where
  "candidates kvs = map snd (fold add_target kvs [])"

text \<open>The chosen TVDB id of a root value: an error, none, or an id.\<close>

definition chosen :: "json \<Rightarrow> int option option" where
  "chosen v =
     (case v of
        JNull \<Rightarrow> Some None
      | JObj kvs \<Rightarrow>
          if list_ex (\<lambda>c. ts_err c \<noteq> None) (candidates kvs) then None
          else (let best = fold pick_step (candidates kvs) no_target
                in Some (if 0 < ts_id best then Some (ts_id best) else None))
      | _ \<Rightarrow> None)"

definition entry_of :: "string \<Rightarrow> (id_space \<times> int) option" where
  "entry_of key =
     (case key_space key of
        None \<Rightarrow> None
      | Some (space, rawID) \<Rightarrow>
          (case atoi rawID of
             None \<Rightarrow> None
           | Some i \<Rightarrow> if 0 < i then Some (space, i) else None))"

fun ref_members :: "(string \<times> json) list \<Rightarrow> anibridge_mapping \<Rightarrow> anibridge_mapping option" where
  "ref_members [] m = Some m"
| "ref_members (kv # kvs) m =
     (case entry_of (fst kv) of
        None \<Rightarrow> ref_members kvs m
      | Some (space, i) \<Rightarrow>
          (case chosen (snd kv) of
             None \<Rightarrow> None
           | Some tvdb \<Rightarrow> ref_members kvs (put_target space i tvdb m)))"

definition ref_parse :: "json \<Rightarrow> anibridge_mapping option" where
  "ref_parse doc =
     (case doc of JObj kvs \<Rightarrow> ref_members kvs (NewAnibridgeMapping [] []) | _ \<Rightarrow> None)"

section \<open>Episode scanning\<close>

lemma parserToken_toks [simp]: "parserToken e (toks v @ rest) = Inr (head_tok v, tail_toks v @ rest)"
  by (simp add: toks_split)

lemma token_string_Str [simp]: "token_string (Str s) = Inr s"
  by (simp add: token_string_def)

text \<open>A loop has met the closing brace of its object.\<close>

lemma loops_at_close [simp]:
  "scan_members e R sem (Delim RBrace # rest) = Inr (R, sem, Delim RBrace # rest)"
  "targets_loop e S (Delim RBrace # rest) = Inr (S, Delim RBrace # rest)"
  "meta_loop e st (Delim RBrace # rest) = Inr (st, Delim RBrace # rest)"
  "root_loop e m (Delim RBrace # rest) = Inr (m, Delim RBrace # rest)"
  by (subst scan_members.simps targets_loop.simps meta_loop.simps root_loop.simps, simp)+

lemma scan_members_toks:
  assumes "members_depth kvs + 2 \<le> maxMappingValueDepth"
  shows "scan_members e R sem (member_toks kvs @ Delim RBrace # rest) =
    Inr (fold (\<lambda>kv. mput (fst kv) ()) kvs R,
         fold (\<lambda>kv. destination_err (head_tok (snd kv))) kvs sem, Delim RBrace # rest)"
  using assms
proof (induction kvs arbitrary: R sem)
  case Nil
  then show ?case by simp
next
  case (Cons kv kvs)
  have "2 < maxMappingValueDepth" by (simp add: maxMappingValueDepth_def)
  with Cons show ?case
    by (subst scan_members.simps) (simp add: skipToken_toks)
qed

lemma fold_destination_err:
  "fold (\<lambda>kv. destination_err (head_tok (snd kv))) kvs sem =
    (if \<exists>kv \<in> set kvs. \<not> good_destination (snd kv) then Some BadDestination else sem)"
proof (induction kvs arbitrary: sem)
  case Nil
  then show ?case by simp
next
  case (Cons kv kvs)
  have "destination_err (head_tok v) s = (if good_destination v then s else Some BadDestination)" for v s
    by (cases v) (simp_all add: destination_err_def good_destination_def)
  with Cons show ?case by auto
qed

lemma sum_ranges_eq:
  assumes "ts \<noteq> []" "in_int64 tot"
  shows "sum_ranges e ts rs tot =
    Inr (if \<exists>r \<in> set rs. sourceRangeCount r = None then (0, Some BadRange)
         else (wrap64 (tot + (\<Sum>r \<leftarrow> rs. the (sourceRangeCount r))), None))"
  using assms(2)
proof (induction rs arbitrary: tot)
  case Nil
  then show ?case by (simp add: wrap64_id)
next
  case (Cons r rs)
  obtain t ts' where "ts = t # ts'" using assms(1) by (cases ts) auto
  with Cons show ?case
    by (auto simp: wrap64_wrap_add add.assoc split: option.splits)
qed

lemma range_keys:
  "mwf (fold (\<lambda>kv. mput (fst kv) ()) kvs [])
    \<and> set (mkeys (fold (\<lambda>kv. mput (fst kv) ()) kvs [])) = fst ` set kvs"
proof -
  have "mwf R \<Longrightarrow> mwf (fold (\<lambda>kv. mput (fst kv) ()) kvs R)
    \<and> set (mkeys (fold (\<lambda>kv. mput (fst kv) ()) kvs R)) = set (mkeys R) \<union> fst ` set kvs" for R
    by (induction kvs arbitrary: R) (auto simp: gm.ok_put gm.keys_get)
  from this [OF gm.ok_emp] show ?thesis by (simp add: mkeys_def)
qed

lemma scanEpisodeRanges_toks:
  assumes "depth v + 1 \<le> maxMappingValueDepth" "rest \<noteq> []"
  shows "scanEpisodeRanges e (toks v @ rest) = Inr (counted v, rest)"
proof (cases "\<exists>kvs. v = JObj kvs")
  case False
  have "1 < maxMappingValueDepth" by (simp add: maxMappingValueDepth_def)
  with False assms show ?thesis
    using skipToken_toks [of 1 e v rest]
    by (cases v) (simp_all add: scanEpisodeRanges_def counted_def tail_toks_def)
next
  case True
  then obtain kvs where v: "v = JObj kvs" ..
  let ?R = "fold (\<lambda>kv. mput (fst kv) ()) kvs ([] :: (string, unit) gomap)"
  have scan: "scan_members e [] None (member_toks kvs @ Delim RBrace # rest) =
      Inr (?R, fold (\<lambda>kv. destination_err (head_tok (snd kv))) kvs None, Delim RBrace # rest)"
    by (rule scan_members_toks) (use assms(1) v in \<open>simp add: depth_JObj del: depth.simps\<close>)
  have keys: "distinct (mkeys ?R)" "set (mkeys ?R) = fst ` set kvs"
    using range_keys [of kvs] gm.keys_distinct by auto
  have sum: "(\<Sum>r \<leftarrow> mkeys ?R. the (sourceRangeCount r)) = (\<Sum>r \<in> fst ` set kvs. the (sourceRangeCount r))"
    using keys by (metis sum.distinct_set_conv_list)
  have zero: "in_int64 0" by (simp add: in_int64_def min_int64_def max_int64_def)
  show ?thesis
    using scan sum keys(2) assms(2)
    unfolding v scanEpisodeRanges_def toks_JObj
    by (simp add: fold_destination_err sum_ranges_eq [OF assms(2) zero] counted_def) force
qed

section \<open>Target selection\<close>

lemma targets_loop_toks:
  assumes "members_depth kvs + 1 \<le> maxMappingValueDepth"
  shows "targets_loop e S (member_toks kvs @ Delim RBrace # rest) =
    Inr (fold add_target kvs S, Delim RBrace # rest)"
  using assms
proof (induction kvs arbitrary: S)
  case Nil
  then show ?case by simp
next
  case (Cons kv kvs)
  have "1 < maxMappingValueDepth" by (simp add: maxMappingValueDepth_def)
  with Cons show ?case
    by (subst targets_loop.simps)
      (auto simp: skipValue_toks scanEpisodeRanges_toks add_target_None add_target_Some split: option.splits)
qed

lemma pick_loop_eq:
  assumes "ts \<noteq> []"
  shows "pick_loop e ts cs best =
    (case find (\<lambda>c. ts_err c \<noteq> None) cs of
       Some c \<Rightarrow> Inl (Semantic (the (ts_err c)))
     | None \<Rightarrow> Inr (fold pick_step cs best))"
proof -
  obtain t ts' where "ts = t # ts'" using assms by (cases ts) auto
  then show ?thesis by (induction cs arbitrary: best) (auto split: option.splits)
qed

lemma find_None_list_ex: "find P xs = None \<longleftrightarrow> \<not> list_ex P xs"
  by (induction xs) auto

lemma extractTVDB_toks:
  assumes "depth v \<le> maxMappingValueDepth" "rest \<noteq> []"
  shows "extractTVDB e (toks v @ rest) = Inr (tvdb, ts') \<longleftrightarrow> chosen v = Some tvdb \<and> ts' = rest"
proof (cases "\<exists>kvs. v = JObj kvs")
  case False
  then show ?thesis
    by (cases v) (auto simp: extractTVDB_def chosen_def tail_toks_def)
next
  case True
  then obtain kvs where v: "v = JObj kvs" ..
  have loop: "targets_loop e [] (member_toks kvs @ Delim RBrace # rest) =
      Inr (fold add_target kvs [], Delim RBrace # rest)"
    by (rule targets_loop_toks) (use assms(1) v in \<open>simp add: depth_JObj del: depth.simps\<close>)
  show ?thesis
  proof (cases "find (\<lambda>c. ts_err c \<noteq> None) (candidates kvs)")
    case None
    then have "\<not> list_ex (\<lambda>c. ts_err c \<noteq> None) (candidates kvs)"
      by (simp add: find_None_list_ex)
    with None loop show ?thesis
      unfolding v extractTVDB_def toks_JObj
      by (auto simp: pick_loop_eq [OF assms(2)] chosen_def Let_def candidates_def)
  next
    case (Some c)
    then have "list_ex (\<lambda>c. ts_err c \<noteq> None) (candidates kvs)"
      by (metis find_None_list_ex option.discI)
    with Some loop show ?thesis
      unfolding v extractTVDB_def toks_JObj
      by (auto simp: pick_loop_eq [OF assms(2)] chosen_def candidates_def)
  qed
qed

section \<open>Metadata and the root object\<close>

lemma meta_loop_toks:
  assumes "members_depth kvs + 1 \<le> maxMappingValueDepth"
  shows "\<exists>st'. meta_loop e st (member_toks kvs @ Delim RBrace # rest) = Inr (st', Delim RBrace # rest)"
  using assms
proof (induction kvs arbitrary: st)
  case Nil
  then show ?case by simp
next
  case (Cons kv kvs)
  have "1 < maxMappingValueDepth" by (simp add: maxMappingValueDepth_def)
  with Cons.prems show ?case
    using Cons.IH [of "meta_field (fst kv) (head_tok (snd kv)) st"]
    by (subst meta_loop.simps) (simp add: skipToken_toks)
qed

lemma parseDatasetMetadata_toks:
  assumes "depth v \<le> maxMappingValueDepth"
  shows "\<exists>r. parseDatasetMetadata e (toks v @ rest) = Inr (r, rest)"
proof (cases "\<exists>kvs. v = JObj kvs")
  case False
  have "0 < maxMappingValueDepth" by (simp add: maxMappingValueDepth_def)
  with False assms show ?thesis
    using skipToken_toks [of 0 e v rest]
    by (cases v) (simp_all add: parseDatasetMetadata_def Let_def tail_toks_def)
next
  case True
  then obtain kvs where v: "v = JObj kvs" ..
  let ?st = "(\<lparr>SchemaVersion = [], GeneratedOn = []\<rparr>, None)"
  have "members_depth kvs + 1 \<le> maxMappingValueDepth"
    using assms v by (simp add: depth_JObj del: depth.simps)
  from meta_loop_toks [OF this, of e ?st rest] obtain st' where
    "meta_loop e ?st (member_toks kvs @ Delim RBrace # rest) = Inr (st', Delim RBrace # rest)" ..
  then show ?thesis
    unfolding v parseDatasetMetadata_def toks_JObj Let_def by simp
qed

lemma root_member_toks:
  assumes "depth v \<le> maxMappingValueDepth" "rest \<noteq> []"
  shows "root_member e key m (toks v @ rest) = Inr (m', ts') \<longleftrightarrow>
    ts' = rest \<and>
    (case entry_of key of
       None \<Rightarrow> m' = m
     | Some (space, i) \<Rightarrow> (\<exists>tvdb. chosen v = Some tvdb \<and> m' = put_target space i tvdb m))"
proof -
  have "0 < maxMappingValueDepth" by (simp add: maxMappingValueDepth_def)
  then have skip: "skipValue e 0 (toks v @ rest) = Inr rest"
    using assms(1) by (simp add: skipValue_toks)
  obtain r where meta: "parseDatasetMetadata e (toks v @ rest) = Inr (r, rest)"
    using parseDatasetMetadata_toks [OF assms(1)] by blast
  show ?thesis
    using skip meta
    by (auto simp: root_member_def entry_of_def bindE_Inr_iff extractTVDB_toks [OF assms]
        split: option.splits)
qed

lemma root_loop_toks:
  assumes "members_depth kvs \<le> maxMappingValueDepth"
  shows "root_loop e m (member_toks kvs @ Delim RBrace # rest) = Inr (m', ts') \<longleftrightarrow>
    ref_members kvs m = Some m' \<and> ts' = Delim RBrace # rest"
  using assms
proof (induction kvs arbitrary: m)
  case Nil
  then show ?case by auto
next
  case (Cons kv kvs)
  let ?rest = "member_toks kvs @ Delim RBrace # rest"
  have "root_loop e m (member_toks (kv # kvs) @ Delim RBrace # rest) = Inr (m', ts') \<longleftrightarrow>
      (\<exists>m1 ts1. root_member e (fst kv) m (toks (snd kv) @ ?rest) = Inr (m1, ts1)
        \<and> root_loop e m1 ts1 = Inr (m', ts'))"
    by (subst root_loop.simps) (simp add: bindE_Inr_iff)
  then show ?case
    using Cons root_member_toks [of "snd kv" ?rest e "fst kv" m]
    by (auto split: option.splits)
qed

lemma parse_toks:
  assumes "depth doc \<le> Suc maxMappingValueDepth"
  shows "parseAnibridgeJSON e (toks doc @ rest) = Inr m \<longleftrightarrow> ref_parse doc = Some m"
proof (cases "\<exists>kvs. doc = JObj kvs")
  case False
  then show ?thesis
    by (cases doc) (auto simp: parseAnibridgeJSON_def ref_parse_def)
next
  case True
  then obtain kvs where doc: "doc = JObj kvs" ..
  have "members_depth kvs \<le> maxMappingValueDepth"
    using assms doc by (simp add: depth_JObj del: depth.simps)
  note loop = root_loop_toks [OF this, of e "NewAnibridgeMapping [] []" rest]
  show ?thesis
    unfolding doc parseAnibridgeJSON_def toks_JObj
    by (auto simp: bindE_Inr_iff loop ref_parse_def)
qed

section \<open>The choice among the targets is a maximum\<close>

text \<open>
  \<open>prefers b c\<close>: season 1 targets before others, then more episodes, then the smaller id. Go visits
  the summaries in an unspecified order, so the choice must not depend on it.
\<close>

definition prefers :: "target_summary \<Rightarrow> target_summary \<Rightarrow> bool" where
  "prefers b c \<longleftrightarrow>
     (ts_isS1 b \<and> \<not> ts_isS1 c) \<or>
     (ts_isS1 b = ts_isS1 c \<and>
       (ts_episodes c < ts_episodes b \<or> (ts_episodes c = ts_episodes b \<and> ts_id b \<le> ts_id c)))"

lemma prefers_refl: "prefers c c"
  by (simp add: prefers_def)

lemma prefers_trans: "prefers a b \<Longrightarrow> prefers b c \<Longrightarrow> prefers a c"
  by (auto simp: prefers_def)

lemma prefers_antisym: "prefers a b \<Longrightarrow> prefers b a \<Longrightarrow> ts_err a = ts_err b \<Longrightarrow> a = b"
  by (cases a; cases b) (auto simp: prefers_def)

lemma pick_step_max: "pick_step c b \<in> {c, b} \<and> prefers (pick_step c b) c \<and> prefers (pick_step c b) b"
  by (simp add: pick_step_def prefers_def linorder_not_less) linarith

lemma fold_pick_step_max:
  "fold pick_step cs b \<in> insert b (set cs) \<and> (\<forall>c \<in> insert b (set cs). prefers (fold pick_step cs b) c)"
proof (induction cs arbitrary: b)
  case Nil
  then show ?case by (simp add: prefers_refl)
next
  case (Cons c cs)
  let ?r = "fold pick_step cs (pick_step c b)"
  have r: "?r \<in> insert (pick_step c b) (set cs)" "prefers ?r (pick_step c b)"
    "\<And>x. x \<in> set cs \<Longrightarrow> prefers ?r x"
    using Cons [of "pick_step c b"] by auto
  have "prefers ?r c" "prefers ?r b"
    using r(2) pick_step_max [of c b] by (auto intro: prefers_trans)
  with r pick_step_max [of c b] show ?case by auto
qed

text \<open>
  Claim C22. Whatever order Go visits the target summaries in, the loop of extractTVDB fails exactly
  when some target has a semantic error, and otherwise returns the one maximum of the targets:
  season 1 first, then most episodes, then smallest TVDB id (or nothing when no target beats the
  initial summary).
\<close>

theorem pick_loop_maximum:
  assumes "mset cs = mset (candidates kvs)" "ts \<noteq> []"
  shows "pick_loop e ts cs no_target = Inr best \<longleftrightarrow>
    (\<forall>c \<in> set (candidates kvs). ts_err c = None)
    \<and> best \<in> insert no_target (set (candidates kvs))
    \<and> (\<forall>c \<in> insert no_target (set (candidates kvs)). prefers best c)"
proof -
  have cs: "set cs = set (candidates kvs)" using assms(1) by (rule mset_eq_setD)
  show ?thesis
  proof (cases "\<forall>c \<in> set cs. ts_err c = None")
    case True
    let ?b = "fold pick_step cs no_target"
    have "find (\<lambda>c. ts_err c \<noteq> None) cs = None" using True by (simp add: find_None_iff)
    then have loop: "pick_loop e ts cs no_target = Inr ?b"
      by (simp add: pick_loop_eq [OF assms(2)])
    have err: "ts_err c = None" if "c \<in> insert no_target (set cs)" for c
      using that True by (auto simp: no_target_def)
    note max = fold_pick_step_max [of cs no_target]
    show ?thesis
    proof
      assume "pick_loop e ts cs no_target = Inr best"
      with loop max True cs show "(\<forall>c \<in> set (candidates kvs). ts_err c = None)
        \<and> best \<in> insert no_target (set (candidates kvs))
        \<and> (\<forall>c \<in> insert no_target (set (candidates kvs)). prefers best c)" by simp
    next
      assume b: "(\<forall>c \<in> set (candidates kvs). ts_err c = None)
        \<and> best \<in> insert no_target (set (candidates kvs))
        \<and> (\<forall>c \<in> insert no_target (set (candidates kvs)). prefers best c)"
      then have "prefers best ?b" "prefers ?b best" "ts_err best = ts_err ?b"
        using max cs err by auto
      from prefers_antisym [OF this] loop show "pick_loop e ts cs no_target = Inr best" by simp
    qed
  next
    case False
    then have "find (\<lambda>c. ts_err c \<noteq> None) cs \<noteq> None" by (auto simp: find_None_iff)
    with False cs show ?thesis by (auto simp: pick_loop_eq [OF assms(2)])
  qed
qed

lemma pick_loop_maximum_witness:
  "pick_loop EndEOF [Delim RBrace]
     (rev (candidates [(''tvdb_show:7:s0'', JNull), (''tvdb_show:5:s1'', JNull)])) no_target
   = Inr \<lparr>ts_id = 5, ts_episodes = 0, ts_isS1 = True, ts_err = None\<rparr>"
  by (subst pick_loop_maximum [of _ "[(''tvdb_show:7:s0'', JNull), (''tvdb_show:5:s1'', JNull)]"],
      simp, simp) code_simp

section \<open>What the parsed mapping answers\<close>

text \<open>The targets a document gives an id, in the order of its members; the last one counts.\<close>

definition targets_of :: "id_space \<Rightarrow> int \<Rightarrow> (string \<times> json) list \<Rightarrow> int list" where
  "targets_of space i kvs =
     concat (map (\<lambda>kv. if entry_of (fst kv) = Some (space, i)
                       then (case chosen (snd kv) of Some (Some t) \<Rightarrow> [t] | _ \<Rightarrow> [])
                       else []) kvs)"

definition last_target :: "id_space \<Rightarrow> int \<Rightarrow> (string \<times> json) list \<Rightarrow> int option" where
  "last_target space i kvs =
     (if targets_of space i kvs = [] then None else Some (last (targets_of space i kvs)))"

definition targets_readable :: "(string \<times> json) list \<Rightarrow> bool" where
  "targets_readable kvs \<longleftrightarrow> (\<forall>kv \<in> set kvs. entry_of (fst kv) \<noteq> None \<longrightarrow> chosen (snd kv) \<noteq> None)"

definition lookup_in :: "id_space \<Rightarrow> anibridge_mapping \<Rightarrow> int \<Rightarrow> int option" where
  "lookup_in space m i = (case space of MalSpace \<Rightarrow> LookupByMAL m i | AniListSpace \<Rightarrow> LookupByAniList m i)"

lemma lookup_in_put_target:
  "lookup_in space (put_target space' j tvdb m) i =
    (case tvdb of
       Some t \<Rightarrow> if space = space' \<and> i = j then Some t else lookup_in space m i
     | None \<Rightarrow> lookup_in space m i)"
  by (cases space; cases space')
    (auto simp: lookup_in_def put_target_def LookupByMAL_def LookupByAniList_def split: option.splits)

lemma mapping_wf_put_target: "mapping_wf m \<Longrightarrow> mapping_wf (put_target space j tvdb m)"
  by (auto simp: mapping_wf_def put_target_def gm.ok_put split: option.splits id_space.splits)

lemma ref_members_lookup:
  "ref_members kvs m = Some m' \<Longrightarrow>
    lookup_in space m' i =
      (if targets_of space i kvs = [] then lookup_in space m i else Some (last (targets_of space i kvs)))"
proof (induction kvs arbitrary: m)
  case Nil
  then show ?case by (simp add: targets_of_def)
next
  case (Cons kv kvs)
  show ?case
  proof (cases "entry_of (fst kv)")
    case None
    with Cons show ?thesis by (simp add: targets_of_def)
  next
    case (Some p)
    obtain sp j where p: "p = (sp, j)" by (cases p)
    with Some Cons.prems obtain tvdb where tvdb: "chosen (snd kv) = Some tvdb"
      "ref_members kvs (put_target sp j tvdb m) = Some m'" by (auto split: option.splits)
    have here: "targets_of space i (kv # kvs) =
        (if sp = space \<and> j = i then (case tvdb of Some t \<Rightarrow> [t] | None \<Rightarrow> []) else []) @ targets_of space i kvs"
      using Some p tvdb(1) by (simp add: targets_of_def)
    show ?thesis
      using Cons.IH [OF tvdb(2)] by (cases tvdb) (simp_all add: here lookup_in_put_target)
  qed
qed

lemma ref_members_wf: "mapping_wf m \<Longrightarrow> ref_members kvs m = Some m' \<Longrightarrow> mapping_wf m'"
proof (induction kvs arbitrary: m)
  case (Cons kv kvs)
  from Cons.prems(2) show ?case
    by (auto split: option.splits intro: Cons.IH [OF Cons.prems(1)]
        Cons.IH [OF mapping_wf_put_target [OF Cons.prems(1)]])
qed simp

lemma ref_members_defined: "(\<exists>m'. ref_members kvs m = Some m') \<longleftrightarrow> targets_readable kvs"
  by (induction kvs arbitrary: m) (auto simp: targets_readable_def split: option.splits)

text \<open>
  On the tokens of an object whose nesting is within the limit, followed by anything, the
  streaming parser succeeds exactly when every recognised member has readable targets, and the
  mapping it returns answers a MAL or AniList id with the TVDB id chosen in the last member that
  names the id and has a target.
\<close>

lemma parseAnibridgeJSON_lookups:
  assumes "depth (JObj kvs) \<le> Suc maxMappingValueDepth"
  shows "if targets_readable kvs
    then \<exists>m. parseAnibridgeJSON e (toks (JObj kvs) @ rest) = Inr m \<and> mapping_wf m
      \<and> (\<forall>i. LookupByMAL m i = last_target MalSpace i kvs)
      \<and> (\<forall>i. LookupByAniList m i = last_target AniListSpace i kvs)
    else \<exists>err. parseAnibridgeJSON e (toks (JObj kvs) @ rest) = Inl err"
proof (cases "targets_readable kvs")
  case True
  let ?m0 = "NewAnibridgeMapping [] []"
  obtain m where m: "ref_members kvs ?m0 = Some m"
    using True ref_members_defined by blast
  then have "parseAnibridgeJSON e (toks (JObj kvs) @ rest) = Inr m"
    by (simp add: parse_toks [OF assms] ref_parse_def del: toks.simps)
  moreover have "mapping_wf m"
    using m by (rule ref_members_wf [rotated]) (simp add: mapping_wf_def NewAnibridgeMapping_def gm.ok_emp)
  moreover have "lookup_in space m i = last_target space i kvs" for space i
    using ref_members_lookup [OF m, of space i]
    by (cases space) (simp_all add: last_target_def lookup_in_def LookupByMAL_def LookupByAniList_def
        NewAnibridgeMapping_def)
  from this [of MalSpace] this [of AniListSpace]
  have "\<forall>i. LookupByMAL m i = last_target MalSpace i kvs"
    "\<forall>i. LookupByAniList m i = last_target AniListSpace i kvs"
    by (simp_all add: lookup_in_def)
  ultimately show ?thesis using True by auto
next
  case False
  then have "\<nexists>m. ref_members kvs (NewAnibridgeMapping [] []) = Some m"
    using ref_members_defined by blast
  then have "\<nexists>m. parseAnibridgeJSON e (toks (JObj kvs) @ rest) = Inr m"
    by (simp add: parse_toks [OF assms] ref_parse_def del: toks.simps)
  with False show ?thesis
    by (cases "parseAnibridgeJSON e (toks (JObj kvs) @ rest)") auto
qed

lemma parseAnibridgeJSON_lookups_witness:
  "\<exists>m. parseAnibridgeJSON EndEOF (toks (JObj [(''mal:1'', JObj [(''tvdb_show:9:s1'', JNull)])]) @ []) = Inr m
    \<and> LookupByMAL m 1 = Some 9 \<and> LookupByAniList m 1 = None"
proof -
  let ?kvs = "[(''mal:1'', JObj [(''tvdb_show:9:s1'', JNull)])]"
  have "depth (JObj ?kvs) \<le> Suc maxMappingValueDepth" by (simp add: maxMappingValueDepth_def)
  note all = parseAnibridgeJSON_lookups [OF this, of EndEOF "[]"]
  have ready: "targets_readable ?kvs" by code_simp
  have last: "last_target MalSpace 1 ?kvs = Some 9" "last_target AniListSpace 1 ?kvs = None" by code_simp+
  from all ready obtain m where "parseAnibridgeJSON EndEOF (toks (JObj ?kvs) @ []) = Inr m"
    "\<forall>i. LookupByMAL m i = last_target MalSpace i ?kvs"
    "\<forall>i. LookupByAniList m i = last_target AniListSpace i ?kvs"
    by (auto simp del: toks.simps)
  with last show ?thesis by (metis (no_types, lifting))
qed

section \<open>Broken streams\<close>

text \<open>
  A routine that returned and left tokens unread does not look at what follows those tokens:
  its result is stable when the stream is continued.
\<close>

lemma skip_loop_extend:
  "skip_loop e enc stack ts = Inr ts' \<Longrightarrow> skip_loop e' enc stack (ts @ ext) = Inr (ts' @ ext)"
proof (induction e enc stack ts rule: skip_loop.induct)
  case (1 e enc stack ts)
  show ?case
  proof (cases "stack = [] \<or> ts = []")
    case True
    with "1.prems" show ?thesis by (auto simp: skip_loop.simps [of _ enc stack])
  next
    case False
    then obtain t ts1 where ts: "ts = t # ts1" by (cases ts) auto
    show ?thesis
      using False "1.prems" "1.IH" [of "(t, ts1)" t ts1]
      by (auto simp: ts skip_loop.simps [of _ enc stack] split: token.splits if_splits)
  qed
qed

lemma skipToken_extend:
  "skipToken e t enc ts = Inr ts' \<Longrightarrow> skipToken e' t enc (ts @ ext) = Inr (ts' @ ext)"
  by (auto simp: skipToken_def skip_loop_extend split: token.splits if_splits)

lemma parserToken_extend: "parserToken e ts = Inr (t, ts') \<Longrightarrow> parserToken e' (ts @ ext) = Inr (t, ts' @ ext)"
  by (cases ts) auto

lemma skipValue_extend: "skipValue e enc ts = Inr ts' \<Longrightarrow> skipValue e' enc (ts @ ext) = Inr (ts' @ ext)"
  by (auto simp: skipValue_def parserToken_extend skipToken_extend split: sum.splits)

lemma has_more_append: "ts \<noteq> [] \<Longrightarrow> has_more e' (ts @ ext) = has_more e ts"
  by (cases ts) auto

text \<open>The four loops share the shape of the argument: stop at the same bracket, or step and recurse.\<close>

lemma scan_members_extend:
  "scan_members e R sem ts = Inr (r, s, ts') \<Longrightarrow> ts' \<noteq> [] \<Longrightarrow>
    scan_members e' R sem (ts @ ext) = Inr (r, s, ts' @ ext)"
proof (induction e R sem ts rule: scan_members.induct)
  case (1 e R sem ts)
  show ?case
  proof (cases "has_more e ts")
    case False
    with "1.prems" have "R = r" "sem = s" "ts = ts'"
      by (auto simp: scan_members.simps [of e R sem ts])
    with False "1.prems"(2) show ?thesis
      by (subst scan_members.simps) (simp add: has_more_append [of _ e' _ e])
  next
    case True
    with "1.prems" obtain k ts1 key t ts2 ts3 where
      tok: "parserToken e ts = Inr (k, ts1)" "token_string k = Inr key"
        "parserToken e ts1 = Inr (t, ts2)" "skipToken e t 2 ts2 = Inr ts3"
      and rec: "scan_members e (mput key () R) (destination_err t sem) ts3 = Inr (r, s, ts')"
      unfolding scan_members.simps [of e R sem ts] by (auto elim!: bindE_InrE)
    have "scan_members e' (mput key () R) (destination_err t sem) (ts3 @ ext) = Inr (r, s, ts' @ ext)"
      using "1.IH" [of "(k, ts1)" k ts1 key "(t, ts2)" t ts2 ts3] True tok rec "1.prems"(2) by simp
    moreover have "ts \<noteq> []" using tok(1) by auto
    ultimately show ?thesis
      using True tok(2) skipToken_extend [OF tok(4)]
      by (simp add: scan_members.simps [of e' R sem "ts @ ext"] has_more_append [of _ e' _ e]
          parserToken_extend [OF tok(1)] parserToken_extend [OF tok(3)])
  qed
qed

lemma sum_ranges_nonempty:
  "ts \<noteq> [] \<Longrightarrow> ts2 \<noteq> [] \<Longrightarrow> sum_ranges e ts rs n = sum_ranges e' ts2 rs n"
  by (cases ts; cases ts2) (induction rs arbitrary: n; auto split: option.splits)+

lemma scanEpisodeRanges_extend:
  assumes "scanEpisodeRanges e ts = Inr (r, ts')" "ts' \<noteq> []"
  shows "scanEpisodeRanges e' (ts @ ext) = Inr (r, ts' @ ext)"
proof -
  obtain t ts1 where t: "parserToken e ts = Inr (t, ts1)"
    using assms by (auto simp: scanEpisodeRanges_def elim!: bindE_InrE)
  note t' = parserToken_extend [OF t]
  show ?thesis
  proof (cases "t = Delim LBrace")
    case False
    show ?thesis
    proof (cases "t = Null")
      case True
      with assms(1) t t' show ?thesis by (simp add: scanEpisodeRanges_def)
    next
      case other: False
      with assms(1) t False have "skipToken e t 1 ts1 = Inr ts'" "r = (0, Some BadEpisodes)"
        by (auto simp: scanEpisodeRanges_def elim!: bindE_InrE)
      with t' other False skipToken_extend [of e t 1 ts1 ts' e' ext] show ?thesis
        by (simp add: scanEpisodeRanges_def)
    qed
  next
    case True
    with assms(1) t obtain R sem ts2 c ts3 where
      scan: "scan_members e [] None ts1 = Inr (R, sem, ts2)" and c: "parserToken e ts2 = Inr (c, ts3)"
      and fin: "(if sem \<noteq> None then Inr ((0, sem), ts3)
              else bindE (sum_ranges e ts3 (mkeys R) 0) (\<lambda>r. Inr (r, ts3))) = Inr (r, ts')"
      by (auto simp: scanEpisodeRanges_def elim!: bindE_InrE)
    have ts3: "ts3 = ts'" using fin by (auto elim!: bindE_InrE split: if_splits)
    have "ts2 \<noteq> []" using c by auto
    then have scan': "scan_members e' [] None (ts1 @ ext) = Inr (R, sem, ts2 @ ext)"
      using scan_members_extend [OF scan] by simp
    have "sum_ranges e' (ts' @ ext) (mkeys R) 0 = sum_ranges e ts' (mkeys R) 0"
      by (rule sum_ranges_nonempty) (use assms(2) in auto)
    with fin t' True scan' parserToken_extend [OF c, of e' ext] show ?thesis
      unfolding ts3 by (auto simp: scanEpisodeRanges_def elim!: bindE_InrE split: if_splits)
  qed
qed

lemma targets_loop_extend:
  "targets_loop e S ts = Inr (s, ts') \<Longrightarrow> ts' \<noteq> [] \<Longrightarrow>
    targets_loop e' S (ts @ ext) = Inr (s, ts' @ ext)"
proof (induction e S ts rule: targets_loop.induct)
  case (1 e S ts)
  show ?case
  proof (cases "has_more e ts")
    case False
    with "1.prems" have "S = s" "ts = ts'" by (auto simp: targets_loop.simps [of e S ts])
    with False "1.prems"(2) show ?thesis
      by (subst targets_loop.simps) (simp add: has_more_append [of _ e' _ e])
  next
    case True
    from "1.prems" True obtain k ts1 d where
      k: "parserToken e ts = Inr (k, ts1)" and d: "token_string k = Inr d"
      and rest: "(case descriptor_target d of
                None \<Rightarrow> bindE (skipValue e 1 ts1) (\<lambda>ts2. targets_loop e S ts2)
              | Some (tid, scope) \<Rightarrow>
                  bindE (scanEpisodeRanges e ts1) (\<lambda>(counted, ts2).
                    targets_loop e (mput d (summary tid scope counted) S) ts2)) = Inr (s, ts')"
      unfolding targets_loop.simps [of e S ts] by (auto elim!: bindE_InrE)
    have more: "has_more e' (ts @ ext)" using True k by (cases ts) auto
    note k' = parserToken_extend [OF k, of e' ext]
    show ?thesis
    proof (cases "descriptor_target d")
      case None
      with rest obtain ts2 where sk: "skipValue e 1 ts1 = Inr ts2" "targets_loop e S ts2 = Inr (s, ts')"
        by (auto elim!: bindE_InrE)
      then have "targets_loop e' S (ts2 @ ext) = Inr (s, ts' @ ext)"
        using "1.IH"(1) [of "(k, ts1)" k ts1 d ts2] True k d None "1.prems"(2) by simp
      with more k' d None skipValue_extend [OF sk(1), of e' ext] show ?thesis
        by (subst targets_loop.simps) simp
    next
      case (Some p)
      then obtain tid scope where p: "descriptor_target d = Some (tid, scope)" by (cases p) auto
      with rest obtain r ts2 where
        scan: "scanEpisodeRanges e ts1 = Inr (r, ts2)" and
        rec: "targets_loop e (mput d (summary tid scope r) S) ts2 = Inr (s, ts')"
        by (auto elim!: bindE_InrE)
      have "ts2 \<noteq> []" using targets_loop_shrinks [OF rec] "1.prems"(2) by auto
      note scan' = scanEpisodeRanges_extend [OF scan this, of e' ext]
      have "targets_loop e' (mput d (summary tid scope r) S) (ts2 @ ext) = Inr (s, ts' @ ext)"
        using "1.IH"(2) [of "(k, ts1)" k ts1 d "(tid, scope)" tid scope "(r, ts2)" r ts2]
          True k d p scan rec "1.prems"(2) by simp
      with more k' d p scan' show ?thesis
        by (subst targets_loop.simps) simp
    qed
  qed
qed

lemma pick_loop_nonempty:
  "ts \<noteq> [] \<Longrightarrow> ts2 \<noteq> [] \<Longrightarrow> pick_loop e ts cs b = pick_loop e' ts2 cs b"
  by (simp add: pick_loop_eq)

lemma extractTVDB_extend:
  assumes "extractTVDB e ts = Inr (r, ts')" "ts' \<noteq> []"
  shows "extractTVDB e' (ts @ ext) = Inr (r, ts' @ ext)"
proof -
  obtain t ts1 where t: "parserToken e ts = Inr (t, ts1)"
    using assms by (auto simp: extractTVDB_def elim!: bindE_InrE)
  note t' = parserToken_extend [OF t]
  show ?thesis
  proof (cases "t = Delim LBrace")
    case False
    with assms(1) t t' show ?thesis by (auto simp: extractTVDB_def split: if_splits)
  next
    case True
    with assms(1) t obtain S ts2 c best where
      loop: "targets_loop e [] ts1 = Inr (S, ts2)" and c: "parserToken e ts2 = Inr (c, ts')"
      and best: "pick_loop e ts' (map snd S) no_target = Inr best"
      "r = (if 0 < ts_id best then Some (ts_id best) else None)"
      by (auto simp: extractTVDB_def elim!: bindE_InrE)
    have "ts2 \<noteq> []" using c by auto
    note loop' = targets_loop_extend [OF loop this, of e' ext]
    have "pick_loop e' (ts' @ ext) (map snd S) no_target = Inr best"
      using best(1) pick_loop_nonempty [of ts' "ts' @ ext" e _ _ e'] assms(2) by simp
    with t' True loop' parserToken_extend [OF c, of e' ext] best(2) show ?thesis
      by (simp add: extractTVDB_def)
  qed
qed

lemma meta_loop_extend:
  "meta_loop e st ts = Inr (r, ts') \<Longrightarrow> ts' \<noteq> [] \<Longrightarrow> meta_loop e' st (ts @ ext) = Inr (r, ts' @ ext)"
proof (induction e st ts rule: meta_loop.induct)
  case (1 e st ts)
  show ?case
  proof (cases "has_more e ts")
    case False
    with "1.prems" have "st = r" "ts = ts'" by (auto simp: meta_loop.simps [of e st ts])
    with False "1.prems"(2) show ?thesis
      by (subst meta_loop.simps) (simp add: has_more_append [of _ e' _ e])
  next
    case True
    with "1.prems" obtain k ts1 key t ts2 ts3 where
      tok: "parserToken e ts = Inr (k, ts1)" "token_string k = Inr key"
        "parserToken e ts1 = Inr (t, ts2)" "skipToken e t 1 ts2 = Inr ts3"
      and rec: "meta_loop e (meta_field key t st) ts3 = Inr (r, ts')"
      unfolding meta_loop.simps [of e st ts] by (auto elim!: bindE_InrE)
    have "meta_loop e' (meta_field key t st) (ts3 @ ext) = Inr (r, ts' @ ext)"
      using "1.IH" [of "(k, ts1)" k ts1 key "(t, ts2)" t ts2 ts3] True tok rec "1.prems"(2) by simp
    moreover have "ts \<noteq> []" using tok(1) by auto
    ultimately show ?thesis
      using True tok(2) skipToken_extend [OF tok(4)]
      by (simp add: meta_loop.simps [of e' st "ts @ ext"] has_more_append [of _ e' _ e]
          parserToken_extend [OF tok(1)] parserToken_extend [OF tok(3)])
  qed
qed

lemma parseDatasetMetadata_extend:
  assumes "parseDatasetMetadata e ts = Inr (r, ts')"
  shows "parseDatasetMetadata e' (ts @ ext) = Inr (r, ts' @ ext)"
proof -
  obtain t ts1 where t: "parserToken e ts = Inr (t, ts1)"
    using assms by (auto simp: parseDatasetMetadata_def Let_def elim!: bindE_InrE)
  note t' = parserToken_extend [OF t]
  consider "t = Null" | "t = Delim LBrace" | "t \<noteq> Null" "t \<noteq> Delim LBrace" by blast
  then show ?thesis
  proof cases
    case 1
    with assms t t' show ?thesis by (simp add: parseDatasetMetadata_def Let_def)
  next
    case 2
    with assms t obtain ts2 c where
      loop: "meta_loop e (\<lparr>SchemaVersion = [], GeneratedOn = []\<rparr>, None) ts1 = Inr (r, ts2)"
      and c: "parserToken e ts2 = Inr (c, ts')"
      by (auto simp: parseDatasetMetadata_def Let_def elim!: bindE_InrE)
    have "ts2 \<noteq> []" using c by auto
    with 2 t' meta_loop_extend [OF loop, of e' ext] parserToken_extend [OF c, of e' ext] show ?thesis
      by (simp add: parseDatasetMetadata_def Let_def)
  next
    case 3
    with assms t obtain "skipToken e t 0 ts1 = Inr ts'"
      "r = (\<lparr>SchemaVersion = [], GeneratedOn = []\<rparr>, Some BadMetaType)"
      by (auto simp: parseDatasetMetadata_def Let_def elim!: bindE_InrE)
    with 3 t' skipToken_extend [of e t 0 ts1 ts' e' ext] show ?thesis
      by (simp add: parseDatasetMetadata_def Let_def)
  qed
qed

text \<open>A member's value is extracted, read as metadata or skipped, whatever the tokens are.\<close>

lemma root_member_shape:
  obtains (target) space i where "\<And>e ts. root_member e key m ts =
      bindE (extractTVDB e ts) (\<lambda>(tvdb, ts2). Inr (put_target space i tvdb m, ts2))"
  | (metadata) "\<And>e ts. root_member e key m ts = bindE (parseDatasetMetadata e ts) (\<lambda>(_, ts2). Inr (m, ts2))"
  | (skip) "\<And>e ts. root_member e key m ts = bindE (skipValue e 0 ts) (\<lambda>ts2. Inr (m, ts2))"
proof (cases "key_space key")
  case None
  then show ?thesis
    by (cases "key = ''$meta''") (auto simp: root_member_def intro: that(2, 3))
next
  case (Some p)
  obtain space rawID where p: "p = (space, rawID)" by (cases p)
  show ?thesis
  proof (cases "\<exists>i. atoi rawID = Some i \<and> 0 < i")
    case True
    with Some p show ?thesis by (auto simp: root_member_def intro: that(1))
  next
    case False
    then show ?thesis
      by (intro that(3)) (cases "atoi rawID"; simp add: root_member_def Some p)
  qed
qed

lemma root_member_extend:
  assumes "root_member e key m ts = Inr (m', ts')" "ts' \<noteq> []"
  shows "root_member e' key m (ts @ ext) = Inr (m', ts' @ ext)"
proof (cases rule: root_member_shape [of key m])
  case (target space i)
  with assms obtain tvdb where "extractTVDB e ts = Inr (tvdb, ts')" "m' = put_target space i tvdb m"
    by (auto elim!: bindE_InrE)
  with target extractTVDB_extend [OF _ assms(2), of e ts tvdb e' ext] show ?thesis by simp
next
  case metadata
  with assms obtain r where "parseDatasetMetadata e ts = Inr (r, ts')" "m' = m"
    by (auto elim!: bindE_InrE)
  with metadata parseDatasetMetadata_extend [of e ts r ts' e' ext] show ?thesis by simp
next
  case skip
  with assms have "skipValue e 0 ts = Inr ts'" "m' = m" by (auto elim!: bindE_InrE)
  with skip skipValue_extend [of e 0 ts ts' e' ext] show ?thesis by simp
qed

lemma root_loop_extend:
  "root_loop e m ts = Inr (m', ts') \<Longrightarrow> ts' \<noteq> [] \<Longrightarrow> root_loop e' m (ts @ ext) = Inr (m', ts' @ ext)"
proof (induction e m ts rule: root_loop.induct)
  case (1 e m ts)
  show ?case
  proof (cases "has_more e ts")
    case False
    with "1.prems" have "m = m'" "ts = ts'" by (auto simp: root_loop.simps [of e m ts])
    with False "1.prems"(2) show ?thesis
      by (subst root_loop.simps) (simp add: has_more_append [of _ e' _ e])
  next
    case True
    with "1.prems" obtain key ts1 m1 ts2 where
      ctx: "ctx_done e ts = None" and k: "parserToken e ts = Inr (Str key, ts1)"
      and mem: "root_member e key m ts1 = Inr (m1, ts2)" and rec: "root_loop e m1 ts2 = Inr (m', ts')"
      unfolding root_loop.simps [of e m ts] by (auto elim!: bindE_InrE split: option.splits token.splits)
    have "root_loop e' m1 (ts2 @ ext) = Inr (m', ts' @ ext)"
      using "1.IH" [of "(Str key, ts1)" "Str key" ts1 key "(m1, ts2)" m1 ts2] True ctx k mem rec "1.prems"(2)
      by simp
    moreover have "ts2 \<noteq> []"
      using rec "1.prems"(2) k True by (cases ts2) (auto simp: root_loop.simps [of e m1 "[]"] elim!: bindE_InrE split: if_splits option.splits)
    moreover obtain t0 ts0 where "ts = t0 # ts0" using k by (cases ts) auto
    ultimately show ?thesis
      using True k root_member_extend [OF mem, of e' ext]
      by (subst root_loop.simps) simp
  qed
qed

text \<open>A mapping that was built did not meet the end of the stream.\<close>

lemma parse_extend:
  assumes "parseAnibridgeJSON e ts = Inr m"
  shows "parseAnibridgeJSON e' (ts @ ext) = Inr m"
proof -
  obtain ts1 ts2 c ts3 where
    first: "parserToken e ts = Inr (Delim LBrace, ts1)" and
    loop: "root_loop e (NewAnibridgeMapping [] []) ts1 = Inr (m, ts2)" and
    c: "parserToken e ts2 = Inr (c, ts3)"
    using assms by (auto simp: parseAnibridgeJSON_def elim!: bindE_InrE split: if_splits)
  have "ts2 \<noteq> []" using c by auto
  from root_loop_extend [OF loop this] parserToken_extend [OF first] parserToken_extend [OF c] show ?thesis
    by (simp add: parseAnibridgeJSON_def)
qed

text \<open>
  Claim C20. No proper prefix of a document is accepted, whatever ended the stream there (the input,
  a syntax error, the size limit, a cancelled context): a mapping is never built from a truncated
  file.
\<close>

theorem parseAnibridgeJSON_truncated:
  assumes "depth doc \<le> Suc maxMappingValueDepth" "k < length (toks doc)"
  shows "\<exists>err. parseAnibridgeJSON e (take k (toks doc)) = Inl err"
proof (rule ccontr)
  assume "\<not> ?thesis"
  then obtain m where "parseAnibridgeJSON e (take k (toks doc)) = Inr m"
    by (cases "parseAnibridgeJSON e (take k (toks doc))") auto
  then obtain ts1 ts2 c ts3 where
    first: "parserToken e (take k (toks doc)) = Inr (Delim LBrace, ts1)" and
    loop: "root_loop e (NewAnibridgeMapping [] []) ts1 = Inr (m, ts2)" and
    c: "parserToken e ts2 = Inr (c, ts3)"
    by (auto simp: parseAnibridgeJSON_def elim!: bindE_InrE split: if_splits)
  have head: "take k (toks doc) = Delim LBrace # ts1"
    using first by (cases "take k (toks doc)") auto
  then have "hd (toks doc) = Delim LBrace" by (cases "toks doc"; cases k) auto
  then obtain kvs where doc: "doc = JObj kvs" by (cases doc) auto
  let ?ext = "drop k (toks doc)"
  have "Delim LBrace # ts1 @ ?ext = toks doc"
    using head append_take_drop_id [of k "toks doc"] by simp
  then have rest: "ts1 @ ?ext = member_toks kvs @ Delim RBrace # []"
    unfolding doc toks_JObj by simp
  have "ts2 \<noteq> []" using c by auto
  from root_loop_extend [OF loop this, of e ?ext] rest
  have "root_loop e (NewAnibridgeMapping [] []) (member_toks kvs @ Delim RBrace # []) = Inr (m, ts2 @ ?ext)"
    by simp
  moreover have "members_depth kvs \<le> maxMappingValueDepth"
    using assms(1) doc by (simp add: depth_JObj del: depth.simps)
  ultimately have "ts2 @ ?ext = [Delim RBrace]"
    by (simp add: root_loop_toks)
  with \<open>ts2 \<noteq> []\<close> assms(2) show False
    by (cases ts2) auto
qed

lemma parseAnibridgeJSON_truncated_witness:
  "\<exists>err. parseAnibridgeJSON (EndCancel Canceled)
     (take 5 (toks (JObj [(''mal:1'', JObj [(''tvdb_show:9:s1'', JNull)]), (''x'', JNum ''1'')]))) = Inl err"
  by (rule parseAnibridgeJSON_truncated) (simp_all add: maxMappingValueDepth_def)

section \<open>Episode ranges\<close>

lemma minus_not_in_nat_str: "CHR ''-'' \<notin> set (nat_str n)"
  using nat_str_digits [of "CHR ''-''" n] by (auto simp: is_digit_def)

text \<open>
  A source range written \<open>a-b\<close> counts \<open>b - a + 1\<close> episodes when \<open>1 \<le> a \<le> b\<close> and is an
  error otherwise; a single number \<open>a\<close>, or an open end \<open>a-\<close>, counts one episode when \<open>1 \<le> a\<close>.
\<close>

lemma sourceRangeCount_numbers:
  assumes "in_int64 a" "in_int64 b"
  shows "sourceRangeCount (fmt_d a @ CHR ''-'' # fmt_d b) =
      (if 1 \<le> a \<and> a \<le> b then Some (b - a + 1) else None)
    \<and> sourceRangeCount (fmt_d a) = (if 1 \<le> a then Some 1 else None)
    \<and> sourceRangeCount (fmt_d a @ ''-'') = (if 1 \<le> a then Some 1 else None)"
proof (cases "a < 0")
  case True
  then have "\<exists>s. fmt_d a = CHR ''-'' # s" by (simp add: fmt_d_def)
  then obtain s where s: "fmt_d a = CHR ''-'' # s" ..
  have "atoi [] = None" by code_simp
  with True show ?thesis by (simp add: s sourceRangeCount_def)
next
  case False
  then have a: "fmt_d a = nat_str (nat a)" by (simp add: fmt_d_def)
  have cut: "cut_at (CHR ''-'') (nat_str (nat a) @ CHR ''-'' # x) = (nat_str (nat a), x, True)" for x
    by (rule cut_at_append) (rule minus_not_in_nat_str)
  have cut1: "cut_at (CHR ''-'') (nat_str (nat a)) = (nat_str (nat a), [], False)"
    using cut_at_found [of "CHR ''-''" "nat_str (nat a)"] minus_not_in_nat_str [of "nat a"]
    by (cases "cut_at (CHR ''-'') (nat_str (nat a))") (auto split: if_splits)
  have at: "atoi (nat_str (nat a)) = Some a" "atoi (fmt_d b) = Some b"
    using atoi_fmt_d [OF assms(1)] atoi_fmt_d [OF assms(2)] a by simp_all
  have ne: "fmt_d b \<noteq> []" "nat_str (nat a) \<noteq> []" by (simp_all add: fmt_d_def nat_str_not_Nil)
  show ?thesis
    by (simp add: a sourceRangeCount_def cut cut1 at ne)
qed

lemma sourceRangeCount_numbers_witness:
  "sourceRangeCount (fmt_d 3 @ CHR ''-'' # fmt_d 14) = Some 12"
  using sourceRangeCount_numbers [of 3 14] by (simp add: in_int64_def min_int64_def max_int64_def)

end
