(* ===== verification/Decoded_Cache.thy ===== *)
theory Decoded_Cache
  imports Anilist_Show "HOL-Library.Word"
begin

text \<open>
  The bounded cache of decoded years (\<open>internal/cache/decoded_year.go\<close>): a map from years to
  elements of a doubly linked list kept in order of use, a byte budget, and a generation counter
  that every invalidation advances. A list element is its address; the list \<open>dc_lru\<close> holds the
  elements front first, the map \<open>dc_entries\<close> their addresses. Dereferencing an element that is not
  in the list (\<open>lru.Back()\<close> of an empty list is nil) is \<^const>\<open>None\<close>, a panic.

  Each function is the body of one critical section of the mutex \<open>mu\<close>; callers interleave them.
\<close>

section \<open>State\<close>

record decoded_entry =
  de_year :: int
  de_raw :: string
  de_shows :: "anilist_show list"
  de_size :: int

record decoded_cache =
  generation :: "64 word"
  closed :: bool
  dc_entries :: "(int, nat) gomap"
  dc_lru :: "(nat \<times> decoded_entry) list"
  dc_bytes :: int
  maxYears :: int
  maxBytes :: int
  dc_next :: nat

definition newDecodedYearCache :: decoded_cache where
  "newDecodedYearCache =
     \<lparr>generation = 0, closed = False, dc_entries = [], dc_lru = [], dc_bytes = 0,
      maxYears = 8, maxBytes = 32 * 2 ^ 20, dc_next = 0\<rparr>"

section \<open>Sizes\<close>

text \<open>
  \<open>decodedYearSize\<close> on a 64-bit platform: \<open>Sizeof\<close> of an entry is 64, of a list element 40, of a
  \<open>Show\<close> 128, of a \<open>Tag\<close> or an edge 16, of a \<open>RelationBlock\<close> 24. The capacities of the slices are
  the allocator's: they come with the data, for the raw bytes, the shows, and per show for its tags
  and its edges.
\<close>

definition opt_int_size :: "int option \<Rightarrow> int" where
  "opt_int_size x = (case x of None \<Rightarrow> 0 | Some _ \<Rightarrow> 8)"

definition opt_string_size :: "string option \<Rightarrow> int" where
  "opt_string_size x = (case x of None \<Rightarrow> 0 | Some s \<Rightarrow> 16 + int (length s))"

definition show_size :: "anilist_show \<Rightarrow> nat \<Rightarrow> nat \<Rightarrow> int" where
  "show_size s tags_cap edges_cap =
     int (length (sh_Format s) + length (sh_Season s))
     + (\<Sum>n \<leftarrow> [sh_IDMal s, sh_Duration s, fd_Year (sh_StartDate s), fd_Month (sh_StartDate s),
            fd_Day (sh_StartDate s)]. opt_int_size n)
     + (\<Sum>t \<leftarrow> [English (sh_Title s), Romaji (sh_Title s)]. opt_string_size t)
     + int tags_cap * 16 + (\<Sum>t \<leftarrow> sh_Tags s. int (length (tag_Name t)))
     + (case sh_Relations s of
          None \<Rightarrow> 0
        | Some r \<Rightarrow> 24 + int edges_cap * 16 + (\<Sum>e \<leftarrow> Edges r. int (length (RelationType e))))"

record capacities =
  raw_cap :: nat
  shows_cap :: nat
  tag_edge_caps :: "(nat \<times> nat) list"

fun shows_size :: "anilist_show list \<Rightarrow> (nat \<times> nat) list \<Rightarrow> int" where
  "shows_size [] caps = 0"
| "shows_size (s # ss) [] = show_size s 0 0 + shows_size ss []"
| "shows_size (s # ss) ((t, e) # caps) = show_size s t e + shows_size ss caps"

definition decodedYearSize :: "capacities \<Rightarrow> anilist_show list \<Rightarrow> int" where
  "decodedYearSize caps shows =
     (64 + 40) + int (raw_cap caps) + int (shows_cap caps) * 128 + shows_size shows (tag_edge_caps caps)"

section \<open>Operations\<close>

definition remove_elem :: "nat \<Rightarrow> decoded_cache \<Rightarrow> decoded_cache option" where
  "remove_elem a d =
     (case map_of (dc_lru d) a of
        None \<Rightarrow> None
      | Some entry \<Rightarrow>
          Some (d\<lparr>dc_bytes := dc_bytes d - de_size entry,
                  dc_entries := mdel (de_year entry) (dc_entries d),
                  dc_lru := filter (\<lambda>x. fst x \<noteq> a) (dc_lru d)\<rparr>))"

definition move_to_front :: "nat \<Rightarrow> decoded_entry \<Rightarrow> decoded_cache \<Rightarrow> decoded_cache" where
  "move_to_front a entry d = d\<lparr>dc_lru := (a, entry) # filter (\<lambda>x. fst x \<noteq> a) (dc_lru d)\<rparr>"

definition lookup ::
    "int \<Rightarrow> string \<Rightarrow> bool \<Rightarrow> 64 word \<Rightarrow> decoded_cache \<Rightarrow>
     (anilist_show list option \<times> decoded_cache) option" where
  "lookup year raw present gen d =
     (case mget (dc_entries d) year of
        None \<Rightarrow> Some (None, d)
      | Some a \<Rightarrow>
          (case map_of (dc_lru d) a of
             None \<Rightarrow> None
           | Some entry \<Rightarrow>
               if present \<and> raw = de_raw entry
               then Some (Some (de_shows entry), move_to_front a entry d)
               else if gen = generation d
               then map_option (\<lambda>d'. (None, d')) (remove_elem a d)
               else Some (None, d)))"

text \<open>\<open>for len(d.entries) >= d.maxYears || d.bytes+size > d.maxBytes { d.remove(d.lru.Back()) }\<close>\<close>

function evict :: "int \<Rightarrow> decoded_cache \<Rightarrow> decoded_cache option" where
  "evict sz d =
     (if maxYears d \<le> int (length (mkeys (dc_entries d))) \<or> maxBytes d < dc_bytes d + sz then
        (if dc_lru d = [] then None
         else (case remove_elem (fst (last (dc_lru d))) d of
                 None \<Rightarrow> None
               | Some d' \<Rightarrow> evict sz d'))
      else Some d)"
  by pat_completeness auto
termination
proof (relation "measure (\<lambda>(sz, d). length (dc_lru d))", goal_cases)
  case (2 sz d d')
  from 2(2) have "last (dc_lru d) \<in> set (dc_lru d)" by simp
  then have "length (filter (\<lambda>x. fst x \<noteq> fst (last (dc_lru d))) (dc_lru d)) < length (dc_lru d)"
    by (intro length_filter_less [of "last (dc_lru d)"]) auto
  with 2(3) show ?case by (auto simp: remove_elem_def split: option.splits)
qed simp

declare evict.simps [simp del]

definition push_front :: "decoded_entry \<Rightarrow> decoded_cache \<Rightarrow> decoded_cache" where
  "push_front entry d =
     d\<lparr>dc_lru := (dc_next d, entry) # dc_lru d,
       dc_entries := mput (de_year entry) (dc_next d) (dc_entries d),
       dc_bytes := dc_bytes d + de_size entry,
       dc_next := Suc (dc_next d)\<rparr>"

definition admit ::
    "capacities \<Rightarrow> int \<Rightarrow> string \<Rightarrow> anilist_show list \<Rightarrow> 64 word \<Rightarrow> decoded_cache \<Rightarrow>
     decoded_cache option" where
  "admit caps year raw shows gen d =
     (let sz = decodedYearSize caps shows in
      if closed d \<or> gen \<noteq> generation d \<or> maxYears d \<le> 0 \<or> maxBytes d < sz then Some d
      else
        (case (case mget (dc_entries d) year of None \<Rightarrow> Some d | Some a \<Rightarrow> remove_elem a d) of
           None \<Rightarrow> None
         | Some d1 \<Rightarrow>
             map_option
               (push_front \<lparr>de_year = year, de_raw = raw, de_shows = shows, de_size = sz\<rparr>)
               (evict sz d1)))"

definition invalidate :: "int \<Rightarrow> bool \<Rightarrow> bool \<Rightarrow> decoded_cache \<Rightarrow> decoded_cache option" where
  "invalidate year everything close d =
     (let d1 = d\<lparr>generation := generation d + 1, closed := closed d \<or> close\<rparr> in
      if everything then Some (d1\<lparr>dc_entries := [], dc_lru := [], dc_bytes := 0\<rparr>)
      else (case mget (dc_entries d1) year of
              None \<Rightarrow> Some d1
            | Some a \<Rightarrow> remove_elem a d1))"

section \<open>The invariant\<close>

text \<open>
  Map and list hold the same entries under the same addresses, one per year; the byte count is the
  sum of the entries' sizes; the budgets hold unless the cache is empty.
\<close>

definition lru_bytes :: "(nat \<times> decoded_entry) list \<Rightarrow> int" where
  "lru_bytes xs = (\<Sum>x \<leftarrow> xs. de_size (snd x))"

definition dc_wf :: "decoded_cache \<Rightarrow> bool" where
  "dc_wf d \<longleftrightarrow>
     mwf (dc_entries d)
     \<and> distinct (map fst (dc_lru d))
     \<and> distinct (map (\<lambda>x. de_year (snd x)) (dc_lru d))
     \<and> (\<forall>y a. mget (dc_entries d) y = Some a
            \<longleftrightarrow> (\<exists>entry. (a, entry) \<in> set (dc_lru d) \<and> de_year entry = y))
     \<and> (\<forall>(a, entry) \<in> set (dc_lru d). a < dc_next d \<and> 0 \<le> de_size entry)
     \<and> dc_bytes d = lru_bytes (dc_lru d)"

definition dc_bounded :: "decoded_cache \<Rightarrow> bool" where
  "dc_bounded d \<longleftrightarrow>
     dc_lru d = [] \<or> (int (length (dc_lru d)) \<le> maxYears d \<and> dc_bytes d \<le> maxBytes d)"

definition dc_coherent :: "(string \<Rightarrow> anilist_show list option) \<Rightarrow> decoded_cache \<Rightarrow> bool" where
  "dc_coherent decode d \<longleftrightarrow> (\<forall>(a, entry) \<in> set (dc_lru d). decode (de_raw entry) = Some (de_shows entry))"

lemma dc_wfD:
  assumes "dc_wf d"
  shows "mwf (dc_entries d)" "distinct (map fst (dc_lru d))"
    "distinct (map (\<lambda>x. de_year (snd x)) (dc_lru d))"
    "mget (dc_entries d) y = Some a \<longleftrightarrow> (\<exists>entry. (a, entry) \<in> set (dc_lru d) \<and> de_year entry = y)"
    "(b, entry) \<in> set (dc_lru d) \<Longrightarrow> b < dc_next d"
    "(b, entry) \<in> set (dc_lru d) \<Longrightarrow> 0 \<le> de_size entry"
    "dc_bytes d = lru_bytes (dc_lru d)"
  using assms unfolding dc_wf_def by blast+

text \<open>What the sets of entries become, the bytes included.\<close>

lemma lru_bytes_simps [simp]:
  "lru_bytes [] = 0" "lru_bytes (x # xs) = de_size (snd x) + lru_bytes xs"
  by (simp_all add: lru_bytes_def split: prod.splits)

lemma lru_bytes_nonneg: "(\<forall>(a, entry) \<in> set xs. 0 \<le> de_size entry) \<Longrightarrow> 0 \<le> lru_bytes xs"
  by (induction xs) auto

lemma filter_absent: "a \<notin> fst ` set xs \<Longrightarrow> filter (\<lambda>x. fst x \<noteq> a) xs = xs"
  by (induction xs) auto

lemma lru_bytes_remove:
  "distinct (map fst xs) \<Longrightarrow> map_of xs a = Some entry \<Longrightarrow>
    lru_bytes (filter (\<lambda>x. fst x \<noteq> a) xs) = lru_bytes xs - de_size entry"
  by (induction xs) (auto simp: filter_absent split: if_splits)

lemma length_filter_remove:
  "distinct (map fst xs) \<Longrightarrow> map_of xs a = Some entry \<Longrightarrow>
    Suc (length (filter (\<lambda>x. fst x \<noteq> a) xs)) = length xs"
  by (induction xs) (auto simp: filter_absent split: if_splits)

lemma dc_wf_entry:
  assumes "dc_wf d" "mget (dc_entries d) y = Some a"
  obtains entry where "map_of (dc_lru d) a = Some entry" "(a, entry) \<in> set (dc_lru d)" "de_year entry = y"
  using assms dc_wfD(2,4) [OF assms(1)] by (metis map_of_is_SomeI)

lemma dc_wf_entries_length:
  assumes "dc_wf d"
  shows "length (mkeys (dc_entries d)) = length (dc_lru d)"
proof -
  have "set (mkeys (dc_entries d)) = set (map (\<lambda>x. de_year (snd x)) (dc_lru d))"
    using assms by (force simp: gm.keys_get dc_wf_def)
  moreover have "distinct (mkeys (dc_entries d))" "distinct (map (\<lambda>x. de_year (snd x)) (dc_lru d))"
    using assms by (simp_all add: dc_wf_def gm.keys_distinct)
  ultimately show ?thesis by (metis distinct_card length_map)
qed

section \<open>Removing an element\<close>

definition without :: "nat \<Rightarrow> decoded_entry \<Rightarrow> decoded_cache \<Rightarrow> decoded_cache" where
  "without a entry d =
     d\<lparr>dc_bytes := dc_bytes d - de_size entry,
       dc_entries := mdel (de_year entry) (dc_entries d),
       dc_lru := filter (\<lambda>x. fst x \<noteq> a) (dc_lru d)\<rparr>"

lemma remove_elem_without:
  "map_of (dc_lru d) a = Some entry \<Longrightarrow> remove_elem a d = Some (without a entry d)"
  by (simp add: remove_elem_def without_def)

lemma without_simps [simp]:
  "generation (without a entry d) = generation d"
  "closed (without a entry d) = closed d"
  "maxYears (without a entry d) = maxYears d"
  "maxBytes (without a entry d) = maxBytes d"
  "dc_next (without a entry d) = dc_next d"
  "dc_lru (without a entry d) = filter (\<lambda>x. fst x \<noteq> a) (dc_lru d)"
  "dc_entries (without a entry d) = mdel (de_year entry) (dc_entries d)"
  "dc_bytes (without a entry d) = dc_bytes d - de_size entry"
  by (simp_all add: without_def)

lemma same_elem:
  assumes "distinct (map fst xs)" "(a, x) \<in> set xs" "(a, y) \<in> set xs"
  shows "x = y"
  using assms by (meson eq_key_imp_eq_value)

lemma same_year:
  assumes "distinct (map (\<lambda>x. de_year (snd x)) xs)"
    and "(a, x) \<in> set xs" "(b, y) \<in> set xs" "de_year x = de_year y"
  shows "a = b"
proof -
  have "inj_on (\<lambda>x. de_year (snd x)) (set xs)" using assms(1) by (simp add: distinct_map)
  from inj_onD [OF this, of "(a, x)" "(b, y)"] assms(2-4) show ?thesis by simp
qed

lemma without_wf [wf_rules]:
  assumes wf: "dc_wf d" and a: "map_of (dc_lru d) a = Some entry"
  shows "dc_wf (without a entry d)"
proof -
  have mem: "(a, entry) \<in> set (dc_lru d)" using a by (rule map_of_SomeD)
  note dist = dc_wfD(2,3) [OF wf]
  have other: "de_year e \<noteq> de_year entry \<longleftrightarrow> b \<noteq> a" if "(b, e) \<in> set (dc_lru d)" for b e
    using same_year [OF dist(2) that mem] same_elem [OF dist(1), of a e entry] that mem by auto
  have "mget (mdel (de_year entry) (dc_entries d)) y = Some b \<longleftrightarrow>
      (\<exists>e. (b, e) \<in> set (filter (\<lambda>x. fst x \<noteq> a) (dc_lru d)) \<and> de_year e = y)" for y b
    using other dc_wfD(4) [OF wf] by auto
  moreover have "\<forall>(b, e) \<in> set (filter (\<lambda>x. fst x \<noteq> a) (dc_lru d)). b < dc_next d \<and> 0 \<le> de_size e"
    using dc_wfD(5,6) [OF wf] by auto
  ultimately show ?thesis
    using dc_wfD(1,7) [OF wf] lru_bytes_remove [OF dist(1) a] dist [THEN distinct_map_filter]
    unfolding dc_wf_def by (simp only: without_simps gm.ok_del) (simp, blast)
qed

lemma without_last:
  assumes "distinct (map fst (dc_lru d))" "dc_lru d \<noteq> []" "a = fst (last (dc_lru d))"
  shows "dc_lru (without a entry d) = butlast (dc_lru d)"
proof -
  obtain ys y where xs: "dc_lru d = ys @ [y]" using assms(2) by (cases "dc_lru d" rule: rev_cases) auto
  then have "a \<notin> fst ` set ys" "a = fst y" using assms(1,3) by auto
  then show ?thesis by (simp add: xs filter_absent)
qed

section \<open>Eviction\<close>

text \<open>
  The abstract cache is the list of entries, most recently used first. What survives an eviction is
  the longest front of it that leaves room for one more entry of the given size.
\<close>

fun fit :: "('a \<Rightarrow> int) \<Rightarrow> int \<Rightarrow> int \<Rightarrow> 'a list \<Rightarrow> 'a list" where
  "fit f room budget [] = []"
| "fit f room budget (x # xs) =
     (if room \<le> 0 \<or> budget < f x then [] else x # fit f (room - 1) (budget - f x) xs)"

lemma fit_all:
  "(\<forall>x \<in> set xs. 0 \<le> f x) \<Longrightarrow> int (length xs) \<le> room \<Longrightarrow> (\<Sum>x \<leftarrow> xs. f x) \<le> budget \<Longrightarrow>
    fit f room budget xs = xs"
proof (induction xs arbitrary: room budget)
  case Nil
  then show ?case by simp
next
  case (Cons x xs)
  have "0 \<le> (\<Sum>x \<leftarrow> xs. f x)"
    using Cons.prems(1) by (induction xs) auto
  with Cons show ?case by simp
qed

lemma fit_butlast:
  "\<not> (int (length (ys @ [y])) \<le> room \<and> (\<Sum>x \<leftarrow> ys @ [y]. f x) \<le> budget) \<Longrightarrow>
    fit f room budget (ys @ [y]) = fit f room budget ys"
  by (induction ys arbitrary: room budget) auto

lemma fit_map: "fit f room budget (map g xs) = map g (fit (\<lambda>x. f (g x)) room budget xs)"
  by (induction xs arbitrary: room budget) auto

lemma fit_prefix: "\<exists>n. fit f room budget xs = take n xs"
proof (induction xs arbitrary: room budget)
  case Nil
  then show ?case by simp
next
  case (Cons x xs)
  then obtain n where "fit f (room - 1) (budget - f x) xs = take n xs" by blast
  then show ?case by (auto intro: exI [of _ 0] exI [of _ "Suc n"])
qed

lemma evict_spec:
  assumes "dc_wf d" "0 < maxYears d" "sz \<le> maxBytes d"
  shows "\<exists>d'. evict sz d = Some d' \<and> dc_wf d'
    \<and> dc_lru d' = fit (\<lambda>x. de_size (snd x)) (maxYears d - 1) (maxBytes d - sz) (dc_lru d)
    \<and> int (length (dc_lru d')) < maxYears d \<and> dc_bytes d' + sz \<le> maxBytes d
    \<and> generation d' = generation d \<and> closed d' = closed d \<and> maxYears d' = maxYears d
    \<and> maxBytes d' = maxBytes d \<and> dc_next d' = dc_next d"
  using assms
proof (induction sz d rule: evict.induct)
  case (1 sz d)
  have len: "length (mkeys (dc_entries d)) = length (dc_lru d)"
    using "1.prems"(1) by (rule dc_wf_entries_length)
  show ?case
  proof (cases "maxYears d \<le> int (length (mkeys (dc_entries d))) \<or> maxBytes d < dc_bytes d + sz")
    case False
    then have run: "evict sz d = Some d" by (simp add: evict.simps [of sz d])
    have "\<forall>x \<in> set (dc_lru d). 0 \<le> de_size (snd x)"
      using dc_wfD(6) [OF "1.prems"(1)] by auto
    then have "dc_lru d = fit (\<lambda>x. de_size (snd x)) (maxYears d - 1) (maxBytes d - sz) (dc_lru d)"
      using False len dc_wfD(7) [OF "1.prems"(1)] by (subst fit_all) (auto simp: lru_bytes_def)
    then show ?thesis
      using False "1.prems" len run by auto
  next
    case True
    have ne: "dc_lru d \<noteq> []"
    proof
      assume "dc_lru d = []"
      moreover from this have "dc_bytes d = 0" using "1.prems"(1) by (simp add: dc_wf_def)
      ultimately show False using True "1.prems" len by auto
    qed
    let ?a = "fst (last (dc_lru d))" and ?e = "snd (last (dc_lru d))"
    have dist: "distinct (map fst (dc_lru d))" using "1.prems"(1) by (simp add: dc_wf_def)
    then have a: "map_of (dc_lru d) ?a = Some ?e"
      using ne by (metis last_in_set map_of_is_SomeI prod.collapse)
    note rem = remove_elem_without [OF a]
    have lru: "dc_lru (without ?a ?e d) = butlast (dc_lru d)"
      by (rule without_last [OF dist ne refl])
    have run: "evict sz d = evict sz (without ?a ?e d)"
      using True ne rem by (simp add: evict.simps [of sz d])
    have "dc_lru d = butlast (dc_lru d) @ [last (dc_lru d)]" using ne by simp
    moreover have "\<not> (int (length (dc_lru d)) \<le> maxYears d - 1
        \<and> (\<Sum>x \<leftarrow> dc_lru d. de_size (snd x)) \<le> maxBytes d - sz)"
      using True len dc_wfD(7) [OF "1.prems"(1)] by (auto simp: lru_bytes_def)
    ultimately have
      "fit (\<lambda>x. de_size (snd x)) (maxYears d - 1) (maxBytes d - sz) (dc_lru d) =
       fit (\<lambda>x. de_size (snd x)) (maxYears d - 1) (maxBytes d - sz) (butlast (dc_lru d))"
      by (metis fit_butlast)
    then show ?thesis
      using "1.IH" [OF True ne rem] "1.prems" without_wf [OF "1.prems"(1) a] lru run by auto
  qed
qed

section \<open>Every operation keeps the invariant and never panics\<close>

lemma newDecodedYearCache_wf [wf_rules]: "dc_wf newDecodedYearCache" "dc_bounded newDecodedYearCache"
  by (simp_all add: dc_wf_def dc_bounded_def newDecodedYearCache_def wf_rules)

lemma move_to_front_wf:
  assumes "dc_wf d" "map_of (dc_lru d) a = Some entry"
  shows "dc_wf (move_to_front a entry d)"
    and "set (dc_lru (move_to_front a entry d)) = set (dc_lru d)"
    and "length (dc_lru (move_to_front a entry d)) = length (dc_lru d)"
proof -
  have mem: "(a, entry) \<in> set (dc_lru d)" using assms(2) by (rule map_of_SomeD)
  note dist = dc_wfD(2,3) [OF assms(1)]
  let ?xs = "filter (\<lambda>x. fst x \<noteq> a) (dc_lru d)"
  show set: "set (dc_lru (move_to_front a entry d)) = set (dc_lru d)"
    using mem by (auto simp: move_to_front_def dest: same_elem [OF dist(1) _ mem])
  show "length (dc_lru (move_to_front a entry d)) = length (dc_lru d)"
    using length_filter_remove [OF dist(1) assms(2)] by (simp add: move_to_front_def)
  have d1: "distinct (map fst ((a, entry) # ?xs))"
    using dist(1) by (auto simp: distinct_map_filter)
  have "de_year entry \<notin> (\<lambda>x. de_year (snd x)) ` set ?xs"
    using same_year [OF dist(2) _ mem] by auto
  then have d2: "distinct (map (\<lambda>x. de_year (snd x)) ((a, entry) # ?xs))"
    using dist(2) by (simp add: distinct_map_filter)
  have "lru_bytes ((a, entry) # ?xs) = lru_bytes (dc_lru d)"
    using lru_bytes_remove [OF dist(1) assms(2)] by simp
  with assms(1) d1 d2 set show "dc_wf (move_to_front a entry d)"
    unfolding dc_wf_def by (simp add: move_to_front_def)
qed

lemma lookup_spec:
  assumes "dc_wf d" "dc_bounded d"
  shows "\<exists>r d'. lookup year raw present gen d = Some (r, d') \<and> dc_wf d' \<and> dc_bounded d'
    \<and> set (dc_lru d') \<subseteq> set (dc_lru d)
    \<and> generation d' = generation d \<and> closed d' = closed d \<and> maxYears d' = maxYears d
    \<and> maxBytes d' = maxBytes d
    \<and> (\<forall>shows. r = Some shows \<longrightarrow> present \<and>
         (\<exists>a entry. (a, entry) \<in> set (dc_lru d) \<and> de_year entry = year \<and> de_raw entry = raw
            \<and> de_shows entry = shows \<and> dc_lru d' = (a, entry) # filter (\<lambda>x. fst x \<noteq> a) (dc_lru d)))"
proof (cases "mget (dc_entries d) year")
  case None
  then show ?thesis using assms by (auto simp: lookup_def)
next
  case (Some a)
  obtain entry where entry: "map_of (dc_lru d) a = Some entry"
    "(a, entry) \<in> set (dc_lru d)" "de_year entry = year"
    using dc_wf_entry [OF assms(1) Some] .
  note front = move_to_front_wf [OF assms(1) entry(1)]
  have front_bounded: "dc_bounded (move_to_front a entry d)"
    using assms(2) front(3) by (auto simp: dc_bounded_def move_to_front_def)
  have nonneg: "0 \<le> de_size entry" using dc_wfD(6) [OF assms(1) entry(2)] .
  have shorter: "length (filter (\<lambda>x. fst x \<noteq> a) (dc_lru d)) \<le> length (dc_lru d)" by simp
  have rem_bounded: "dc_bounded (without a entry d)"
    using assms(2) nonneg order_trans [OF of_nat_mono [OF shorter]] by (auto simp: dc_bounded_def)
  show ?thesis
    using Some entry front front_bounded rem_bounded assms without_wf [OF assms(1) entry(1)]
    by (auto simp: lookup_def remove_elem_without move_to_front_def)
qed

section \<open>Sizes are not negative\<close>

lemma sum_list_nonneg_int: "(\<And>x. x \<in> set xs \<Longrightarrow> 0 \<le> f x) \<Longrightarrow> 0 \<le> (\<Sum>x \<leftarrow> xs. f x :: int)"
  by (induction xs) auto

lemma show_size_nonneg: "0 \<le> show_size s t e"
  unfolding show_size_def
  by (intro add_nonneg_nonneg sum_list_nonneg_int)
    (auto simp: opt_int_size_def opt_string_size_def intro!: add_nonneg_nonneg sum_list_nonneg_int
      split: option.splits)

lemma decodedYearSize_nonneg: "0 \<le> decodedYearSize caps shs"
proof -
  have "0 \<le> shows_size shs cs" for cs
    by (induction shs cs rule: shows_size.induct) (auto simp: show_size_nonneg)
  then show ?thesis by (simp add: decodedYearSize_def)
qed

section \<open>Admission and invalidation\<close>

lemma push_front_simps [simp]:
  "generation (push_front en d) = generation d" "closed (push_front en d) = closed d"
  "maxYears (push_front en d) = maxYears d" "maxBytes (push_front en d) = maxBytes d"
  "dc_lru (push_front en d) = (dc_next d, en) # dc_lru d"
  "dc_bytes (push_front en d) = dc_bytes d + de_size en"
  by (simp_all add: push_front_def)

lemma push_front_wf:
  assumes wf: "dc_wf d" and "mget (dc_entries d) (de_year en) = None" "0 \<le> de_size en"
  shows "dc_wf (push_front en d)"
proof -
  have new: "(dc_next d, e) \<notin> set (dc_lru d)" for e
    using dc_wfD(5) [OF wf] by blast
  have "\<forall>e. (b, e) \<in> set (dc_lru d) \<longrightarrow> de_year e \<noteq> de_year en" for b
    using assms(2) dc_wfD(4) [OF wf, of "de_year en"] by auto
  then have year: "de_year en \<notin> (\<lambda>x. de_year (snd x)) ` set (dc_lru d)"
    by fastforce
  have addr: "dc_next d \<notin> fst ` set (dc_lru d)" using new by auto
  have "mget (mput (de_year en) (dc_next d) (dc_entries d)) y = Some b \<longleftrightarrow>
      (\<exists>e. (b, e) \<in> set ((dc_next d, en) # dc_lru d) \<and> de_year e = y)" for y b
    using year dc_wfD(4) [OF wf, of y b] by force
  moreover have "\<forall>(b, e) \<in> set ((dc_next d, en) # dc_lru d). b < Suc (dc_next d) \<and> 0 \<le> de_size e"
    using dc_wfD(5,6) [OF wf] assms(3) by (auto simp: less_Suc_eq)
  ultimately show ?thesis
    using dc_wfD(1,2,3,7) [OF wf] year addr
    unfolding dc_wf_def by (simp add: push_front_def gm.ok_put)
qed

text \<open>The element of a year that is in the map can be removed; afterwards the year is absent.\<close>

lemma remove_year:
  assumes wf: "dc_wf d"
  obtains d1 where
    "(case mget (dc_entries d) year of None \<Rightarrow> Some d | Some a \<Rightarrow> remove_elem a d) = Some d1"
    "dc_wf d1" "mget (dc_entries d1) year = None"
    "dc_lru d1 = filter (\<lambda>x. de_year (snd x) \<noteq> year) (dc_lru d)"
    "generation d1 = generation d" "closed d1 = closed d" "maxYears d1 = maxYears d"
    "maxBytes d1 = maxBytes d"
proof (cases "mget (dc_entries d) year")
  case None
  have "\<forall>x \<in> set (dc_lru d). de_year (snd x) \<noteq> year"
    using None dc_wfD(4) [OF wf, of year] by fastforce
  then have "filter (\<lambda>x. de_year (snd x) \<noteq> year) (dc_lru d) = dc_lru d"
    by (simp add: filter_id_conv)
  with None wf show thesis by (intro that) auto
next
  case (Some a)
  obtain entry where e: "map_of (dc_lru d) a = Some entry"
    "(a, entry) \<in> set (dc_lru d)" "de_year entry = year"
    using dc_wf_entry [OF wf Some] .
  have "fst x \<noteq> a \<longleftrightarrow> de_year (snd x) \<noteq> year" if "x \<in> set (dc_lru d)" for x
    using same_year [OF dc_wfD(3) [OF wf], of "fst x" "snd x" a entry]
      same_elem [OF dc_wfD(2) [OF wf], of a "snd x" entry] that e by (cases x) auto
  then have "filter (\<lambda>x. fst x \<noteq> a) (dc_lru d) = filter (\<lambda>x. de_year (snd x) \<noteq> year) (dc_lru d)"
    by (rule filter_cong [OF refl])
  with Some e wf show thesis
    by (intro that [of "without a entry d"]) (simp_all add: remove_elem_without without_wf)
qed

lemma bounded_filter:
  assumes "dc_wf d" "dc_bounded d" "dc_wf d'" "dc_lru d' = filter P (dc_lru d)"
    and "maxYears d' = maxYears d" "maxBytes d' = maxBytes d"
  shows "dc_bounded d'"
proof (cases "dc_lru d = []")
  case True
  with assms(4) show ?thesis by (simp add: dc_bounded_def)
next
  case False
  have "lru_bytes (filter P xs) \<le> lru_bytes xs" if "\<forall>x \<in> set xs. 0 \<le> de_size (snd x)" for xs
    using that by (induction xs) auto
  moreover have "\<forall>x \<in> set (dc_lru d). 0 \<le> de_size (snd x)"
    using dc_wfD(6) [OF assms(1)] by auto
  ultimately have "dc_bytes d' \<le> dc_bytes d"
    using dc_wfD(7) [OF assms(1)] dc_wfD(7) [OF assms(3)] assms(4) by simp
  moreover have "int (length (dc_lru d')) \<le> int (length (dc_lru d))"
    using assms(4) by simp
  ultimately show ?thesis
    using False assms(2,5,6) unfolding dc_bounded_def by linarith
qed

lemma invalidate_spec:
  assumes "dc_wf d" "dc_bounded d"
  shows "\<exists>d'. invalidate year everything close d = Some d' \<and> dc_wf d' \<and> dc_bounded d'
    \<and> generation d' = generation d + 1 \<and> (closed d' \<longleftrightarrow> closed d \<or> close)
    \<and> maxYears d' = maxYears d \<and> maxBytes d' = maxBytes d
    \<and> dc_lru d' = (if everything then [] else filter (\<lambda>x. de_year (snd x) \<noteq> year) (dc_lru d))"
proof -
  let ?d1 = "d\<lparr>generation := generation d + 1, closed := closed d \<or> close\<rparr>"
  have wf1: "dc_wf ?d1" using assms(1) by (simp add: dc_wf_def)
  show ?thesis
  proof (cases everything)
    case True
    then show ?thesis
      by (simp add: invalidate_def dc_wf_def dc_bounded_def wf_rules)
  next
    case False
    from remove_year [OF wf1, of year] obtain d' where d':
      "(case mget (dc_entries ?d1) year of None \<Rightarrow> Some ?d1 | Some a \<Rightarrow> remove_elem a ?d1) = Some d'"
      "dc_wf d'" "dc_lru d' = filter (\<lambda>x. de_year (snd x) \<noteq> year) (dc_lru ?d1)"
      "generation d' = generation ?d1" "closed d' = closed ?d1" "maxYears d' = maxYears ?d1"
      "maxBytes d' = maxBytes ?d1"
      by blast
    have "dc_bounded d'"
      by (rule bounded_filter [OF assms d'(2)]) (use d' in simp_all)
    with d' False show ?thesis by (simp add: invalidate_def Let_def)
  qed
qed

definition view :: "decoded_cache \<Rightarrow> decoded_entry list" where
  "view d = map snd (dc_lru d)"

definition abs_admit :: "int \<Rightarrow> int \<Rightarrow> decoded_entry \<Rightarrow> decoded_entry list \<Rightarrow> decoded_entry list" where
  "abs_admit years budget en es =
     en # fit de_size (years - 1) (budget - de_size en) (filter (\<lambda>e. de_year e \<noteq> de_year en) es)"

lemma admit_spec:
  fixes caps shs
  assumes "dc_wf d" "dc_bounded d"
  defines "sz \<equiv> decodedYearSize caps shs"
  shows "\<exists>d'. admit caps year raw shs gen d = Some d' \<and> dc_wf d' \<and> dc_bounded d'
    \<and> generation d' = generation d \<and> closed d' = closed d
    \<and> maxYears d' = maxYears d \<and> maxBytes d' = maxBytes d
    \<and> (if closed d \<or> gen \<noteq> generation d \<or> maxYears d \<le> 0 \<or> maxBytes d < sz then d' = d
       else view d' = abs_admit (maxYears d) (maxBytes d)
         \<lparr>de_year = year, de_raw = raw, de_shows = shs, de_size = sz\<rparr> (view d))"
proof (cases "closed d \<or> gen \<noteq> generation d \<or> maxYears d \<le> 0 \<or> maxBytes d < sz")
  case True
  with assms show ?thesis by (auto simp: admit_def Let_def)
next
  case False
  let ?en = "\<lparr>de_year = year, de_raw = raw, de_shows = shs, de_size = sz\<rparr>"
  from remove_year [OF assms(1), of year] obtain d1 where d1:
    "(case mget (dc_entries d) year of None \<Rightarrow> Some d | Some a \<Rightarrow> remove_elem a d) = Some d1"
    "dc_wf d1" "mget (dc_entries d1) year = None"
    "dc_lru d1 = filter (\<lambda>x. de_year (snd x) \<noteq> year) (dc_lru d)"
    "generation d1 = generation d" "closed d1 = closed d" "maxYears d1 = maxYears d"
    "maxBytes d1 = maxBytes d"
    by blast
  from evict_spec [OF d1(2), of sz] False d1 obtain d2 where d2: "evict sz d1 = Some d2" "dc_wf d2"
    "dc_lru d2 = fit (\<lambda>x. de_size (snd x)) (maxYears d - 1) (maxBytes d - sz) (dc_lru d1)"
    "int (length (dc_lru d2)) < maxYears d" "dc_bytes d2 + sz \<le> maxBytes d"
    "generation d2 = generation d" "closed d2 = closed d" "maxYears d2 = maxYears d"
    "maxBytes d2 = maxBytes d"
    by auto
  obtain n where "dc_lru d2 = take n (dc_lru d1)" using d2(3) fit_prefix by metis
  then have sub: "set (dc_lru d2) \<subseteq> set (dc_lru d1)" by (simp add: set_take_subset)
  have absent: "mget (dc_entries d2) year = None"
  proof (cases "mget (dc_entries d2) year")
    case (Some a)
    then obtain e where "(a, e) \<in> set (dc_lru d2)" "de_year e = year"
      using dc_wfD(4) [OF d2(2)] by auto
    with sub d1(4) show ?thesis by auto
  qed
  have sz: "0 \<le> sz" by (simp add: sz_def decodedYearSize_nonneg)
  have run: "admit caps year raw shs gen d = Some (push_front ?en d2)"
    using False d1(1) d2(1) by (simp add: admit_def sz_def Let_def)
  moreover have "dc_wf (push_front ?en d2)"
    by (rule push_front_wf [OF d2(2)]) (use absent sz in simp_all)
  moreover have "dc_bounded (push_front ?en d2)"
    using d2(4,5,8,9) by (simp add: dc_bounded_def)
  moreover have "view (push_front ?en d2) = abs_admit (maxYears d) (maxBytes d) ?en (view d)"
    using d2(3) d1(4) by (simp add: view_def abs_admit_def filter_map fit_map o_def)
  ultimately show ?thesis using False d2(6-9) by simp
qed

section \<open>Lookups on the abstract list\<close>

definition abs_lookup ::
    "int \<Rightarrow> string \<Rightarrow> bool \<Rightarrow> bool \<Rightarrow> decoded_entry list \<Rightarrow>
     anilist_show list option \<times> decoded_entry list" where
  "abs_lookup year raw present current es =
     (case find (\<lambda>e. de_year e = year) es of
        None \<Rightarrow> (None, es)
      | Some e \<Rightarrow>
          if present \<and> raw = de_raw e
          then (Some (de_shows e), e # filter (\<lambda>e. de_year e \<noteq> year) es)
          else if current then (None, filter (\<lambda>e. de_year e \<noteq> year) es)
          else (None, es))"

lemma find_unique:
  assumes "distinct (map f xs)" "x \<in> set xs"
  shows "find (\<lambda>y. f y = f x) xs = Some x"
  using assms by (induction xs) auto

lemma lookup_view:
  assumes "dc_wf d" "lookup year raw present gen d = Some (r, d')"
  shows "(r, view d') = abs_lookup year raw present (gen = generation d) (view d)"
proof (cases "mget (dc_entries d) year")
  case None
  have "\<forall>e \<in> set (view d). de_year e \<noteq> year"
    using None dc_wfD(4) [OF assms(1), of year] by (fastforce simp: view_def)
  then have "find (\<lambda>e. de_year e = year) (view d) = None"
    by (simp add: find_None_iff)
  with None assms(2) show ?thesis by (simp add: lookup_def abs_lookup_def)
next
  case (Some a)
  obtain entry where e: "map_of (dc_lru d) a = Some entry"
    "(a, entry) \<in> set (dc_lru d)" "de_year entry = year"
    using dc_wf_entry [OF assms(1) Some] .
  have "fst x \<noteq> a \<longleftrightarrow> de_year (snd x) \<noteq> year" if "x \<in> set (dc_lru d)" for x
    using same_year [OF dc_wfD(3) [OF assms(1)], of "fst x" "snd x" a entry]
      same_elem [OF dc_wfD(2) [OF assms(1)], of a "snd x" entry] that e by (cases x) auto
  then have filt: "filter (\<lambda>x. fst x \<noteq> a) (dc_lru d) = filter (\<lambda>x. de_year (snd x) \<noteq> year) (dc_lru d)"
    by (rule filter_cong [OF refl])
  have dist: "distinct (map de_year (view d))"
    using dc_wfD(3) [OF assms(1)] by (simp add: view_def o_def)
  have "entry \<in> set (view d)"
    using e(2) by (force simp: view_def)
  with dist have "find (\<lambda>e. de_year e = year) (view d) = Some entry"
    using find_unique [of de_year "view d" entry] e(3) by simp
  with Some e filt assms(2) show ?thesis
    by (auto simp: lookup_def abs_lookup_def move_to_front_def remove_elem_without view_def
        filter_map o_def split: if_splits)
qed

section \<open>The interface of the cache: a memo of the decoder\<close>

text \<open>
  What a reader of a year relies on: no operation fails, and every entry handed out is what the
  decoder makes of the very bytes that were asked for.
\<close>

locale decode_memo =
  fixes find_year :: "int \<Rightarrow> string \<Rightarrow> bool \<Rightarrow> 'g \<Rightarrow> 'c \<Rightarrow> ('v option \<times> 'c) option"
    and fill :: "'k \<Rightarrow> int \<Rightarrow> string \<Rightarrow> 'v \<Rightarrow> 'g \<Rightarrow> 'c \<Rightarrow> 'c option"
    and drop_years :: "int \<Rightarrow> bool \<Rightarrow> bool \<Rightarrow> 'c \<Rightarrow> 'c option"
    and ok :: "(string \<Rightarrow> 'v option) \<Rightarrow> 'c \<Rightarrow> bool"
  assumes find_total: "ok dec c \<Longrightarrow> \<exists>r c'. find_year y raw present g c = Some (r, c')"
    and find_ok: "ok dec c \<Longrightarrow> find_year y raw present g c = Some (r, c') \<Longrightarrow> ok dec c'"
    and find_value: "ok dec c \<Longrightarrow> find_year y raw present g c = Some (Some v, c') \<Longrightarrow>
          present \<and> dec raw = Some v"
    and fill_ok: "ok dec c \<Longrightarrow> dec raw = Some v \<Longrightarrow> \<exists>c'. fill k y raw v g c = Some c' \<and> ok dec c'"
    and drop_ok: "ok dec c \<Longrightarrow> \<exists>c'. drop_years y everything close c = Some c' \<and> ok dec c'"
begin

text \<open>A hit and a miss followed by decoding give the same result.\<close>

lemma read_value:
  assumes "ok dec c" "find_year y raw True g c = Some (r, c')"
  shows "(case r of Some v \<Rightarrow> Some v | None \<Rightarrow> dec raw) = dec raw"
  using find_value [OF assms(1)] assms(2) by (cases r) auto

lemma find_then_fill:
  assumes "ok dec c" "find_year y raw True g c = Some (None, c')" "dec raw = Some v"
  shows "\<exists>c''. fill k y raw v g c' = Some c'' \<and> ok dec c''"
  using assms find_ok fill_ok by blast

end

definition dc_ok :: "(string \<Rightarrow> anilist_show list option) \<Rightarrow> decoded_cache \<Rightarrow> bool" where
  "dc_ok dec d \<longleftrightarrow> dc_wf d \<and> dc_bounded d \<and> dc_coherent dec d"

lemma dc_coherent_mono:
  "dc_coherent dec d \<Longrightarrow> set (dc_lru d') \<subseteq> set (dc_lru d) \<Longrightarrow> dc_coherent dec d'"
  by (auto simp: dc_coherent_def)

lemma dc_coherent_view: "dc_coherent dec d \<longleftrightarrow> (\<forall>e \<in> set (view d). dec (de_raw e) = Some (de_shows e))"
  by (auto simp: dc_coherent_def view_def)

lemma set_fit: "set (fit f room budget xs) \<subseteq> set xs"
  using fit_prefix [of f room budget xs] by (metis set_take_subset)

lemma admit_coherent:
  assumes "dc_ok dec d" "dec raw = Some shs"
  shows "\<exists>d'. admit caps year raw shs gen d = Some d' \<and> dc_ok dec d'"
proof -
  let ?sz = "decodedYearSize caps shs"
  let ?en = "\<lparr>de_year = year, de_raw = raw, de_shows = shs, de_size = ?sz\<rparr>"
  obtain d' where d': "admit caps year raw shs gen d = Some d'" "dc_wf d'" "dc_bounded d'"
    "d' = d \<or> view d' = abs_admit (maxYears d) (maxBytes d) ?en (view d)"
    using admit_spec [of d caps year raw shs gen] assms(1) by (auto simp: dc_ok_def split: if_splits)
  have "set (abs_admit (maxYears d) (maxBytes d) ?en (view d)) \<subseteq> insert ?en (set (view d))"
    using set_fit by (fastforce simp: abs_admit_def)
  then have "dc_coherent dec d'"
    using d'(4) assms by (auto simp: dc_ok_def dc_coherent_view)
  with d' show ?thesis by (auto simp: dc_ok_def)
qed

interpretation memo: decode_memo lookup admit invalidate dc_ok
proof (unfold_locales, goal_cases)
  case (1 dec c y raw present g)
  then show ?case using lookup_spec [of c y raw present g] by (auto simp: dc_ok_def)
next
  case (2 dec c y raw present g r c')
  then show ?case
    using lookup_spec [of c y raw present g] by (auto simp: dc_ok_def intro: dc_coherent_mono)
next
  case (3 dec c y raw present g v c')
  then show ?case
    using lookup_spec [of c y raw present g] by (fastforce simp: dc_ok_def dc_coherent_def)
next
  case (4 dec c raw v k y g)
  then show ?case by (rule admit_coherent)
next
  case (5 dec c y everything close)
  then obtain c' where c': "invalidate y everything close c = Some c'" "dc_wf c'" "dc_bounded c'"
    "dc_lru c' = (if everything then [] else filter (\<lambda>x. de_year (snd x) \<noteq> y) (dc_lru c))"
    using invalidate_spec [of c y everything close] by (auto simp: dc_ok_def)
  with 5 have "dc_coherent dec c'" by (auto simp: dc_ok_def dc_coherent_def)
  with c' show ?case by (auto simp: dc_ok_def)
qed

section \<open>Sequences of critical sections\<close>

text \<open>
  Any number of goroutines run the three critical sections one after the other, in any order and
  with any generation they read earlier.
\<close>

datatype dc_op =
    Lookup int string bool "64 word"
  | Admit capacities int string "anilist_show list" "64 word"
  | Invalidate int bool bool

fun dc_step :: "dc_op \<Rightarrow> decoded_cache \<Rightarrow> decoded_cache option" where
  "dc_step (Lookup y raw present g) d = map_option snd (lookup y raw present g d)"
| "dc_step (Admit caps y raw shs g) d = admit caps y raw shs g d"
| "dc_step (Invalidate y everything close) d = invalidate y everything close d"

fun dc_run :: "dc_op list \<Rightarrow> decoded_cache \<Rightarrow> decoded_cache option" where
  "dc_run [] d = Some d"
| "dc_run (op # ops) d = (case dc_step op d of None \<Rightarrow> None | Some d' \<Rightarrow> dc_run ops d')"

fun decoded_by :: "(string \<Rightarrow> anilist_show list option) \<Rightarrow> dc_op \<Rightarrow> bool" where
  "decoded_by dec (Admit caps y raw shs g) = (dec raw = Some shs)"
| "decoded_by dec _ = True"

fun is_invalidation :: "dc_op \<Rightarrow> bool" where
  "is_invalidation (Invalidate y everything close) = True"
| "is_invalidation _ = False"

lemma dc_step_ok:
  assumes "dc_ok dec d" "decoded_by dec op"
  shows "\<exists>d'. dc_step op d = Some d' \<and> dc_ok dec d' \<and> maxYears d' = maxYears d \<and> maxBytes d' = maxBytes d
    \<and> generation d' = generation d + of_bool (is_invalidation op)"
proof (cases op)
  case (Lookup y raw present g)
  with assms(1) show ?thesis
    using lookup_spec [of d y raw present g]
    by (auto simp: dc_ok_def intro: dc_coherent_mono)
next
  case (Admit caps y raw shs g)
  with assms show ?thesis
    using admit_spec [of d caps y raw shs g] admit_coherent [OF assms(1), of raw shs caps y g]
    by (auto simp: dc_ok_def)
next
  case (Invalidate y everything close)
  with assms(1) show ?thesis
    using invalidate_spec [of d y everything close] memo.drop_ok [OF assms(1), of y everything close]
    by (auto simp: dc_ok_def)
qed

lemma dc_run_ok:
  "dc_ok dec d \<Longrightarrow> list_all (decoded_by dec) ops \<Longrightarrow>
    \<exists>d'. dc_run ops d = Some d' \<and> dc_ok dec d' \<and> maxYears d' = maxYears d \<and> maxBytes d' = maxBytes d
      \<and> generation d' = generation d + of_nat (length (filter is_invalidation ops))"
proof (induction ops arbitrary: d)
  case Nil
  then show ?case by simp
next
  case (Cons op ops)
  obtain d1 where d1: "dc_step op d = Some d1" "dc_ok dec d1" "maxYears d1 = maxYears d"
    "maxBytes d1 = maxBytes d" "generation d1 = generation d + of_bool (is_invalidation op)"
    using dc_step_ok [OF Cons.prems(1)] Cons.prems(2) by auto
  show ?case
    using Cons.IH [OF d1(2)] Cons.prems(2) d1 by (auto simp: algebra_simps)
qed

lemma new_dc_ok: "dc_ok dec newDecodedYearCache"
  using newDecodedYearCache_wf by (simp add: dc_ok_def dc_coherent_def newDecodedYearCache_def)

text \<open>
  Claim C6. However the critical sections of the decoded-year cache are interleaved, none of them
  dereferences a missing list element, the cache never holds more than 8 years or 32 MiB, and a
  reader that asks for a year with some raw bytes gets, on a hit, exactly what decoding those bytes
  gives.
\<close>

theorem decoded_cache_transparent:
  assumes "list_all (decoded_by dec) ops"
  shows "\<exists>d r d'. dc_run ops newDecodedYearCache = Some d
    \<and> length (dc_lru d) \<le> 8 \<and> dc_bytes d \<le> 32 * 2 ^ 20
    \<and> lookup year raw True gen d = Some (r, d')
    \<and> (case r of Some shs \<Rightarrow> Some shs | None \<Rightarrow> dec raw) = dec raw"
proof -
  obtain d where d: "dc_run ops newDecodedYearCache = Some d" "dc_ok dec d" "maxYears d = 8"
    "maxBytes d = 32 * 2 ^ 20"
    using dc_run_ok [OF new_dc_ok assms] by (auto simp: newDecodedYearCache_def)
  obtain r d' where look: "lookup year raw True gen d = Some (r, d')"
    using memo.find_total [OF d(2)] by blast
  have "length (dc_lru d) \<le> 8" "dc_bytes d \<le> 32 * 2 ^ 20"
    using d(2-4) dc_wfD(7) [of d] by (auto simp: dc_ok_def dc_bounded_def)
  with d(1) look memo.read_value [OF d(2) look] show ?thesis by blast
qed

lemma decoded_cache_transparent_witness:
  "\<exists>d r d'. dc_run [Admit \<lparr>raw_cap = 2, shows_cap = 0, tag_edge_caps = []\<rparr> 2024 ''[]'' [] 0, Invalidate 2023 False False]
      newDecodedYearCache = Some d
    \<and> length (dc_lru d) \<le> 8 \<and> dc_bytes d \<le> 32 * 2 ^ 20
    \<and> lookup 2024 ''[]'' True 1 d = Some (r, d')
    \<and> (case r of Some shs \<Rightarrow> Some shs | None \<Rightarrow> (\<lambda>_. Some []) ''[]'') = Some []"
  by (rule decoded_cache_transparent [of "\<lambda>_. Some []"]) simp

text \<open>
  A lookup refines the lookup on the list of entries in order of use: a hit needs the very
  bytes that were decoded and moves the entry to the front; other bytes under the current generation
  drop the entry, under an older one leave it.
\<close>

lemma decoded_lookup_refines:
  assumes "dc_wf d" "dc_bounded d"
  shows "\<exists>r d'. lookup year raw present gen d = Some (r, d') \<and> dc_wf d' \<and> dc_bounded d'
    \<and> (r, view d') = abs_lookup year raw present (gen = generation d) (view d)"
  using lookup_spec [OF assms, of year raw present gen] lookup_view [OF assms(1)] by blast

lemma decoded_lookup_refines_witness:
  "\<exists>r d'. lookup 2024 [] True 0 newDecodedYearCache = Some (r, d') \<and> dc_wf d' \<and> dc_bounded d'
    \<and> (r, view d') = (None, [])"
  using decoded_lookup_refines [OF newDecodedYearCache_wf, of 2024 "[]" True 0]
  by (simp add: abs_lookup_def view_def newDecodedYearCache_def)

text \<open>
  Claim C23. An admission under the current generation puts the year in front, drops its older entry
  and keeps the longest run of the most recently used other years that fits both budgets: eviction
  is exactly least recently used. A year larger than the whole budget, a closed cache or an older
  generation change nothing.
\<close>

theorem decoded_admit_refines:
  assumes "dc_wf d" "dc_bounded d"
  shows "\<exists>d'. admit caps year raw shs gen d = Some d' \<and> dc_wf d' \<and> dc_bounded d'
    \<and> view d' = (if closed d \<or> gen \<noteq> generation d \<or> maxYears d \<le> 0 \<or> maxBytes d < decodedYearSize caps shs
        then view d
        else abs_admit (maxYears d) (maxBytes d)
          \<lparr>de_year = year, de_raw = raw, de_shows = shs, de_size = decodedYearSize caps shs\<rparr> (view d))"
  using admit_spec [OF assms, of caps year raw shs gen] by (auto split: if_splits)

lemma decoded_admit_refines_witness:
  "\<exists>d'. admit \<lparr>raw_cap = 2, shows_cap = 0, tag_edge_caps = []\<rparr> 2024 ''[]'' [] 0 newDecodedYearCache = Some d'
    \<and> dc_wf d' \<and> dc_bounded d'
    \<and> view d' = [\<lparr>de_year = 2024, de_raw = ''[]'', de_shows = [], de_size = 106\<rparr>]"
  using decoded_admit_refines [OF newDecodedYearCache_wf,
      of "\<lparr>raw_cap = 2, shows_cap = 0, tag_edge_caps = []\<rparr>" 2024 "''[]''" "[]" 0]
  by (simp add: abs_admit_def view_def newDecodedYearCache_def decodedYearSize_def)

text \<open>
  A decode that began before an invalidation cannot put its result back afterwards: after
  any operations with at least one and fewer than \<open>2 ^ 64\<close> invalidations, an admission under the
  old generation leaves the cache as it is.
\<close>

lemma decoded_stale_admit_refused:
  assumes "dc_ok dec d" "list_all (decoded_by dec) ops" "dc_run ops d = Some d'"
    and "list_ex is_invalidation ops" "length (filter is_invalidation ops) < 2 ^ 64"
  shows "admit caps year raw shs (generation d) d' = Some d'"
proof -
  let ?n = "length (filter is_invalidation ops)"
  have gen: "generation d' = generation d + of_nat ?n"
    using dc_run_ok [OF assms(1,2)] assms(3) by auto
  have "0 < ?n" using assms(4) by (auto simp: list_ex_iff filter_empty_conv)
  then have "(of_nat ?n :: 64 word) \<noteq> 0"
    using assms(5) by (simp add: word_of_nat_eq_0_iff nat_dvd_not_less)
  with gen show ?thesis by (simp add: admit_def Let_def)
qed

lemma decoded_stale_admit_refused_witness:
  "\<exists>d'. dc_run [Invalidate 2024 False False] newDecodedYearCache = Some d' \<and>
    admit \<lparr>raw_cap = 2, shows_cap = 0, tag_edge_caps = []\<rparr> 2024 ''[]'' [] 0 d' = Some d'"
proof -
  obtain d' where d': "dc_run [Invalidate 2024 False False] newDecodedYearCache = Some d'"
    using dc_run_ok [OF new_dc_ok, of "\<lambda>_. None" "[Invalidate 2024 False False]"] by auto
  have "generation newDecodedYearCache = 0" by (simp add: newDecodedYearCache_def)
  with d' decoded_stale_admit_refused [OF new_dc_ok [of "\<lambda>_. None"] _ d'] show ?thesis by auto
qed

end
