(* ===== verification/Year_Cache.thy ===== *)
theory Year_Cache
  imports Decoded_Cache Go_Calendar
begin

text \<open>
  The SQLite-backed cache of years and seen mappings (\<open>internal/cache/cache.go\<close>, and the decoded
  reads of \<open>internal/cache/decoded_year.go\<close>). The two tables are Go-style maps on their primary keys
  and each SQL statement of the source is a function on them. What the database engine decides, how
  an attempt of a statement ends, comes in as an argument; a failed statement leaves the tables as
  they are, which is what SQLite documents for statements and transactions.

  \<^const>\<open>None\<close> as the result of an operation is a panic in the decoded cache.
\<close>

section \<open>Retrying busy statements\<close>

datatype db_err = Busy | DbFault string | CtxErr ctx_err

definition isBusy :: "db_err \<Rightarrow> bool" where
  "isBusy e \<longleftrightarrow> e = Busy"

definition busyRetryAttempts :: nat where
  "busyRetryAttempts = 5"

text \<open>
  \<open>waitBeforeRetry\<close>: how long the timer is set for, given the random jitter, and what it returns.
  The argument \<open>cancelled\<close> is the context error when the context ends before the timer fires.
\<close>

definition retry_backoff :: "nat \<Rightarrow> duration" where
  "retry_backoff attempt = 50 * 2 ^ attempt * (second div 1000)"

definition waitBeforeRetry :: "nat \<Rightarrow> duration \<Rightarrow> ctx_err option \<Rightarrow> duration \<times> ctx_err option" where
  "waitBeforeRetry attempt jitter cancelled = (retry_backoff attempt + jitter, cancelled)"

text \<open>
  The attempts left after this one, the number of this one, the context error of each wait, and the
  function to try, on a state it may change.
\<close>

fun retry_loop ::
    "nat \<Rightarrow> nat \<Rightarrow> (nat \<Rightarrow> ctx_err option) \<Rightarrow> (nat \<Rightarrow> 's \<Rightarrow> (db_err + 'a) \<times> 's) \<Rightarrow> 's \<Rightarrow>
     (db_err + 'a) \<times> 's" where
  "retry_loop left attempt waits fn s =
     (case fn attempt s of
        (Inr v, s') \<Rightarrow> (Inr v, s')
      | (Inl e, s') \<Rightarrow>
          if \<not> isBusy e then (Inl e, s')
          else (case snd (waitBeforeRetry attempt 0 (waits attempt)) of
                  Some c \<Rightarrow> (Inl (CtxErr c), s')
                | None \<Rightarrow>
                    (case left of
                       0 \<Rightarrow> (Inl e, s')
                     | Suc left' \<Rightarrow> retry_loop left' (Suc attempt) waits fn s')))"

declare retry_loop.simps [simp del]

definition retryBusyValue ::
    "(nat \<Rightarrow> ctx_err option) \<Rightarrow> (nat \<Rightarrow> 's \<Rightarrow> (db_err + 'a) \<times> 's) \<Rightarrow> 's \<Rightarrow> (db_err + 'a) \<times> 's" where
  "retryBusyValue waits fn s = retry_loop (busyRetryAttempts - 1) 0 waits fn s"

text \<open>How the attempts of one statement end, and the waits between them.\<close>

record db_env =
  fails :: "nat \<Rightarrow> db_err option"
  waits :: "nat \<Rightarrow> ctx_err option"

definition execResultWithRetry :: "db_env \<Rightarrow> ('s \<Rightarrow> 'a \<times> 's) \<Rightarrow> 's \<Rightarrow> (db_err + 'a) \<times> 's" where
  "execResultWithRetry env stmt s =
     retryBusyValue (waits env)
       (\<lambda>i s. case fails env i of
                Some e \<Rightarrow> (Inl e, s)
              | None \<Rightarrow> (case stmt s of (v, s') \<Rightarrow> (Inr v, s'))) s"

definition queryRowWithRetry :: "db_env \<Rightarrow> ('s \<Rightarrow> 'a) \<Rightarrow> 's \<Rightarrow> db_err + 'a" where
  "queryRowWithRetry env q s = fst (execResultWithRetry env (\<lambda>s. (q s, s)) s)"

text \<open>Whether the attempts fail, and with what; the statement itself runs at most once.\<close>

fun env_error_from :: "nat \<Rightarrow> nat \<Rightarrow> db_env \<Rightarrow> db_err option" where
  "env_error_from left attempt env =
     (case fails env attempt of
        None \<Rightarrow> None
      | Some e \<Rightarrow>
          if \<not> isBusy e then Some e
          else (case waits env attempt of
                  Some c \<Rightarrow> Some (CtxErr c)
                | None \<Rightarrow> (case left of 0 \<Rightarrow> Some e | Suc left' \<Rightarrow> env_error_from left' (Suc attempt) env)))"

declare env_error_from.simps [simp del]

definition env_error :: "db_env \<Rightarrow> db_err option" where
  "env_error env = env_error_from (busyRetryAttempts - 1) 0 env"

lemma retry_loop_once:
  "retry_loop left attempt (waits env)
       (\<lambda>i s. case fails env i of
                Some e \<Rightarrow> (Inl e, s)
              | None \<Rightarrow> (case stmt s of (v, s') \<Rightarrow> (Inr v, s'))) s =
    (case env_error_from left attempt env of
       Some e \<Rightarrow> (Inl e, s)
     | None \<Rightarrow> (Inr (fst (stmt s)), snd (stmt s)))"
proof (induction left arbitrary: attempt)
  case 0
  show ?case
    by (subst retry_loop.simps, subst env_error_from.simps)
      (auto simp: waitBeforeRetry_def split: option.splits prod.splits)
next
  case (Suc left)
  show ?case
    by (subst retry_loop.simps, subst env_error_from.simps)
      (auto simp: waitBeforeRetry_def Suc split: option.splits prod.splits)
qed

lemma execResultWithRetry_eq:
  "execResultWithRetry env stmt s =
    (case env_error env of
       Some e \<Rightarrow> (Inl e, s)
     | None \<Rightarrow> (Inr (fst (stmt s)), snd (stmt s)))"
  by (simp add: execResultWithRetry_def retryBusyValue_def env_error_def retry_loop_once)

lemma queryRowWithRetry_eq:
  "queryRowWithRetry env q s = (case env_error env of Some e \<Rightarrow> Inl e | None \<Rightarrow> Inr (q s))"
  by (simp add: queryRowWithRetry_def execResultWithRetry_eq split: option.splits)

section \<open>State\<close>

record year_row =
  yr_data :: string
  fetched_at :: int
  last_hit :: int

text \<open>The columns of \<open>seen_mappings\<close> outside its key (TVDB id, season, year).\<close>

record seen_row =
  row_anilist :: int
  row_title :: string
  first_seen_at :: int
  starts_at :: string

type_synonym seen_key = "int \<times> string \<times> int"

record seen_mapping =
  sm_TVDBID :: int
  sm_AniListID :: int
  sm_Title :: string
  sm_Season :: string
  sm_Year :: int
  StartsAt :: string
  FirstSeenAt :: int

record cache_stats =
  st_Entries :: nat
  st_Hits :: int
  st_Misses :: int

record cache =
  decoded :: decoded_cache
  year_cache :: "(int, year_row) gomap"
  seen_mappings :: "(seen_key, seen_row) gomap"
  currentYearFreshness :: duration
  pastYearFreshness :: duration
  hits :: int
  misses :: int
  lastHitTimes :: "(int, int) gomap"
  lastHitDebounce :: duration
  lastHitFailed :: "(int, bool) gomap"
  pendingLastHits :: "(int, int) gomap"
  lastHitWake :: bool
  lastHitCancelled :: bool
  lastHitDone :: bool

text \<open>The clock: the instant, and the year \<open>now.Year()\<close> in the local time zone.\<close>

record clock =
  ck_now :: instant
  ck_year :: int

definition unix_now :: "clock \<Rightarrow> int" where
  "unix_now ck = to_unix (ck_now ck)"

text \<open>\<open>openCacheDB\<close>, over the tables the database file holds.\<close>

definition openCacheDB :: "(int, year_row) gomap \<Rightarrow> (seen_key, seen_row) gomap \<Rightarrow> cache" where
  "openCacheDB years seen =
     \<lparr>decoded = newDecodedYearCache, year_cache = years, seen_mappings = seen,
      currentYearFreshness = 24 * hour, pastYearFreshness = 7 * 24 * hour, hits = 0, misses = 0,
      lastHitTimes = [], lastHitDebounce = 5 * minute, lastHitFailed = [], pendingLastHits = [],
      lastHitWake = False, lastHitCancelled = False, lastHitDone = False\<rparr>"

section \<open>Reading years\<close>

definition yearFreshAt :: "cache \<Rightarrow> int \<Rightarrow> int \<Rightarrow> clock \<Rightarrow> bool" where
  "yearFreshAt c year fetched now =
     (let freshnessThreshold =
        (if year = ck_year now then currentYearFreshness c else pastYearFreshness c)
      in time_sub (ck_now now) (of_unix fetched) < freshnessThreshold)"

text \<open>\<open>int64(d.Seconds())\<close>: the whole seconds of a duration, truncated towards zero.\<close>

definition whole_seconds :: "duration \<Rightarrow> int" where
  "whole_seconds d = (if d < 0 then - ((- d) div second) else d div second)"

definition queueLastHit :: "int \<Rightarrow> int \<Rightarrow> int \<Rightarrow> cache \<Rightarrow> cache" where
  "queueLastHit year persisted now c =
     (let (prev, c1) =
        (case mget (lastHitTimes c) year of
           Some scheduled \<Rightarrow> (scheduled, c)
         | None \<Rightarrow> (persisted, c\<lparr>lastHitTimes := mput year persisted (lastHitTimes c)\<rparr>));
        debounceSeconds = whole_seconds (lastHitDebounce c1)
      in if wrap64 (now - prev) < debounceSeconds then c1
         else c1\<lparr>lastHitTimes := mput year now (lastHitTimes c1),
                 pendingLastHits := mput year now (pendingLastHits c1),
                 lastHitWake := True\<rparr>)"

text \<open>The result of a read: the bytes, whether they are fresh, whether the year is there.\<close>

definition readYearContext ::
    "db_env \<Rightarrow> clock \<Rightarrow> int \<Rightarrow> bool \<Rightarrow> cache \<Rightarrow> (db_err + (string \<times> bool \<times> bool)) \<times> cache" where
  "readYearContext env now year recordAccess c =
     (case queryRowWithRetry env (\<lambda>c. mget (year_cache c) year) c of
        Inl e \<Rightarrow> (Inl e, c)
      | Inr None \<Rightarrow>
          (Inr ([], False, False), if recordAccess then c\<lparr>misses := wrap64 (misses c + 1)\<rparr> else c)
      | Inr (Some row) \<Rightarrow>
          (let c1 = (if recordAccess
                     then queueLastHit year (last_hit row) (unix_now now) (c\<lparr>hits := wrap64 (hits c + 1)\<rparr>)
                     else c)
           in (Inr (yr_data row, yearFreshAt c1 year (fetched_at row) now, True), c1)))"

definition GetYearContext where
  "GetYearContext env now year c = readYearContext env now year True c"

definition PeekYearContext where
  "PeekYearContext env now year c = readYearContext env now year False c"

text \<open>An empty list of years pings the database (whose answer is \<open>ping\<close>).\<close>

definition HasYearsContext ::
    "db_env \<Rightarrow> db_err option \<Rightarrow> int list \<Rightarrow> cache \<Rightarrow> db_err + bool" where
  "HasYearsContext env ping years c =
     (if years = [] then (case ping of Some e \<Rightarrow> Inl e | None \<Rightarrow> Inr True)
      else
        (let unique = mkeys (fold (\<lambda>y. mput y ()) years [])
         in (case queryRowWithRetry env
                    (\<lambda>c. length (filter (\<lambda>y. List.member unique y) (mkeys (year_cache c)))) c of
               Inl e \<Rightarrow> Inl e
             | Inr count \<Rightarrow> Inr (count = length unique))))"

text \<open>Days as a \<open>time.Duration\<close>: two 64-bit multiplications.\<close>

definition days_duration :: "int \<Rightarrow> duration" where
  "days_duration d = wrap64 (wrap64 (d * 24) * hour)"

definition needs_refresh :: "clock \<Rightarrow> int \<Rightarrow> int \<Rightarrow> int \<Rightarrow> int \<Rightarrow> int \<Rightarrow> bool" where
  "needs_refresh now currentYear currentRefreshDays pastRefreshDays year fetched =
     (let ttl = (if year = currentYear then days_duration currentRefreshDays
                 else days_duration pastRefreshDays)
      in ttl < time_sub (ck_now now) (of_unix fetched))"

definition NeedsRefreshYearsContext ::
    "db_env \<Rightarrow> clock \<Rightarrow> int \<Rightarrow> int \<Rightarrow> int \<Rightarrow> cache \<Rightarrow> db_err + int list" where
  "NeedsRefreshYearsContext env now currentYear currentRefreshDays pastRefreshDays c =
     queryRowWithRetry env
       (\<lambda>c. map fst (filter
          (\<lambda>(year, row). needs_refresh now currentYear currentRefreshDays pastRefreshDays year (fetched_at row))
          (year_cache c))) c"

definition StatsContext :: "db_env \<Rightarrow> cache \<Rightarrow> cache_stats \<times> db_err option" where
  "StatsContext env c =
     (let stats = \<lparr>st_Entries = 0, st_Hits = hits c, st_Misses = misses c\<rparr>
      in (case queryRowWithRetry env (\<lambda>c. length (mkeys (year_cache c))) c of
            Inl e \<Rightarrow> (stats, Some e)
          | Inr n \<Rightarrow> (stats\<lparr>st_Entries := n\<rparr>, None)))"

definition CountSeenMappings :: "db_env \<Rightarrow> cache \<Rightarrow> db_err + nat" where
  "CountSeenMappings env c = queryRowWithRetry env (\<lambda>c. length (mkeys (seen_mappings c))) c"

section \<open>Writing years\<close>

text \<open>\<open>INSERT INTO year_cache \<dots> ON CONFLICT(year) DO UPDATE SET \<dots>\<close>\<close>

definition upsert_year :: "int \<Rightarrow> string \<Rightarrow> int \<Rightarrow> (int, year_row) gomap \<Rightarrow> (int, year_row) gomap" where
  "upsert_year year data now t =
     (case mget t year of
        None \<Rightarrow> mput year \<lparr>yr_data = data, fetched_at = now, last_hit = now\<rparr> t
      | Some r \<Rightarrow>
          mput year \<lparr>yr_data = data, fetched_at = now,
                     last_hit = (if 0 < last_hit r then last_hit r else fetched_at r)\<rparr> t)"

definition SetYearContext ::
    "db_env \<Rightarrow> clock \<Rightarrow> int \<Rightarrow> string \<Rightarrow> cache \<Rightarrow> (db_err option \<times> cache) option" where
  "SetYearContext env now year data c =
     (case execResultWithRetry env
             (\<lambda>c. ((), c\<lparr>year_cache := upsert_year year data (unix_now now) (year_cache c)\<rparr>)) c of
        (Inl e, c1) \<Rightarrow> Some (Some e, c1)
      | (Inr _, c1) \<Rightarrow>
          map_option (\<lambda>d. (None, c1\<lparr>decoded := d\<rparr>)) (invalidate year False False (decoded c1)))"

definition ClearContext :: "db_env \<Rightarrow> cache \<Rightarrow> (db_err option \<times> cache) option" where
  "ClearContext env c =
     (case execResultWithRetry env (\<lambda>c. ((), c\<lparr>year_cache := []\<rparr>)) c of
        (Inl e, c1) \<Rightarrow> Some (Some e, c1)
      | (Inr _, c1) \<Rightarrow>
          map_option
            (\<lambda>d. (None, c1\<lparr>decoded := d, hits := 0, misses := 0, lastHitTimes := [],
                          pendingLastHits := [], lastHitFailed := []\<rparr>))
            (invalidate 0 True False (decoded c1)))"

definition VacuumContext :: "db_env \<Rightarrow> cache \<Rightarrow> db_err option \<times> cache" where
  "VacuumContext env c =
     (case execResultWithRetry env (\<lambda>c. ((), c)) c of
        (Inl e, c1) \<Rightarrow> (Some e, c1)
      | (Inr _, c1) \<Rightarrow> (None, c1))"

text \<open>\<open>CASE WHEN last_hit > 0 THEN last_hit ELSE fetched_at END\<close>\<close>

definition last_access :: "year_row \<Rightarrow> int" where
  "last_access r = (if 0 < last_hit r then last_hit r else fetched_at r)"

definition prune_cutoff :: "clock \<Rightarrow> int \<Rightarrow> int" where
  "prune_cutoff now days = to_unix (ck_now now + wrap64 (wrap64 (- days * 24) * hour))"

definition delete_stale ::
    "int \<Rightarrow> int list \<Rightarrow> (int, year_row) gomap \<Rightarrow> nat \<times> (int, year_row) gomap" where
  "delete_stale cutoff pendingYears t =
     (let kept = filter (\<lambda>(year, r). \<not> (last_access r < cutoff \<and> \<not> List.member pendingYears year)) t
      in (length t - length kept, kept))"

text \<open>
  The pending years are read under the mutex, then the statement runs; \<open>meanwhile\<close> is what other
  goroutines do in between, \<open>affected\<close> the error of \<open>RowsAffected\<close>.
\<close>

definition PruneStaleYearsContext ::
    "db_env \<Rightarrow> db_err option \<Rightarrow> (cache \<Rightarrow> cache) \<Rightarrow> clock \<Rightarrow> int \<Rightarrow> cache \<Rightarrow>
     ((db_err + nat) \<times> cache) option" where
  "PruneStaleYearsContext env affected meanwhile now days c =
     (let cutoff = prune_cutoff now days;
          pendingYears = map fst (filter (\<lambda>(year, hit). cutoff \<le> hit) (pendingLastHits c))
      in (case execResultWithRetry env
                 (\<lambda>c. case delete_stale cutoff pendingYears (year_cache c) of
                        (n, t) \<Rightarrow> (n, c\<lparr>year_cache := t\<rparr>)) (meanwhile c) of
            (Inl e, c1) \<Rightarrow> Some (Inl e, c1)
          | (Inr n, c1) \<Rightarrow>
              (case (if affected \<noteq> None \<or> 0 < n
                     then invalidate 0 True False (decoded c1) else Some (decoded c1)) of
                 None \<Rightarrow> None
               | Some d \<Rightarrow>
                   Some (case affected of Some e \<Rightarrow> Inl e | None \<Rightarrow> Inr n, c1\<lparr>decoded := d\<rparr>))))"

section \<open>The last-hit worker\<close>

record flush_env =
  conn_err :: "db_err option"
  pragma_err :: "db_err option"
  update_err :: "db_err option"
  reset_err :: "db_err option"
  close_err :: "db_err option"

text \<open>\<open>UPDATE year_cache SET last_hit = MAX(last_hit, CASE year \<dots>) WHERE year IN (\<dots>)\<close>\<close>

definition update_last_hits :: "(int, int) gomap \<Rightarrow> (int, year_row) gomap \<Rightarrow> (int, year_row) gomap" where
  "update_last_hits batch t =
     map (\<lambda>(year, r). (year, case mget batch year of
                               None \<Rightarrow> r
                             | Some ts \<Rightarrow> r\<lparr>last_hit := max (last_hit r) ts\<rparr>)) t"

definition flush_write ::
    "flush_env \<Rightarrow> (int, int) gomap \<Rightarrow> (int, year_row) gomap \<Rightarrow> db_err option \<times> (int, year_row) gomap" where
  "flush_write env batch t =
     (case conn_err env of
        Some e \<Rightarrow> (Some e, t)
      | None \<Rightarrow>
          (let (err, t1) =
             (case pragma_err env of
                Some e \<Rightarrow> (Some e, t)
              | None \<Rightarrow>
                  (case update_err env of
                     Some e \<Rightarrow> (Some e, t)
                   | None \<Rightarrow> (None, update_last_hits batch t)));
             err1 = (if err = None then reset_err env else err);
             err2 = (if err1 = None then close_err env else err1)
           in (err2, t1)))"

text \<open>After the write: failures are remembered; on success what the batch covered is no longer pending.\<close>

definition settle_pending :: "(int, int) gomap \<Rightarrow> (int, int) gomap \<Rightarrow> (int, int) gomap" where
  "settle_pending batch pending =
     fold (\<lambda>(year, ts) p. case mget p year of
                             Some hit \<Rightarrow> if hit \<le> ts then mdel year p else p
                           | None \<Rightarrow> p) batch pending"

definition flush_finish :: "(int, int) gomap \<Rightarrow> db_err option \<Rightarrow> cache \<Rightarrow> cache" where
  "flush_finish batch err c =
     (case err of
        Some _ \<Rightarrow> c\<lparr>lastHitFailed := fold (\<lambda>(year, _). mput year True) batch (lastHitFailed c)\<rparr>
      | None \<Rightarrow>
          c\<lparr>pendingLastHits := settle_pending batch (pendingLastHits c),
            lastHitFailed := fold (\<lambda>(year, _). mdel year) batch (lastHitFailed c)\<rparr>)"

text \<open>
  \<open>before\<close> is what other goroutines do between the copy of the pending map and the write, \<open>after\<close>
  what they do between the write and the settling.
\<close>

definition flushLastHits ::
    "flush_env \<Rightarrow> (cache \<Rightarrow> cache) \<Rightarrow> (cache \<Rightarrow> cache) \<Rightarrow> cache \<Rightarrow> cache" where
  "flushLastHits env before after c =
     (let batch = pendingLastHits c in
      if batch = [] then c
      else (let c1 = before c in
            case flush_write env batch (year_cache c1) of
              (err, t) \<Rightarrow> flush_finish batch err (after (c1\<lparr>year_cache := t\<rparr>))))"

text \<open>
  The worker's \<open>select\<close>: a wake-up, a tick, or the end of its context, each with how the flush it
  starts goes. After the last one it has signalled \<open>lastHitDone\<close>.
\<close>

datatype worker_event = Woken | Ticked | Stopped

fun runLastHitWorker ::
    "(worker_event \<times> flush_env \<times> (cache \<Rightarrow> cache) \<times> (cache \<Rightarrow> cache)) list \<Rightarrow> cache \<Rightarrow> cache" where
  "runLastHitWorker [] c = c"
| "runLastHitWorker ((ev, env, before, after) # evs) c =
     (case ev of
        Woken \<Rightarrow> runLastHitWorker evs (flushLastHits env before after (c\<lparr>lastHitWake := False\<rparr>))
      | Ticked \<Rightarrow> runLastHitWorker evs (flushLastHits env before after c)
      | Stopped \<Rightarrow> (flushLastHits env before after c)\<lparr>lastHitDone := True\<rparr>)"

text \<open>
  \<open>Close\<close>: the first call invalidates and cancels; every call waits for the worker, whose final flush
  is \<open>final\<close> unless it has already stopped, and returns what closing the database gives.
\<close>

definition Close ::
    "flush_env \<Rightarrow> db_err option \<Rightarrow> cache \<Rightarrow> (db_err option \<times> cache) option" where
  "Close final db_close c =
     (case (if lastHitCancelled c then Some c
            else map_option (\<lambda>d. c\<lparr>decoded := d, lastHitCancelled := True\<rparr>)
                   (invalidate 0 True True (decoded c))) of
        None \<Rightarrow> None
      | Some c1 \<Rightarrow>
          Some (db_close,
            if lastHitDone c1 then c1
            else runLastHitWorker [(Stopped, final, \<lambda>x. x, \<lambda>x. x)] c1))"

section \<open>Seen mappings\<close>

record tx_env =
  begin_err :: "db_err option"
  prepare_err :: "db_err option"
  insert_err :: "nat \<Rightarrow> db_err option"
  commit_err :: "db_err option"

definition seen_key_of :: "seen_mapping \<Rightarrow> seen_key" where
  "seen_key_of m = (sm_TVDBID m, sm_Season m, sm_Year m)"

text \<open>\<open>INSERT OR IGNORE INTO seen_mappings\<close>, and the rows affected.\<close>

definition insert_or_ignore ::
    "int \<Rightarrow> seen_mapping \<Rightarrow> (seen_key, seen_row) gomap \<Rightarrow> nat \<times> (seen_key, seen_row) gomap" where
  "insert_or_ignore now m t =
     (case mget t (seen_key_of m) of
        Some _ \<Rightarrow> (0, t)
      | None \<Rightarrow>
          (1, mput (seen_key_of m)
                \<lparr>row_anilist = sm_AniListID m, row_title = sm_Title m, first_seen_at = now,
                 starts_at = StartsAt m\<rparr> t))"

fun insert_loop ::
    "(nat \<Rightarrow> db_err option) \<Rightarrow> nat \<Rightarrow> int \<Rightarrow> seen_mapping list \<Rightarrow> seen_mapping list \<Rightarrow>
     (seen_key, seen_row) gomap \<Rightarrow> db_err + (seen_mapping list \<times> (seen_key, seen_row) gomap)" where
  "insert_loop errs i now [] newMappings t = Inr (newMappings, t)"
| "insert_loop errs i now (m # ms) newMappings t =
     (case errs i of
        Some e \<Rightarrow> Inl e
      | None \<Rightarrow>
          (case insert_or_ignore now m t of
             (n, t1) \<Rightarrow>
               insert_loop errs (Suc i) now ms
                 (if 0 < n then newMappings @ [m\<lparr>FirstSeenAt := now\<rparr>] else newMappings) t1))"

text \<open>One transaction; an error before or at the commit rolls it back.\<close>

definition markSeenMappingsOnce ::
    "tx_env \<Rightarrow> int \<Rightarrow> seen_mapping list \<Rightarrow> cache \<Rightarrow> (db_err + seen_mapping list) \<times> cache" where
  "markSeenMappingsOnce tx now ms c =
     (case begin_err tx of
        Some e \<Rightarrow> (Inl e, c)
      | None \<Rightarrow>
          (case prepare_err tx of
             Some e \<Rightarrow> (Inl e, c)
           | None \<Rightarrow>
               (case insert_loop (insert_err tx) 0 now ms [] (seen_mappings c) of
                  Inl e \<Rightarrow> (Inl e, c)
                | Inr (newMappings, t) \<Rightarrow>
                    (case commit_err tx of
                       Some e \<Rightarrow> (Inl e, c)
                     | None \<Rightarrow> (Inr newMappings, c\<lparr>seen_mappings := t\<rparr>)))))"

definition MarkSeenMappings ::
    "(nat \<Rightarrow> ctx_err option) \<Rightarrow> (nat \<Rightarrow> tx_env) \<Rightarrow> clock \<Rightarrow> seen_mapping list \<Rightarrow> cache \<Rightarrow>
     (db_err + seen_mapping list) \<times> cache" where
  "MarkSeenMappings wts txs now ms c =
     (if ms = [] then (Inr [], c)
      else retryBusyValue wts (\<lambda>i. markSeenMappingsOnce (txs i) (unix_now now) ms) c)"

section \<open>Decoded reads\<close>

record decoded_year =
  dy_Shows :: "anilist_show list"
  dy_Fresh :: bool
  dy_Present :: bool
  dy_DecodeErr :: "string option"

definition zero_decoded_year :: decoded_year where
  "zero_decoded_year = \<lparr>dy_Shows = [], dy_Fresh = False, dy_Present = False, dy_DecodeErr = None\<rparr>"

text \<open>\<open>json.Unmarshal\<close> into a slice of shows is the argument \<open>unmarshal\<close>.\<close>

definition DecodeYearData ::
    "(string \<Rightarrow> string + anilist_show list) \<Rightarrow> string \<Rightarrow> string + anilist_show list" where
  "DecodeYearData unmarshal data =
     (case trim_space data of
        [] \<Rightarrow> Inl ''year data must be a JSON array''
      | ch # cs \<Rightarrow>
          if ch \<noteq> CHR ''['' then Inl ''year data must be a JSON array''
          else unmarshal (ch # cs))"

text \<open>
  What surrounds one decoded read: the context error at each point it is checked, and what other
  goroutines do to the cache before the query, after it, while the read waits for the gate of the
  year, and while it decodes.
\<close>

record read_env =
  ctx_start :: "ctx_err option"
  ctx_absent :: "ctx_err option"
  ctx_waiting :: "ctx_err option"
  ctx_gate :: "ctx_err option"
  ctx_decoded :: "ctx_err option"
  ctx_end :: "ctx_err option"
  others_before :: "cache \<Rightarrow> cache"
  others_read :: "cache \<Rightarrow> cache"
  others_waiting :: "cache \<Rightarrow> cache"
  others_decoding :: "cache \<Rightarrow> cache"

text \<open>The end of the function: the copy of the shows and the last check.\<close>

definition read_finish ::
    "read_env \<Rightarrow> decoded_year \<Rightarrow> anilist_show list \<Rightarrow> cache \<Rightarrow>
     ((decoded_year \<times> db_err option) \<times> cache) option" where
  "read_finish renv result shs c =
     (let result1 = (if dy_DecodeErr result = None then result\<lparr>dy_Shows := shs\<rparr> else result)
      in (case ctx_end renv of
            Some e \<Rightarrow> Some ((zero_decoded_year, Some (CtxErr e)), c)
          | None \<Rightarrow> Some ((result1, None), c)))"

text \<open>The part under the gate of the year: look again, else decode and admit.\<close>

definition read_gated ::
    "read_env \<Rightarrow> (string \<Rightarrow> string + anilist_show list) \<Rightarrow> capacities \<Rightarrow> int \<Rightarrow> string \<Rightarrow> 64 word \<Rightarrow>
     decoded_year \<Rightarrow> cache \<Rightarrow> ((decoded_year \<times> db_err option) \<times> cache) option" where
  "read_gated renv decode caps year raw gen result c =
     (case ctx_waiting renv of
        Some e \<Rightarrow> Some ((zero_decoded_year, Some (CtxErr e)), c)
      | None \<Rightarrow>
          (let c1 = others_waiting renv c in
           case ctx_gate renv of
             Some e \<Rightarrow> Some ((zero_decoded_year, Some (CtxErr e)), c1)
           | None \<Rightarrow>
               (case lookup year raw True gen (decoded c1) of
                  None \<Rightarrow> None
                | Some (Some shs, d) \<Rightarrow> read_finish renv result shs (c1\<lparr>decoded := d\<rparr>)
                | Some (None, d) \<Rightarrow>
                    (let c2 = others_decoding renv (c1\<lparr>decoded := d\<rparr>) in
                     case ctx_decoded renv of
                       Some e \<Rightarrow> Some ((zero_decoded_year, Some (CtxErr e)), c2)
                     | None \<Rightarrow>
                         (case decode raw of
                            Inl err \<Rightarrow> read_finish renv (result\<lparr>dy_DecodeErr := Some err\<rparr>) [] c2
                          | Inr shs \<Rightarrow>
                              (case admit caps year raw shs gen (decoded c2) of
                                 None \<Rightarrow> None
                               | Some d2 \<Rightarrow> read_finish renv result shs (c2\<lparr>decoded := d2\<rparr>)))))))"

definition readDecodedYearContext ::
    "db_env \<Rightarrow> read_env \<Rightarrow> (string \<Rightarrow> string + anilist_show list) \<Rightarrow> capacities \<Rightarrow> clock \<Rightarrow> int \<Rightarrow>
     bool \<Rightarrow> cache \<Rightarrow> ((decoded_year \<times> db_err option) \<times> cache) option" where
  "readDecodedYearContext env renv decode caps now year recordAccess c =
     (case ctx_start renv of
        Some e \<Rightarrow> Some ((zero_decoded_year, Some (CtxErr e)), c)
      | None \<Rightarrow>
          (let gen = generation (decoded c) in
           case readYearContext env now year recordAccess (others_before renv c) of
             (Inl e, c1) \<Rightarrow> Some ((zero_decoded_year, Some e), c1)
           | (Inr (raw, fresh, present), c1) \<Rightarrow>
               (let c2 = others_read renv c1;
                    result = zero_decoded_year\<lparr>dy_Fresh := fresh, dy_Present := present\<rparr> in
                case lookup year raw present gen (decoded c2) of
                  None \<Rightarrow> None
                | Some (hit, d) \<Rightarrow>
                    (let c3 = c2\<lparr>decoded := d\<rparr> in
                     if \<not> present then Some ((result, map_option CtxErr (ctx_absent renv)), c3)
                     else (case hit of
                             Some shs \<Rightarrow> read_finish renv result shs c3
                           | None \<Rightarrow> read_gated renv decode caps year raw gen result c3)))))"

definition GetDecodedYearContext where
  "GetDecodedYearContext env renv decode caps now year c =
     readDecodedYearContext env renv decode caps now year True c"

definition PeekDecodedYearContext where
  "PeekDecodedYearContext env renv decode caps now year c =
     readDecodedYearContext env renv decode caps now year False c"

section \<open>The invariant\<close>

text \<open>
  The maps are maps, a pending hit is the last one scheduled for its year, and the decoded cache is
  well formed and coherent with the decoder.
\<close>

definition cache_ok :: "(string \<Rightarrow> anilist_show list option) \<Rightarrow> cache \<Rightarrow> bool" where
  "cache_ok dec c \<longleftrightarrow>
     dc_ok dec (decoded c) \<and> mwf (year_cache c) \<and> mwf (seen_mappings c)
     \<and> mwf (lastHitTimes c) \<and> mwf (pendingLastHits c)
     \<and> (\<forall>y t. mget (pendingLastHits c) y = Some t \<longrightarrow> mget (lastHitTimes c) y = Some t)"

lemma cache_okD:
  assumes "cache_ok dec c"
  shows "dc_ok dec (decoded c)" "mwf (year_cache c)" "mwf (seen_mappings c)"
    "mwf (lastHitTimes c)" "mwf (pendingLastHits c)"
    "mget (pendingLastHits c) y = Some t \<Longrightarrow> mget (lastHitTimes c) y = Some t"
  using assms by (auto simp: cache_ok_def)

lemma openCacheDB_ok: "mwf years \<Longrightarrow> mwf seen \<Longrightarrow> cache_ok dec (openCacheDB years seen)"
  by (simp add: cache_ok_def openCacheDB_def new_dc_ok gm.ok_emp gm.get_emp)

text \<open>What \<open>queueLastHit\<close> changes, and what it leaves.\<close>

lemma queueLastHit_frame [simp]:
  "decoded (queueLastHit y p now c) = decoded c"
  "year_cache (queueLastHit y p now c) = year_cache c"
  "seen_mappings (queueLastHit y p now c) = seen_mappings c"
  "lastHitDebounce (queueLastHit y p now c) = lastHitDebounce c"
  "currentYearFreshness (queueLastHit y p now c) = currentYearFreshness c"
  "pastYearFreshness (queueLastHit y p now c) = pastYearFreshness c"
  "hits (queueLastHit y p now c) = hits c" "misses (queueLastHit y p now c) = misses c"
  by (simp_all add: queueLastHit_def Let_def split: option.splits)

lemma queueLastHit_maps:
  fixes y p now c
  defines "base \<equiv> (case mget (lastHitTimes c) y of Some t \<Rightarrow> t | None \<Rightarrow> p)"
  shows "mget (lastHitTimes (queueLastHit y p now c)) y' =
      (if y' = y then Some (if wrap64 (now - base) < whole_seconds (lastHitDebounce c) then base else now)
       else mget (lastHitTimes c) y')"
    and "mget (pendingLastHits (queueLastHit y p now c)) y' =
      (if y' = y \<and> \<not> wrap64 (now - base) < whole_seconds (lastHitDebounce c) then Some now
       else mget (pendingLastHits c) y')"
  by (auto simp: queueLastHit_def Let_def base_def split: option.splits)

lemma queueLastHit_mwf:
  "mwf (lastHitTimes c) \<Longrightarrow> mwf (lastHitTimes (queueLastHit y p now c))"
  "mwf (pendingLastHits c) \<Longrightarrow> mwf (pendingLastHits (queueLastHit y p now c))"
  by (auto simp: queueLastHit_def Let_def gm.ok_put split: option.splits)

lemma queueLastHit_ok [wf_rules]: "cache_ok dec c \<Longrightarrow> cache_ok dec (queueLastHit y p now c)"
  by (auto simp: cache_ok_def queueLastHit_mwf queueLastHit_maps split: if_splits)

lemma mget_upsert:
  "mget (upsert_year year data now t) y =
    (if y = year then Some \<lparr>yr_data = data, fetched_at = now,
       last_hit = (case mget t year of None \<Rightarrow> now | Some r \<Rightarrow> last_access r)\<rparr>
     else mget t y)"
  by (auto simp: upsert_year_def last_access_def split: option.splits)

lemma mwf_upsert [wf_rules]: "mwf t \<Longrightarrow> mwf (upsert_year year data now t)"
  by (auto simp: upsert_year_def gm.ok_put split: option.splits)

lemma mget_map_rows:
  "mget (map (\<lambda>(y, r). (y, f y r)) t) y = map_option (f y) (mget t y)"
  by (induction t) (auto simp: mget_def)

lemma mkeys_map_rows: "mkeys (map (\<lambda>(y, r). (y, f y r)) t) = mkeys t"
  by (simp add: mkeys_def o_def case_prod_unfold)

lemma update_last_hits_rows:
  "update_last_hits batch t =
    map (\<lambda>(y, r). (y, (\<lambda>y r. case mget batch y of None \<Rightarrow> r
                                | Some ts \<Rightarrow> r\<lparr>last_hit := max (last_hit r) ts\<rparr>) y r)) t"
  by (simp add: update_last_hits_def)

lemma mget_update_last_hits:
  "mget (update_last_hits batch t) y =
    map_option (\<lambda>r. case mget batch y of None \<Rightarrow> r
                    | Some ts \<Rightarrow> r\<lparr>last_hit := max (last_hit r) ts\<rparr>) (mget t y)"
  unfolding update_last_hits_rows by (rule mget_map_rows)

lemma mget_delete_stale:
  "mwf t \<Longrightarrow> mget (snd (delete_stale cutoff pend t)) y =
    (case mget t y of
       Some r \<Rightarrow> if last_access r < cutoff \<and> y \<notin> set pend then None else Some r
     | None \<Rightarrow> None)"
  by (auto simp: delete_stale_def Let_def mget_filter split: option.splits)

section \<open>Properties: statements and rows\<close>

text \<open>
  A statement under retry is applied exactly once or not at all. It is applied exactly
  when one of the first five attempts succeeds and all attempts before it found the database busy
  with the context still alive during the waits; any other error is final.
\<close>

lemma retry_applies_once:
  "execResultWithRetry env stmt s =
     (if \<exists>k < 5. fails env k = None \<and> (\<forall>j < k. fails env j = Some Busy \<and> waits env j = None)
      then (Inr (fst (stmt s)), snd (stmt s))
      else (Inl (the (env_error env)), s))"
proof -
  have none: "env_error_from left i env = None \<longleftrightarrow>
      (\<exists>k \<le> left. fails env (i + k) = None \<and> (\<forall>j < k. fails env (i + j) = Some Busy \<and> waits env (i + j) = None))"
    for left i
  proof (induction left arbitrary: i)
    case 0
    show ?case by (subst env_error_from.simps) (auto simp: isBusy_def split: option.splits)
  next
    case (Suc left)
    let ?P = "\<lambda>i k. fails env (i + k) = None \<and> (\<forall>j < k. fails env (i + j) = Some Busy \<and> waits env (i + j) = None)"
    have step: "(\<exists>k \<le> Suc left. ?P i k) \<longleftrightarrow>
        fails env i = None \<or> (fails env i = Some Busy \<and> waits env i = None \<and> (\<exists>k \<le> left. ?P (Suc i) k))"
    proof
      assume "\<exists>k \<le> Suc left. ?P i k"
      then obtain k where k: "k \<le> Suc left" "?P i k" by blast
      show "fails env i = None \<or> (fails env i = Some Busy \<and> waits env i = None \<and> (\<exists>k \<le> left. ?P (Suc i) k))"
      proof (cases k)
        case 0
        with k show ?thesis by simp
      next
        case (Suc k')
        have "fails env i = Some Busy \<and> waits env i = None" using k(2) Suc by (metis add_0_right zero_less_Suc)
        moreover have "?P (Suc i) k'" using k(2) Suc by (metis Suc_less_eq add_Suc_right add_Suc_shift)
        ultimately show ?thesis using k(1) Suc by auto
      qed
    next
      assume "fails env i = None \<or> (fails env i = Some Busy \<and> waits env i = None \<and> (\<exists>k \<le> left. ?P (Suc i) k))"
      then show "\<exists>k \<le> Suc left. ?P i k"
      proof
        assume "fails env i = None"
        then show ?thesis by (intro exI [of _ 0]) simp
      next
        assume r: "fails env i = Some Busy \<and> waits env i = None \<and> (\<exists>k \<le> left. ?P (Suc i) k)"
        then obtain k where k: "k \<le> left" "?P (Suc i) k" by blast
        have "?P i (Suc k)" using r k(2) by (auto simp: less_Suc_eq_0_disj)
        with k(1) show ?thesis by (intro exI [of _ "Suc k"]) simp
      qed
    qed
    show ?case
      by (subst env_error_from.simps) (auto simp: step Suc isBusy_def split: option.splits)
  qed
  have "env_error env = None \<longleftrightarrow>
      (\<exists>k < 5. fails env k = None \<and> (\<forall>j < k. fails env j = Some Busy \<and> waits env j = None))"
    using none [of 4 0] by (auto simp: env_error_def busyRetryAttempts_def less_Suc_eq_le [of _ 4, simplified])
  then show ?thesis by (auto simp: execResultWithRetry_eq split: option.splits)
qed

lemma retry_applies_once_witness:
  "execResultWithRetry \<lparr>fails = (\<lambda>i. if i < 2 then Some Busy else None), waits = (\<lambda>_. None)\<rparr>
     (\<lambda>n. ((), n + 1)) (7 :: int) = (Inr (), 8)
   \<and> execResultWithRetry \<lparr>fails = (\<lambda>i. Some Busy), waits = (\<lambda>_. None)\<rparr> (\<lambda>n. ((), n + 1)) (7 :: int)
     = (Inl Busy, 7)"
proof
  show "execResultWithRetry \<lparr>fails = (\<lambda>i. if i < 2 then Some Busy else None), waits = (\<lambda>_. None)\<rparr>
     (\<lambda>n. ((), n + 1)) (7 :: int) = (Inr (), 8)"
    by (subst retry_applies_once) (auto intro!: exI [of _ 2])
  have "env_error \<lparr>fails = (\<lambda>i. Some Busy), waits = (\<lambda>_. None)\<rparr> = Some Busy"
    by (simp add: env_error_def busyRetryAttempts_def env_error_from.simps isBusy_def eval_nat_numeral)
  then show "execResultWithRetry \<lparr>fails = (\<lambda>i. Some Busy), waits = (\<lambda>_. None)\<rparr> (\<lambda>n. ((), n + 1)) (7 :: int)
     = (Inl Busy, 7)"
    by (subst retry_applies_once) simp
qed

lemma invalidate_ok:
  assumes "dc_ok dec d"
  obtains d' where "invalidate y everything close d = Some d'" "dc_ok dec d'"
  using memo.drop_ok [OF assms] by blast

text \<open>
  Storing a year never panics and either fails without changing the cache or stores the
  row: a later read returns the bytes, present, with the retention time of an existing row kept (its
  last access) and that of a new row started now; all other years read as before.
\<close>

lemma SetYear_then_read:
  assumes "cache_ok dec c"
  shows "\<exists>err c'. SetYearContext env now year data c = Some (err, c') \<and> cache_ok dec c'
    \<and> (case err of
         Some e \<Rightarrow> env_error env = Some e \<and> c' = c
       | None \<Rightarrow>
           (\<forall>renv later. env_error renv = None \<longrightarrow>
              fst (PeekYearContext renv later year c') =
                Inr (data, yearFreshAt c year (unix_now now) later, True))
           \<and> map_option last_access (mget (year_cache c') year) =
               Some (case mget (year_cache c) year of None \<Rightarrow> unix_now now | Some r \<Rightarrow>
                       if 0 < last_access r then last_access r else unix_now now)
           \<and> (\<forall>renv later y. y \<noteq> year \<longrightarrow>
                fst (PeekYearContext renv later y c') = fst (PeekYearContext renv later y c)))"
proof (cases "env_error env")
  case (Some e)
  with assms show ?thesis by (simp add: SetYearContext_def execResultWithRetry_eq)
next
  case None
  let ?c1 = "c\<lparr>year_cache := upsert_year year data (unix_now now) (year_cache c)\<rparr>"
  obtain d where d: "invalidate year False False (decoded c) = Some d" "dc_ok dec d"
    using invalidate_ok [OF cache_okD(1) [OF assms]] .
  have run: "SetYearContext env now year data c = Some (None, ?c1\<lparr>decoded := d\<rparr>)"
    using None d(1) by (simp add: SetYearContext_def execResultWithRetry_eq)
  have "cache_ok dec (?c1\<lparr>decoded := d\<rparr>)"
    using assms d(2) by (auto simp: cache_ok_def mwf_upsert)
  moreover have "fst (PeekYearContext renv later year (?c1\<lparr>decoded := d\<rparr>)) =
      Inr (data, yearFreshAt c year (unix_now now) later, True)" if "env_error renv = None" for renv later
    using that by (simp add: PeekYearContext_def readYearContext_def queryRowWithRetry_eq mget_upsert
        yearFreshAt_def Let_def)
  moreover have "fst (PeekYearContext renv later y (?c1\<lparr>decoded := d\<rparr>)) = fst (PeekYearContext renv later y c)"
    if "y \<noteq> year" for renv later y
    using that by (auto simp: PeekYearContext_def readYearContext_def queryRowWithRetry_eq mget_upsert
        yearFreshAt_def Let_def split: option.splits)
  moreover have "map_option last_access (mget (year_cache (?c1\<lparr>decoded := d\<rparr>)) year) =
      Some (case mget (year_cache c) year of None \<Rightarrow> unix_now now | Some r \<Rightarrow>
                       if 0 < last_access r then last_access r else unix_now now)"
    by (auto simp: mget_upsert last_access_def split: option.splits)
  ultimately show ?thesis using run by auto
qed

lemma SetYear_then_read_witness:
  "\<exists>c'. SetYearContext \<lparr>fails = \<lambda>_. None, waits = \<lambda>_. None\<rparr> \<lparr>ck_now = of_unix 100, ck_year = 2024\<rparr> 2024 ''[]''
      (openCacheDB [] []) = Some (None, c')
    \<and> fst (PeekYearContext \<lparr>fails = \<lambda>_. None, waits = \<lambda>_. None\<rparr> \<lparr>ck_now = of_unix 101, ck_year = 2024\<rparr> 2024 c')
        = Inr (''[]'', True, True)"
proof -
  let ?env = "\<lparr>fails = \<lambda>_. None, waits = \<lambda>_. None\<rparr>" and ?now = "\<lparr>ck_now = of_unix 100, ck_year = 2024\<rparr>"
  have ok: "cache_ok (\<lambda>_. None) (openCacheDB [] [])" by (intro openCacheDB_ok) (simp_all add: gm.ok_emp)
  have env: "env_error ?env = None" by (simp add: env_error_def env_error_from.simps)
  have "yearFreshAt (openCacheDB [] []) 2024 100 \<lparr>ck_now = of_unix 101, ck_year = 2024\<rparr>"
    by (simp add: yearFreshAt_def openCacheDB_def time_sub_def of_unix_def duration_defs Let_def
        min_int64_def max_int64_def)
  moreover have "\<exists>c'. SetYearContext ?env ?now 2024 ''[]'' (openCacheDB [] []) = Some (None, c')
      \<and> (\<forall>later. fst (PeekYearContext ?env later 2024 c') =
            Inr (''[]'', yearFreshAt (openCacheDB [] []) 2024 (unix_now ?now) later, True))"
    using SetYear_then_read [OF ok, of ?env ?now 2024 "''[]''"]
    apply (elim exE conjE)
    subgoal for err c' using env by (cases err) auto
    done
  ultimately show ?thesis by (auto simp: unix_now_def)
qed

text \<open>
  Pruning never panics. When it succeeds, exactly the years are gone whose last access
  (or, without one, fetch) is before the cutoff and that have no hit pending from the cutoff on; the
  count is the number of rows removed, and decoded years are dropped when any was.
\<close>

lemma PruneStaleYears_exact:
  assumes "cache_ok dec c" "cache_ok dec (meanwhile c)" "env_error env = None"
  shows "\<exists>n c'. PruneStaleYearsContext env None meanwhile now days c = Some (Inr n, c') \<and> cache_ok dec c'
    \<and> (\<forall>y. mget (year_cache c') y =
         (case mget (year_cache (meanwhile c)) y of
            None \<Rightarrow> None
          | Some r \<Rightarrow>
              if last_access r < prune_cutoff now days
                 \<and> (\<forall>t. mget (pendingLastHits c) y = Some t \<longrightarrow> t < prune_cutoff now days)
              then None else Some r))
    \<and> n + length (mkeys (year_cache c')) = length (mkeys (year_cache (meanwhile c)))
    \<and> (0 < n \<longrightarrow> dc_lru (decoded c') = [])"
proof -
  let ?m = "meanwhile c" and ?cut = "prune_cutoff now days"
  let ?pend = "map fst (filter (\<lambda>(year, hit). ?cut \<le> hit) (pendingLastHits c))"
  obtain n t where del: "delete_stale ?cut ?pend (year_cache ?m) = (n, t)" by fastforce
  have t: "t = filter (\<lambda>(year, r). \<not> (last_access r < ?cut \<and> \<not> List.member ?pend year)) (year_cache ?m)"
    and n: "n = length (year_cache ?m) - length t"
    using del by (auto simp: delete_stale_def Let_def)
  have "length t \<le> length (year_cache ?m)" unfolding t by simp
  then have count: "n + length (mkeys t) = length (mkeys (year_cache ?m))"
    using n by (simp add: mkeys_def)
  have pend: "y \<in> set ?pend \<longleftrightarrow> (\<exists>u. mget (pendingLastHits c) y = Some u \<and> ?cut \<le> u)" for y
    using mget_Some_iff [OF cache_okD(5) [OF assms(1)]] by (auto simp: image_iff)
  have rows: "mget t y = (case mget (year_cache ?m) y of
            None \<Rightarrow> None
          | Some r \<Rightarrow> if last_access r < ?cut \<and> (\<forall>t. mget (pendingLastHits c) y = Some t \<longrightarrow> t < ?cut)
              then None else Some r)" for y
    using mget_delete_stale [OF cache_okD(2) [OF assms(2)], of ?cut ?pend y] del pend [of y]
    by (auto simp: not_le split: option.splits)
  have wf: "mwf t" using cache_okD(2) [OF assms(2)] by (auto simp: t mwf_filter)
  obtain d where d: "invalidate 0 True False (decoded ?m) = Some d" "dc_ok dec d"
    using invalidate_ok [OF cache_okD(1) [OF assms(2)]] .
  have empty: "dc_lru d = []" using d(1) by (auto simp: invalidate_def Let_def)
  let ?d = "if 0 < n then d else decoded ?m"
  have run: "PruneStaleYearsContext env None meanwhile now days c
      = Some (Inr n, ?m\<lparr>year_cache := t, decoded := ?d\<rparr>)"
    using assms(3) del d(1) by (simp add: PruneStaleYearsContext_def Let_def execResultWithRetry_eq)
  have "cache_ok dec (?m\<lparr>year_cache := t, decoded := ?d\<rparr>)"
    using assms(2) d(2) wf by (auto simp: cache_ok_def)
  with run rows count empty show ?thesis by auto
qed

lemma PruneStaleYears_exact_witness:
  defines "row h \<equiv> \<lparr>yr_data = [], fetched_at = 0, last_hit = h\<rparr>"
  shows "\<exists>c'. PruneStaleYearsContext \<lparr>fails = \<lambda>_. None, waits = \<lambda>_. None\<rparr> None (\<lambda>c. c)
      \<lparr>ck_now = of_unix 10000000, ck_year = 2024\<rparr> 30
      (openCacheDB [(2001, row 1), (2002, row 9999999)] []) = Some (Inr 1, c')
    \<and> mget (year_cache c') 2001 = None \<and> mget (year_cache c') 2002 = Some (row 9999999)"
proof -
  let ?c = "openCacheDB [(2001, row 1), (2002, row 9999999)] []"
  let ?env = "\<lparr>fails = \<lambda>_. None, waits = \<lambda>_. None\<rparr>" and ?now = "\<lparr>ck_now = of_unix 10000000, ck_year = 2024\<rparr>"
  have "mwf [(2001 :: int, row 1), (2002, row 9999999)]" by (simp add: mwf_def)
  then have ok: "cache_ok (\<lambda>_. None) ?c" by (intro openCacheDB_ok) (simp_all add: gm.ok_emp)
  have env: "env_error ?env = None" by (simp add: env_error_def env_error_from.simps)
  have cut: "prune_cutoff ?now 30 = 7408000"
    by (simp add: prune_cutoff_def to_unix_def of_unix_def duration_defs wrap64_def)
  from PruneStaleYears_exact [of _ _ "\<lambda>c. c", OF ok ok env, of ?now 30] obtain n c' where
    run: "PruneStaleYearsContext ?env None (\<lambda>c. c) ?now 30 ?c = Some (Inr n, c')"
    and rows: "\<And>y. mget (year_cache c') y = (case mget (year_cache ?c) y of
            None \<Rightarrow> None
          | Some r \<Rightarrow> if last_access r < 7408000 \<and> (\<forall>t. mget (pendingLastHits ?c) y = Some t \<longrightarrow> t < 7408000)
              then None else Some r)"
    and n: "n + length (mkeys (year_cache c')) = length (mkeys (year_cache ?c))"
    and ok': "cache_ok (\<lambda>_. None) c'"
    unfolding cut by blast
  have r: "mget (year_cache c') 2001 = None" "mget (year_cache c') 2002 = Some (row 9999999)"
    using rows [of 2001] rows [of 2002]
    by (simp_all add: openCacheDB_def mget_def row_def last_access_def)
  have "{k. mget (year_cache c') k \<noteq> None} = {2002}"
    using rows r by (auto simp: openCacheDB_def mget_def split: if_splits option.splits)
  then have "length (mkeys (year_cache c')) = 1"
    using gm.size_keys [OF cache_okD(2) [OF ok']] by simp
  with n have "n = 1" by (simp add: openCacheDB_def mkeys_def)
  with run r show ?thesis by blast
qed

section \<open>Properties: access times\<close>

lemma mget_settle_pending:
  "mwf batch \<Longrightarrow> mget (settle_pending batch p) y =
    (case mget p y of
       None \<Rightarrow> None
     | Some hit \<Rightarrow> (case mget batch y of Some ts \<Rightarrow> if hit \<le> ts then None else Some hit | None \<Rightarrow> Some hit))"
proof (induction batch arbitrary: p)
  case Nil
  then show ?case by (simp add: settle_pending_def gm.get_emp split: option.splits)
next
  case (Cons b batch)
  obtain yr ts where b: "b = (yr, ts)" by (cases b)
  have wf: "mwf batch" and fresh: "mget batch yr = None"
    using Cons.prems b by (auto simp: mwf_def mget_def map_of_eq_None_iff)
  let ?p1 = "case mget p yr of Some hit \<Rightarrow> if hit \<le> ts then mdel yr p else p | None \<Rightarrow> p"
  have step: "settle_pending (b # batch) p = settle_pending batch ?p1"
    by (simp add: settle_pending_def b)
  have p1: "mget ?p1 y = (if y = yr then (case mget p yr of Some hit \<Rightarrow> if hit \<le> ts then None else Some hit | None \<Rightarrow> None)
      else mget p y)"
    by (auto split: option.splits)
  have head: "mget (b # batch) y = (if y = yr then Some ts else mget batch y)"
    by (simp add: b mget_def)
  show ?case
    unfolding step Cons.IH [OF wf] p1 head using fresh by (auto split: option.splits)
qed

text \<open>What other goroutines may do to accesses meanwhile: hits and rows only move forward.\<close>

definition advanced :: "cache \<Rightarrow> cache \<Rightarrow> bool" where
  "advanced c c' \<longleftrightarrow>
     (\<forall>y t. mget (pendingLastHits c) y = Some t \<longrightarrow>
        (\<exists>t'. mget (pendingLastHits c') y = Some t' \<and> t \<le> t'))
     \<and> (\<forall>y r. mget (year_cache c) y = Some r \<longrightarrow>
        (\<exists>r'. mget (year_cache c') y = Some r' \<and> last_hit r \<le> last_hit r'))"

lemma advanced_refl: "advanced c c"
  by (auto simp: advanced_def)

lemma queueLastHit_advanced:
  assumes "cache_ok dec c" "\<forall>t. mget (lastHitTimes c) y = Some t \<longrightarrow> t \<le> now"
  shows "advanced c (queueLastHit y p now c)"
  using assms by (auto simp: advanced_def queueLastHit_maps dest: cache_okD(6))

text \<open>
  Claim C19. No recorded access is lost by a flush: while other accesses arrive, a hit that was
  pending when the flush began is afterwards still pending (or a newer one is), or the year's row
  carries it, unless the year had no row when it was written. A hit that arrived during the flush
  and is newer than what was written stays pending, and a failed flush settles nothing.
\<close>

theorem flush_loses_no_access:
  assumes "cache_ok dec c" "advanced c (before c)"
    and "flush_write env (pendingLastHits c) (year_cache (before c)) = (err, rows)"
    and "advanced ((before c)\<lparr>year_cache := rows\<rparr>) (after ((before c)\<lparr>year_cache := rows\<rparr>))"
    and "mget (pendingLastHits c) y = Some t"
  shows "((\<exists>t'. mget (pendingLastHits (flushLastHits env before after c)) y = Some t' \<and> t \<le> t')
      \<or> (\<exists>r. mget (year_cache (flushLastHits env before after c)) y = Some r \<and> t \<le> last_hit r)
      \<or> mget (year_cache (before c)) y = None)
    \<and> (\<forall>u. mget (pendingLastHits (after ((before c)\<lparr>year_cache := rows\<rparr>))) y = Some u \<and> (t < u \<or> err \<noteq> None)
         \<longrightarrow> mget (pendingLastHits (flushLastHits env before after c)) y = Some u)"
proof -
  let ?b = "pendingLastHits c" and ?c' = "flushLastHits env before after c"
  let ?a = "after ((before c)\<lparr>year_cache := rows\<rparr>)"
  have ne: "?b \<noteq> []" using assms(5) by (auto simp: gm.get_emp)
  have wf: "mwf ?b" using cache_okD(5) [OF assms(1)] .
  note w = assms(3)
  have c': "?c' = flush_finish ?b err ?a" using ne w by (simp add: flushLastHits_def Let_def)
  obtain t1 where t1: "mget (pendingLastHits (before c)) y = Some t1" "t \<le> t1"
    using assms(2,5) unfolding advanced_def by blast
  then obtain t2 where t2: "mget (pendingLastHits ?a) y = Some t2" "t1 \<le> t2"
    using assms(4) unfolding advanced_def by fastforce
  have keep: "mget (pendingLastHits ?c') y = Some u"
    if "mget (pendingLastHits ?a) y = Some u" "t < u \<or> err \<noteq> None" for u
    using that assms(5) by (auto simp: c' flush_finish_def mget_settle_pending [OF wf] split: option.splits)
  have "(\<exists>t'. mget (pendingLastHits ?c') y = Some t' \<and> t \<le> t')
      \<or> (\<exists>r. mget (year_cache ?c') y = Some r \<and> t \<le> last_hit r)
      \<or> mget (year_cache (before c)) y = None"
  proof (cases "t < t2 \<or> err \<noteq> None")
    case True
    then show ?thesis using keep [OF t2(1)] t1(2) t2(2) by auto
  next
    case False
    then have "rows = update_last_hits ?b (year_cache (before c))"
      using w by (auto simp: flush_write_def Let_def split: option.splits if_splits)
    then have row: "mget rows y = map_option (\<lambda>r. r\<lparr>last_hit := max (last_hit r) t\<rparr>) (mget (year_cache (before c)) y)"
      using assms(5) by (simp add: mget_update_last_hits)
    show ?thesis
    proof (cases "mget (year_cache (before c)) y")
      case (Some r)
      then have "mget (year_cache ((before c)\<lparr>year_cache := rows\<rparr>)) y = Some (r\<lparr>last_hit := max (last_hit r) t\<rparr>)"
        using row by simp
      then obtain r' where "mget (year_cache ?a) y = Some r'" "max (last_hit r) t \<le> last_hit r'"
        using assms(4) unfolding advanced_def by fastforce
      moreover have "year_cache ?c' = year_cache ?a" by (simp add: c' flush_finish_def split: option.splits)
      ultimately show ?thesis by auto
    qed simp
  qed
  with keep show ?thesis by blast
qed

lemma flush_loses_no_access_witness:
  fixes row
  defines "row \<equiv> \<lparr>yr_data = [], fetched_at = 0, last_hit = 5\<rparr>"
  defines "c \<equiv> queueLastHit 2024 0 1000 (openCacheDB [(2024, row)] [])"
  shows "\<exists>r. mget (year_cache (flushLastHits \<lparr>conn_err = None, pragma_err = None, update_err = None,
      reset_err = None, close_err = None\<rparr> (\<lambda>c. c) (\<lambda>c. c) c)) 2024 = Some r \<and> 1000 \<le> last_hit r"
proof -
  let ?env = "\<lparr>conn_err = None, pragma_err = None, update_err = None, reset_err = None, close_err = None\<rparr>"
  have ok: "cache_ok (\<lambda>_. None) c"
    unfolding c_def by (intro queueLastHit_ok openCacheDB_ok) (simp_all add: mwf_def)
  have pend: "mget (pendingLastHits c) 2024 = Some 1000"
    by (simp add: c_def queueLastHit_maps openCacheDB_def whole_seconds_def duration_defs gm.get_emp wrap64_def)
  let ?rows = "update_last_hits (pendingLastHits c) (year_cache c)"
  have wr: "flush_write ?env (pendingLastHits c) (year_cache c) = (None, ?rows)"
    by (simp add: flush_write_def)
  have "mget (year_cache c) 2024 \<noteq> None" by (simp add: c_def openCacheDB_def mget_def)
  moreover have "mget (pendingLastHits (flushLastHits ?env (\<lambda>c. c) (\<lambda>c. c) c)) 2024 = None"
    using pend wr by (auto simp: flushLastHits_def Let_def gm.get_emp flush_finish_def
        mget_settle_pending [OF cache_okD(5) [OF ok]])
  ultimately show ?thesis
    using flush_loses_no_access [of _ c "\<lambda>c. c" ?env None ?rows "\<lambda>c. c", OF ok advanced_refl wr advanced_refl pend]
    by auto
qed

text \<open>
  Accesses are written at most once per debounce interval: once a write for a year is
  scheduled at \<open>t\<close>, further accesses before \<open>t\<close> plus the interval change nothing, and the first
  access from then on is scheduled (or joins the pending one) and wakes the worker.
\<close>

lemma queueLastHit_debounced:
  assumes "mget (lastHitTimes c) y = Some t" "in_int64 (now - t)"
  shows "if now < t + whole_seconds (lastHitDebounce c) then queueLastHit y p now c = c
    else mget (pendingLastHits (queueLastHit y p now c)) y = Some now
      \<and> mget (lastHitTimes (queueLastHit y p now c)) y = Some now
      \<and> lastHitWake (queueLastHit y p now c)
      \<and> (\<forall>later q. later < now + whole_seconds (lastHitDebounce c) \<longrightarrow> in_int64 (later - now) \<longrightarrow>
           queueLastHit y q later (queueLastHit y p now c) = queueLastHit y p now c)"
  using assms by (auto simp: queueLastHit_def Let_def wrap64_id)

lemma queueLastHit_debounced_witness:
  "let c = queueLastHit 2024 0 1000 (openCacheDB [] []) in
     mget (lastHitTimes c) 2024 = Some 1000 \<and> queueLastHit 2024 0 1299 c = c
     \<and> mget (pendingLastHits (queueLastHit 2024 0 1300 c)) 2024 = Some 1300"
proof -
  let ?c = "queueLastHit 2024 0 1000 (openCacheDB [] [])"
  have t: "mget (lastHitTimes ?c) 2024 = Some 1000" "whole_seconds (lastHitDebounce ?c) = 300"
    by (simp_all add: queueLastHit_maps openCacheDB_def whole_seconds_def duration_defs gm.get_emp wrap64_def)
  show ?thesis
    using queueLastHit_debounced [OF t(1), of 1299 0] queueLastHit_debounced [OF t(1), of 1300 0] t
    by (simp add: Let_def in_int64_def min_int64_def max_int64_def)
qed

section \<open>Properties: seen mappings\<close>

lemma retry_loop_cases:
  assumes "\<And>i e s'. fn i s = (Inl e, s') \<Longrightarrow> s' = s"
  shows "retry_loop left i wts fn s = (r, s') \<Longrightarrow>
    (case r of Inl _ \<Rightarrow> s' = s | Inr v \<Rightarrow> \<exists>k. fn k s = (Inr v, s'))"
proof (induction left arbitrary: i)
  case 0
  obtain r1 s1 where f: "fn i s = (r1, s1)" by (cases "fn i s")
  show ?case
  proof (cases r1)
    case (Inl e)
    with f assms have "s1 = s" by blast
    with 0 f Inl show ?thesis
      by (subst (asm) retry_loop.simps) (auto split: if_splits option.splits)
  next
    case (Inr v)
    with 0 f show ?thesis by (subst (asm) retry_loop.simps) auto
  qed
next
  case (Suc left)
  obtain r1 s1 where f: "fn i s = (r1, s1)" by (cases "fn i s")
  show ?case
  proof (cases r1)
    case (Inl e)
    with f assms have "s1 = s" by blast
    with Suc.prems f Inl Suc.IH show ?thesis
      by (subst (asm) retry_loop.simps) (auto split: if_splits option.splits)
  next
    case (Inr v)
    with Suc.prems f show ?thesis by (subst (asm) retry_loop.simps) auto
  qed
qed

definition seen_row_of :: "int \<Rightarrow> seen_mapping \<Rightarrow> seen_row" where
  "seen_row_of now m = \<lparr>row_anilist = sm_AniListID m, row_title = sm_Title m, first_seen_at = now,
     starts_at = StartsAt m\<rparr>"

text \<open>The first mapping of each key, when the key is not in the table yet.\<close>

definition inserted_as :: "int \<Rightarrow> seen_mapping list \<Rightarrow> (seen_key, seen_row) gomap \<Rightarrow>
    seen_mapping list \<Rightarrow> (seen_key, seen_row) gomap \<Rightarrow> bool" where
  "inserted_as now ms t new t' \<longleftrightarrow>
     distinct (map seen_key_of new)
     \<and> (\<forall>m. m \<in> set new \<longleftrightarrow> (\<exists>m0. find (\<lambda>m'. seen_key_of m' = seen_key_of m0) ms = Some m0
            \<and> mget t (seen_key_of m0) = None \<and> m = m0\<lparr>FirstSeenAt := now\<rparr>))
     \<and> (\<forall>k. mget t' k = (case mget t k of
            Some r \<Rightarrow> Some r
          | None \<Rightarrow> map_option (seen_row_of now) (find (\<lambda>m. seen_key_of m = k) ms)))"

lemma seen_key_FirstSeenAt [simp]: "seen_key_of (m\<lparr>FirstSeenAt := now\<rparr>) = seen_key_of m"
  by (simp add: seen_key_of_def)

lemma insert_loop_inserted:
  "insert_loop errs i now ms acc t = Inr (new, t') \<Longrightarrow>
    \<exists>added. new = acc @ added \<and> inserted_as now ms t added t'"
proof (induction errs i now ms acc t rule: insert_loop.induct)
  case (1 errs i now acc t)
  then show ?case by (auto simp: inserted_as_def split: option.splits)
next
  case (2 errs i now m ms acc t)
  let ?k = "seen_key_of m"
  obtain n t1 where step: "insert_or_ignore now m t = (n, t1)" by fastforce
  from "2.prems" step have err: "errs i = None"
    and rest: "insert_loop errs (Suc i) now ms (if 0 < n then acc @ [m\<lparr>FirstSeenAt := now\<rparr>] else acc) t1
      = Inr (new, t')"
    by (auto split: option.splits)
  obtain added where added: "new = (if 0 < n then acc @ [m\<lparr>FirstSeenAt := now\<rparr>] else acc) @ added"
    "inserted_as now ms t1 added t'"
    using "2.IH" [OF err step [symmetric] rest] by blast
  show ?case
  proof (cases "mget t ?k")
    case (Some r)
    then have "n = 0" "t1 = t" using step by (auto simp: insert_or_ignore_def)
    moreover have "find (\<lambda>m'. seen_key_of m' = seen_key_of m0) (m # ms) =
        find (\<lambda>m'. seen_key_of m' = seen_key_of m0) ms" if "mget t (seen_key_of m0) = None" for m0
      using that Some by auto
    then have "(\<exists>m0. find (\<lambda>m'. seen_key_of m' = seen_key_of m0) (m # ms) = Some m0
          \<and> mget t (seen_key_of m0) = None \<and> m' = m0\<lparr>FirstSeenAt := now\<rparr>) \<longleftrightarrow>
        (\<exists>m0. find (\<lambda>m'. seen_key_of m' = seen_key_of m0) ms = Some m0
          \<and> mget t (seen_key_of m0) = None \<and> m' = m0\<lparr>FirstSeenAt := now\<rparr>)" for m'
      by metis
    moreover have "(case mget t k of Some r \<Rightarrow> Some r
          | None \<Rightarrow> map_option (seen_row_of now) (find (\<lambda>m. seen_key_of m = k) (m # ms))) =
        (case mget t k of Some r \<Rightarrow> Some r
          | None \<Rightarrow> map_option (seen_row_of now) (find (\<lambda>m. seen_key_of m = k) ms))" for k
      using Some by (auto split: option.splits)
    ultimately have "inserted_as now (m # ms) t added t' = inserted_as now ms t added t'"
      unfolding inserted_as_def by presburger
    with added \<open>n = 0\<close> \<open>t1 = t\<close> show ?thesis by auto
  next
    case None
    then have n: "n = 1" and t1: "\<And>k. mget t1 k = (if k = ?k then Some (seen_row_of now m) else mget t k)"
      using step by (auto simp: insert_or_ignore_def seen_row_of_def)
    have old: "distinct (map seen_key_of added)"
      "\<And>m'. m' \<in> set added \<longleftrightarrow> (\<exists>m0. find (\<lambda>m. seen_key_of m = seen_key_of m0) ms = Some m0
            \<and> mget t1 (seen_key_of m0) = None \<and> m' = m0\<lparr>FirstSeenAt := now\<rparr>)"
      "\<And>k. mget t' k = (case mget t1 k of Some r \<Rightarrow> Some r
          | None \<Rightarrow> map_option (seen_row_of now) (find (\<lambda>m. seen_key_of m = k) ms))"
      using added(2) unfolding inserted_as_def by blast+
    have fresh: "?k \<notin> seen_key_of ` set added"
      using old(2) t1 by auto
    have "inserted_as now (m # ms) t (m\<lparr>FirstSeenAt := now\<rparr> # added) t'"
      unfolding inserted_as_def
    proof (intro conjI allI)
      show "distinct (map seen_key_of (m\<lparr>FirstSeenAt := now\<rparr> # added))" using old(1) fresh by simp
    next
      fix m'
      show "m' \<in> set (m\<lparr>FirstSeenAt := now\<rparr> # added) \<longleftrightarrow>
        (\<exists>m0. find (\<lambda>m. seen_key_of m = seen_key_of m0) (m # ms) = Some m0
            \<and> mget t (seen_key_of m0) = None \<and> m' = m0\<lparr>FirstSeenAt := now\<rparr>)"
        (is "_ = ?R")
      proof -
        have "?R \<longleftrightarrow> m' = m\<lparr>FirstSeenAt := now\<rparr> \<or>
          (\<exists>m0. seen_key_of m0 \<noteq> ?k \<and> find (\<lambda>m. seen_key_of m = seen_key_of m0) ms = Some m0
             \<and> mget t (seen_key_of m0) = None \<and> m' = m0\<lparr>FirstSeenAt := now\<rparr>)"
          using None unfolding find.simps by (metis option.inject)
        moreover have "m' \<in> set added \<longleftrightarrow>
          (\<exists>m0. seen_key_of m0 \<noteq> ?k \<and> find (\<lambda>m. seen_key_of m = seen_key_of m0) ms = Some m0
             \<and> mget t (seen_key_of m0) = None \<and> m' = m0\<lparr>FirstSeenAt := now\<rparr>)"
          unfolding old(2) t1 by (metis option.discI)
        ultimately show ?thesis unfolding set_simps insert_iff by blast
      qed
    next
      fix k
      show "mget t' k = (case mget t k of Some r \<Rightarrow> Some r
          | None \<Rightarrow> map_option (seen_row_of now) (find (\<lambda>m. seen_key_of m = k) (m # ms)))"
        using old(3) [of k] t1 [of k] None by (auto split: option.splits)
    qed
    with added(1) n show ?thesis by auto
  qed
qed

lemma MarkSeenMappings_result:
  assumes "MarkSeenMappings wts txs now ms c = (r, c')"
  shows "case r of
      Inl _ \<Rightarrow> c' = c
    | Inr new \<Rightarrow> inserted_as (unix_now now) ms (seen_mappings c) new (seen_mappings c')
        \<and> c' = c\<lparr>seen_mappings := seen_mappings c'\<rparr>"
proof (cases "ms = []")
  case True
  with assms show ?thesis
    by (auto simp: MarkSeenMappings_def inserted_as_def split: option.splits)
next
  case False
  let ?fn = "\<lambda>i. markSeenMappingsOnce (txs i) (unix_now now) ms"
  have run: "retry_loop (busyRetryAttempts - 1) 0 wts ?fn c = (r, c')"
    using assms False by (simp add: MarkSeenMappings_def retryBusyValue_def)
  have "?fn i c = (Inl e, s') \<Longrightarrow> s' = c" for i e s'
    by (auto simp: markSeenMappingsOnce_def split: option.splits sum.splits)
  from retry_loop_cases [where fn = ?fn and s = c, OF this run]
  have res: "case r of Inl _ \<Rightarrow> c' = c | Inr v \<Rightarrow> \<exists>k. ?fn k c = (Inr v, c')"
    by simp
  show ?thesis
  proof (cases r)
    case (Inl e)
    with res show ?thesis by simp
  next
    case (Inr new)
    with res obtain i where "?fn i c = (Inr new, c')" by auto
    then obtain t where "insert_loop (insert_err (txs i)) 0 (unix_now now) ms [] (seen_mappings c) = Inr (new, t)"
      "c' = c\<lparr>seen_mappings := t\<rparr>"
      by (auto simp: markSeenMappingsOnce_def split: option.splits sum.splits)
    with insert_loop_inserted [OF this(1)] Inr show ?thesis by auto
  qed
qed

text \<open>
  Claim C27. Marking mappings either fails and changes nothing, or is atomic: it returns exactly the
  first mapping of every (TVDB id, season, year) that was not in the table, stamped with the time,
  each key once; the table then holds the old rows unchanged and the new ones.
\<close>

theorem MarkSeenMappings_atomic:
  assumes "MarkSeenMappings wts txs now ms c = (r, c')"
  shows "case r of
      Inl _ \<Rightarrow> c' = c
    | Inr new \<Rightarrow> inserted_as (unix_now now) ms (seen_mappings c) new (seen_mappings c')
        \<and> c' = c\<lparr>seen_mappings := seen_mappings c'\<rparr>"
  by (rule MarkSeenMappings_result [OF assms])

lemma MarkSeenMappings_atomic_witness:
  fixes m
  defines "m k \<equiv> \<lparr>sm_TVDBID = k, sm_AniListID = k, sm_Title = [], sm_Season = ''FALL'', sm_Year = 2024,
    StartsAt = [], FirstSeenAt = 0\<rparr>"
  defines "ok \<equiv> \<lparr>begin_err = None, prepare_err = None, insert_err = \<lambda>_. None, commit_err = None\<rparr>"
  shows "\<exists>c'. MarkSeenMappings (\<lambda>_. None) (\<lambda>i. if i = 0 then ok\<lparr>commit_err := Some Busy\<rparr> else ok)
      \<lparr>ck_now = of_unix 50, ck_year = 2024\<rparr> [m 1, m 2, m 1]
      (openCacheDB [] []) = (Inr [(m 1)\<lparr>FirstSeenAt := 50\<rparr>, (m 2)\<lparr>FirstSeenAt := 50\<rparr>], c')
    \<and> mget (seen_mappings c') (2, ''FALL'', 2024) \<noteq> None"
proof -
  let ?txs = "\<lambda>i. if i = 0 then ok\<lparr>commit_err := Some Busy\<rparr> else ok"
    and ?now = "\<lparr>ck_now = of_unix 50, ck_year = 2024\<rparr>"
  let ?run = "MarkSeenMappings (\<lambda>_. None) ?txs ?now [m 1, m 2, m 1] (openCacheDB [] [])"
  have new: "fst ?run = Inr [(m 1)\<lparr>FirstSeenAt := 50\<rparr>, (m 2)\<lparr>FirstSeenAt := 50\<rparr>]"
    by (simp add: MarkSeenMappings_def retryBusyValue_def busyRetryAttempts_def retry_loop.simps
        markSeenMappingsOnce_def ok_def insert_or_ignore_def openCacheDB_def gm.get_emp m_def
        seen_key_of_def unix_now_def isBusy_def waitBeforeRetry_def eval_nat_numeral)
  then obtain c' where run: "?run = (Inr [(m 1)\<lparr>FirstSeenAt := 50\<rparr>, (m 2)\<lparr>FirstSeenAt := 50\<rparr>], c')"
    by (cases ?run) auto
  have "mget (seen_mappings c') (2, ''FALL'', 2024) \<noteq> None"
    using MarkSeenMappings_atomic [OF run]
    by (auto simp: inserted_as_def openCacheDB_def gm.get_emp m_def seen_key_of_def)
  with run show ?thesis by blast
qed

section \<open>Properties: freshness and decoded reads\<close>

text \<open>
  The years listed for a refresh are exactly those older than their limit, each once, and
  when the limits are at least the freshness windows a reader already sees every one of them as
  stale (the limit itself is on the fresh side for the refresh and on the stale side for the reader).
\<close>

lemma NeedsRefresh_lists_stale:
  assumes "cache_ok dec c" "env_error env = None" "env_error renv = None"
    and "currentYearFreshness c \<le> days_duration cur" "pastYearFreshness c \<le> days_duration past"
  shows "\<exists>years. NeedsRefreshYearsContext env now (ck_year now) cur past c = Inr years \<and> distinct years
    \<and> (\<forall>y. y \<in> set years \<longleftrightarrow> (\<exists>r. mget (year_cache c) y = Some r \<and>
         (if y = ck_year now then days_duration cur else days_duration past)
           < time_sub (ck_now now) (of_unix (fetched_at r))))
    \<and> (\<forall>y \<in> set years. \<exists>data. fst (PeekYearContext renv now y c) = Inr (data, False, True))"
proof -
  let ?P = "\<lambda>year row. needs_refresh now (ck_year now) cur past year (fetched_at row)"
  let ?years = "map fst (filter (\<lambda>(year, row). ?P year row) (year_cache c))"
  note wf = cache_okD(2) [OF assms(1)]
  have run: "NeedsRefreshYearsContext env now (ck_year now) cur past c = Inr ?years"
    using assms(2) by (simp add: NeedsRefreshYearsContext_def queryRowWithRetry_eq)
  have dist: "distinct ?years"
    using wf by (simp add: mwf_def distinct_map_filter)
  have mem: "y \<in> set ?years \<longleftrightarrow> (\<exists>r. mget (year_cache c) y = Some r \<and> ?P y r)" for y
    by (auto simp: mget_Some_iff [OF wf] image_iff)
  have stale: "fst (PeekYearContext renv now y c) = Inr (yr_data r, False, True)"
    if "mget (year_cache c) y = Some r" "?P y r" for y r
    using that assms(3-5)
    by (auto simp: PeekYearContext_def readYearContext_def queryRowWithRetry_eq yearFreshAt_def Let_def
        needs_refresh_def split: if_splits)
  have "y \<in> set ?years \<longleftrightarrow> (\<exists>r. mget (year_cache c) y = Some r \<and>
         (if y = ck_year now then days_duration cur else days_duration past)
           < time_sub (ck_now now) (of_unix (fetched_at r)))" for y
    unfolding mem by (simp add: needs_refresh_def Let_def)
  moreover have "\<forall>y \<in> set ?years. \<exists>data. fst (PeekYearContext renv now y c) = Inr (data, False, True)"
    using mem stale by blast
  ultimately show ?thesis using run dist by blast
qed

lemma NeedsRefresh_lists_stale_witness:
  defines "row t \<equiv> \<lparr>yr_data = ''[]'', fetched_at = t, last_hit = 0\<rparr>"
  defines "now \<equiv> \<lparr>ck_now = of_unix 700000, ck_year = 2024\<rparr>"
  shows "\<exists>years. NeedsRefreshYearsContext \<lparr>fails = \<lambda>_. None, waits = \<lambda>_. None\<rparr> now 2024 1 7
      (openCacheDB [(2024, row 0), (2023, row 600000)] []) = Inr years
    \<and> 2024 \<in> set years \<and> 2023 \<notin> set years"
proof -
  let ?c = "openCacheDB [(2024, row 0), (2023, row 600000)] []"
  let ?env = "\<lparr>fails = \<lambda>_. None, waits = \<lambda>_. None\<rparr>"
  have ok: "cache_ok (\<lambda>_. None) ?c" by (intro openCacheDB_ok) (simp_all add: mwf_def)
  have env: "env_error ?env = None" by (simp add: env_error_def env_error_from.simps)
  have days: "days_duration 1 = 24 * hour" "days_duration 7 = 168 * hour"
    by (simp_all add: days_duration_def wrap64_def duration_defs)
  have rows: "mget (year_cache ?c) 2024 = Some (row 0)" "mget (year_cache ?c) 2023 = Some (row 600000)"
    by (simp_all add: openCacheDB_def mget_def)
  have "currentYearFreshness ?c \<le> days_duration 1" "pastYearFreshness ?c \<le> days_duration 7"
    by (simp_all add: days openCacheDB_def)
  from NeedsRefresh_lists_stale [OF ok env env this, of now] obtain years where
    "NeedsRefreshYearsContext ?env now 2024 1 7 ?c = Inr years"
    and mem: "\<And>y. y \<in> set years \<longleftrightarrow> (\<exists>r. mget (year_cache ?c) y = Some r \<and>
         (if y = 2024 then days_duration 1 else days_duration 7)
           < time_sub (of_unix 700000) (of_unix (fetched_at r)))"
    by (auto simp: now_def)
  moreover have "2024 \<in> set years" "2023 \<notin> set years"
    unfolding mem rows days
    by (auto simp: row_def time_sub_def of_unix_def duration_defs min_int64_def max_int64_def)
  ultimately show ?thesis by blast
qed

definition decoder_of :: "(string \<Rightarrow> string + anilist_show list) \<Rightarrow> string \<Rightarrow> anilist_show list option" where
  "decoder_of decode raw = (case decode raw of Inl _ \<Rightarrow> None | Inr shs \<Rightarrow> Some shs)"

definition keeps_ok :: "(string \<Rightarrow> anilist_show list option) \<Rightarrow> (cache \<Rightarrow> cache) \<Rightarrow> bool" where
  "keeps_ok dec f \<longleftrightarrow> (\<forall>c. cache_ok dec c \<longrightarrow> cache_ok dec (f c))"

lemma cache_ok_decoded: "cache_ok dec c \<Longrightarrow> dc_ok dec d \<Longrightarrow> cache_ok dec (c\<lparr>decoded := d\<rparr>)"
  by (simp add: cache_ok_def)

text \<open>What a read of the row \<open>found\<close> must give: the decoding of its bytes.\<close>

definition read_result :: "(string \<Rightarrow> string + anilist_show list) \<Rightarrow> decoded_year \<Rightarrow> string \<Rightarrow> decoded_year" where
  "read_result decode result raw =
     (case decode raw of
        Inl e \<Rightarrow> result\<lparr>dy_DecodeErr := Some e\<rparr>
      | Inr shs \<Rightarrow> result\<lparr>dy_Shows := shs\<rparr>)"

text \<open>No context of the read ended before it returned.\<close>

definition alive :: "read_env \<Rightarrow> bool" where
  "alive renv \<longleftrightarrow> ctx_start renv = None \<and> ctx_absent renv = None \<and> ctx_waiting renv = None
     \<and> ctx_gate renv = None \<and> ctx_decoded renv = None \<and> ctx_end renv = None"

lemma read_finish_result:
  assumes "cache_ok dec c" "dy_DecodeErr result = None"
  shows "\<exists>res err. read_finish renv result shs c = Some ((res, err), c)
    \<and> (alive renv \<longrightarrow> err = None) \<and> (err = None \<longrightarrow> res = result\<lparr>dy_Shows := shs\<rparr>)"
  using assms by (auto simp: read_finish_def Let_def alive_def split: option.splits)

lemma read_gated_result:
  assumes "cache_ok (decoder_of decode) c" "dy_DecodeErr result = None" "dy_Shows result = []"
    and "keeps_ok (decoder_of decode) (others_waiting renv)" "keeps_ok (decoder_of decode) (others_decoding renv)"
  shows "\<exists>res err c'. read_gated renv decode caps year raw gen result c = Some ((res, err), c')
    \<and> cache_ok (decoder_of decode) c' \<and> (alive renv \<longrightarrow> err = None)
    \<and> (err = None \<longrightarrow> res = read_result decode result raw)"
proof (cases "ctx_waiting renv = None \<and> ctx_gate renv = None")
  case False
  with assms show ?thesis
    by (auto simp: read_gated_def Let_def keeps_ok_def alive_def split: option.splits)
next
  case True
  let ?dec = "decoder_of decode" and ?c1 = "others_waiting renv c"
  have ok1: "cache_ok ?dec ?c1" using assms(1,4) by (simp add: keeps_ok_def)
  obtain r d where look: "lookup year raw True gen (decoded ?c1) = Some (r, d)"
    using memo.find_total [OF cache_okD(1) [OF ok1]] by blast
  have dok: "dc_ok ?dec d" using memo.find_ok [OF cache_okD(1) [OF ok1] look] .
  note ok2 = cache_ok_decoded [OF ok1 dok]
  show ?thesis
  proof (cases r)
    case (Some shs)
    then have "?dec raw = Some shs"
      using memo.find_value [OF cache_okD(1) [OF ok1]] look by blast
    then have "decode raw = Inr shs" by (auto simp: decoder_of_def split: sum.splits)
    with True look Some read_finish_result [OF ok2 assms(2), of renv shs] ok2 show ?thesis
      by (auto simp: read_gated_def Let_def read_result_def)
  next
    case None
    let ?c2 = "others_decoding renv (?c1\<lparr>decoded := d\<rparr>)"
    have ok3: "cache_ok ?dec ?c2" using ok2 assms(5) by (simp add: keeps_ok_def)
    show ?thesis
    proof (cases "ctx_decoded renv = None")
      case False
      with True look None ok3 show ?thesis by (auto simp: read_gated_def Let_def alive_def)
    next
      case ctx: True
      show ?thesis
      proof (cases "decode raw")
        case (Inl e)
        have "\<exists>res err. read_finish renv (result\<lparr>dy_DecodeErr := Some e\<rparr>) [] ?c2 = Some ((res, err), ?c2)
            \<and> (alive renv \<longrightarrow> err = None) \<and> (err = None \<longrightarrow> res = result\<lparr>dy_DecodeErr := Some e\<rparr>)"
          by (simp add: read_finish_def Let_def alive_def split: option.splits)
        with True look None ctx Inl ok3 show ?thesis
          by (auto simp: read_gated_def Let_def read_result_def)
      next
        case (Inr shs)
        then have "?dec raw = Some shs" by (simp add: decoder_of_def)
        then obtain d2 where d2: "admit caps year raw shs gen (decoded ?c2) = Some d2" "dc_ok ?dec d2"
          using memo.fill_ok [OF cache_okD(1) [OF ok3]] by blast
        note ok4 = cache_ok_decoded [OF ok3 d2(2)]
        from read_finish_result [OF ok4 assms(2), of renv shs] True look None ctx Inr d2(1) ok4
        show ?thesis by (auto simp: read_gated_def Let_def read_result_def)
      qed
    qed
  qed
qed

lemma readYearContext_ok [wf_rules]:
  assumes "cache_ok dec c" "readYearContext env now year acc c = (r, c')"
  shows "cache_ok dec c'"
proof -
  have "cache_ok dec (c\<lparr>misses := x\<rparr>)" "cache_ok dec (c\<lparr>hits := x\<rparr>)" for x
    using assms(1) by (simp_all add: cache_ok_def)
  with assms show ?thesis
    by (auto simp: readYearContext_def Let_def queueLastHit_ok split: sum.splits option.splits if_splits)
qed

lemma decoded_read_result:
  fixes decode
  defines "dec \<equiv> decoder_of decode"
  assumes "cache_ok dec c" "keeps_ok dec (others_before renv)" "keeps_ok dec (others_read renv)"
    and "keeps_ok dec (others_waiting renv)" "keeps_ok dec (others_decoding renv)"
  shows "\<exists>res err c'. readDecodedYearContext env renv decode caps now year acc c = Some ((res, err), c')
    \<and> cache_ok dec c'
    \<and> (alive renv \<and> env_error env = None \<longrightarrow> err = None)
    \<and> (err = None \<longrightarrow>
        (case mget (year_cache (others_before renv c)) year of
           None \<Rightarrow> res = zero_decoded_year
         | Some row \<Rightarrow> res = read_result decode
             (zero_decoded_year\<lparr>dy_Fresh := yearFreshAt (others_before renv c) year (fetched_at row) now,
                dy_Present := True\<rparr>) (yr_data row)))"
proof (cases "ctx_start renv")
  case (Some e)
  with assms show ?thesis by (simp add: readDecodedYearContext_def alive_def)
next
  case None
  let ?c0 = "others_before renv c" and ?gen = "generation (decoded c)"
  have ok0: "cache_ok dec ?c0" using assms(2,3) by (simp add: keeps_ok_def)
  obtain r c1 where read: "readYearContext env now year acc ?c0 = (r, c1)" by fastforce
  have ok1: "cache_ok dec c1" using readYearContext_ok [OF ok0 read] .
  show ?thesis
  proof (cases r)
    case (Inl e)
    with read have "env_error env \<noteq> None"
      by (auto simp: readYearContext_def queryRowWithRetry_eq Let_def split: option.splits)
    with Inl None read ok1 show ?thesis by (simp add: readDecodedYearContext_def Let_def)
  next
    case (Inr p)
    obtain raw fresh present where p: "p = (raw, fresh, present)" by (cases p)
    let ?c2 = "others_read renv c1"
    let ?res = "zero_decoded_year\<lparr>dy_Fresh := fresh, dy_Present := present\<rparr>"
    have row: "case mget (year_cache ?c0) year of
        None \<Rightarrow> \<not> present \<and> \<not> fresh
      | Some row \<Rightarrow> present \<and> raw = yr_data row \<and> fresh = yearFreshAt ?c0 year (fetched_at row) now"
      using read Inr p
      by (auto simp: readYearContext_def queryRowWithRetry_eq Let_def yearFreshAt_def
          split: option.splits sum.splits if_splits)
    have ok2: "cache_ok dec ?c2" using ok1 assms(4) by (simp add: keeps_ok_def)
    obtain hit d where look: "lookup year raw present ?gen (decoded ?c2) = Some (hit, d)"
      using memo.find_total [OF cache_okD(1) [OF ok2]] by blast
    note ok3 = cache_ok_decoded [OF ok2 memo.find_ok [OF cache_okD(1) [OF ok2] look]]
    have start: "readDecodedYearContext env renv decode caps now year acc c =
        (if \<not> present then Some ((?res, map_option CtxErr (ctx_absent renv)), ?c2\<lparr>decoded := d\<rparr>)
         else (case hit of Some shs \<Rightarrow> read_finish renv ?res shs (?c2\<lparr>decoded := d\<rparr>)
               | None \<Rightarrow> read_gated renv decode caps year raw ?gen ?res (?c2\<lparr>decoded := d\<rparr>)))"
      using None read Inr p look by (simp add: readDecodedYearContext_def Let_def)
    have zero: "dy_DecodeErr ?res = None" "dy_Shows ?res = []" by (simp_all add: zero_decoded_year_def)
    show ?thesis
    proof (cases present)
      case False
      then have "mget (year_cache ?c0) year = None" "\<not> fresh"
        using row by (auto split: option.splits)
      with start False ok3 show ?thesis by (simp add: zero_decoded_year_def alive_def)
    next
      case True
      then obtain rw where rw: "mget (year_cache ?c0) year = Some rw" "raw = yr_data rw"
        "fresh = yearFreshAt ?c0 year (fetched_at rw) now"
        using row by (auto split: option.splits)
      show ?thesis
      proof (cases hit)
        case (Some shs)
        then have "dec raw = Some shs"
          using memo.find_value [OF cache_okD(1) [OF ok2]] look by blast
        then have "decode raw = Inr shs" by (auto simp: dec_def decoder_of_def split: sum.splits)
        with start True Some rw read_finish_result [OF ok3 zero(1), of renv shs] ok3 show ?thesis
          by (auto simp: read_result_def)
      next
        case None
        have "\<exists>res err c'. read_gated renv decode caps year raw ?gen ?res (?c2\<lparr>decoded := d\<rparr>) = Some ((res, err), c')
          \<and> cache_ok dec c' \<and> (alive renv \<longrightarrow> err = None) \<and> (err = None \<longrightarrow> res = read_result decode ?res raw)"
          using read_gated_result [OF ok3 [unfolded dec_def] zero] assms(5,6) by (simp add: dec_def)
        with start True None rw show ?thesis by auto
      qed
    qed
  qed
qed

text \<open>
  Claim C5. A decoded read never panics and, whatever other goroutines do at any point of it, it
  returns an error only when a statement or the context failed, and otherwise reports the row it read: absent without shows, or present with the shows (or
  the error) that decoding exactly the row's bytes gives, cached or not.
\<close>

theorem decoded_read_transparent:
  fixes decode
  defines "dec \<equiv> decoder_of decode"
  assumes "cache_ok dec c" "keeps_ok dec (others_before renv)" "keeps_ok dec (others_read renv)"
    and "keeps_ok dec (others_waiting renv)" "keeps_ok dec (others_decoding renv)"
  shows "\<exists>res err c'. readDecodedYearContext env renv decode caps now year acc c = Some ((res, err), c')
    \<and> cache_ok dec c'
    \<and> (alive renv \<and> env_error env = None \<longrightarrow> err = None)
    \<and> (err = None \<longrightarrow>
        (case mget (year_cache (others_before renv c)) year of
           None \<Rightarrow> res = zero_decoded_year
         | Some row \<Rightarrow> res = read_result decode
             (zero_decoded_year\<lparr>dy_Fresh := yearFreshAt (others_before renv c) year (fetched_at row) now,
                dy_Present := True\<rparr>) (yr_data row)))"
  using decoded_read_result [of decode c renv env caps now year acc] assms by simp

lemma decoded_read_transparent_witness:
  fixes renv
  defines "renv \<equiv> \<lparr>ctx_start = None, ctx_absent = None, ctx_waiting = None, ctx_gate = None, ctx_decoded = None,
    ctx_end = None, others_before = \<lambda>c. c, others_read = queueLastHit 2024 0 50, others_waiting = \<lambda>c. c,
    others_decoding = \<lambda>c. c\<rparr>"
  defines "c \<equiv> openCacheDB [(2024, \<lparr>yr_data = '' []'', fetched_at = 100, last_hit = 0\<rparr>)] []"
  shows "\<exists>c'. GetDecodedYearContext \<lparr>fails = \<lambda>_. None, waits = \<lambda>_. None\<rparr> renv (DecodeYearData (\<lambda>_. Inr []))
      \<lparr>raw_cap = 2, shows_cap = 0, tag_edge_caps = []\<rparr> \<lparr>ck_now = of_unix 101, ck_year = 2024\<rparr> 2024 c =
    Some ((\<lparr>dy_Shows = [], dy_Fresh = True, dy_Present = True, dy_DecodeErr = None\<rparr>, None), c')"
proof -
  let ?dec = "DecodeYearData (\<lambda>_. Inr [])" and ?env = "\<lparr>fails = \<lambda>_. None, waits = \<lambda>_. None\<rparr>"
  have ok: "cache_ok (decoder_of ?dec) c" unfolding c_def by (intro openCacheDB_ok) (simp_all add: mwf_def)
  have keeps: "keeps_ok (decoder_of ?dec) (others_before renv)" "keeps_ok (decoder_of ?dec) (others_read renv)"
    "keeps_ok (decoder_of ?dec) (others_waiting renv)" "keeps_ok (decoder_of ?dec) (others_decoding renv)"
    by (simp_all add: keeps_ok_def renv_def queueLastHit_ok)
  have env: "env_error ?env = None" "alive renv"
    by (simp_all add: env_error_def env_error_from.simps alive_def renv_def)
  have row: "mget (year_cache (others_before renv c)) 2024 = Some \<lparr>yr_data = '' []'', fetched_at = 100, last_hit = 0\<rparr>"
    by (simp add: renv_def c_def openCacheDB_def mget_def)
  have fresh: "yearFreshAt (others_before renv c) 2024 100 \<lparr>ck_now = of_unix 101, ck_year = 2024\<rparr>"
    by (simp add: renv_def c_def yearFreshAt_def openCacheDB_def time_sub_def of_unix_def duration_defs Let_def
        min_int64_def max_int64_def)
  have "?dec '' []'' = Inr []" by code_simp
  with decoded_read_transparent [OF ok keeps, of ?env _ "\<lparr>ck_now = of_unix 101, ck_year = 2024\<rparr>" 2024 True] env row fresh
  show ?thesis by (auto simp: GetDecodedYearContext_def read_result_def zero_decoded_year_def)
qed

end
