(* ===== verification/Anilist_Client.thy ===== *)
theory Anilist_Client
  imports Anilist_Show
begin

text \<open>
  The AniList client (\<open>internal/anilist/anilist.go\<close>): the shared rate limiter, the request loop with
  its retries, and the paginated fetch of a year. The clock readings, the sleeps, the random jitter,
  the HTTP exchange and the JSON decoder's verdicts are inputs; each routine consumes them in the
  order the code asks for them.
\<close>

section \<open>Constants and state\<close>

definition maxRetry :: nat where "maxRetry = 5"
definition rateLimitDelay :: duration where "rateLimitDelay = 2300 * (second div 1000)"
definition defaultBatchSize :: nat where "defaultBatchSize = 4"
definition maxPages :: int where "maxPages = 100"
definition maxRetryAfter :: duration where "maxRetryAfter = 2 * minute"

record client =
  interval :: duration
  lastAdmission :: instant
  cooldownUntil :: instant

definition NewWithHTTPClient :: client where
  "NewWithHTTPClient = \<lparr>interval = rateLimitDelay, lastAdmission = 0, cooldownUntil = 0\<rparr>"

text \<open>\<open>jitter\<close>: \<open>r\<close> is the random number, between 0 and twice the quarter.\<close>

definition jitter_quarter :: "duration \<Rightarrow> duration" where
  "jitter_quarter d = d div 4"

definition jitter :: "duration \<Rightarrow> int \<Rightarrow> duration" where
  "jitter d r = (if d \<le> 0 then d else d + (r - jitter_quarter d))"

text \<open>\<open>sleepContext\<close>: a timer against the context, whose error is \<open>cancelled\<close> when it ends first.\<close>

definition sleepContext :: "duration \<Rightarrow> ctx_err option \<Rightarrow> ctx_err option" where
  "sleepContext d cancelled = (if d \<le> 0 then None else cancelled)"

section \<open>Admission\<close>

definition ready_at :: "instant \<Rightarrow> client \<Rightarrow> instant" where
  "ready_at retryAt c =
     (let ready0 = lastAdmission c + interval c;
          ready1 = (if ready0 < cooldownUntil c then cooldownUntil c else ready0)
      in if ready1 < retryAt then retryAt else ready1)"

text \<open>The critical section of \<open>throttle\<close>: admitted with the new state, or how long to wait.\<close>

datatype admission = Admitted client | Wait duration

definition admission_section :: "instant \<Rightarrow> instant \<Rightarrow> client \<Rightarrow> admission" where
  "admission_section now retryAt c =
     (let ready = ready_at retryAt c in
      if \<not> now < ready then Admitted (c\<lparr>lastAdmission := now\<rparr>)
      else Wait (time_sub ready now))"

text \<open>Why a body could not be read to its end, as \<open>errors.Is\<close> finds it behind the error that wraps it.\<close>

datatype read_cause = CtxCause ctx_err | OtherCause string

datatype decode_err =
    BodyUnread read_cause
  | BadBody string
  | BodyTooLong
  | TrailingData

datatype req_err =
    NetworkError
  | RateLimited nat
  | ApiError int
  | ApiErrorUnread int read_cause
  | DecodeFailed decode_err

datatype client_err =
    CtxFailed ctx_err
  | WaitTooLong
  | CreateRequest
  | CooldownTooLong
  | GaveUp nat "req_err option"

text \<open>
  One iteration of the wait: the context at its start, the clock, what the sleep returns, and what
  other goroutines do to the limiter meanwhile.
\<close>

record wait_obs =
  ob_ctx :: "ctx_err option"
  ob_now :: instant
  ob_sleep :: "ctx_err option"
  ob_others :: "client \<Rightarrow> client"

text \<open>\<^const>\<open>None\<close>: still waiting when the observations end.\<close>

fun throttle ::
    "wait_obs list \<Rightarrow> instant \<Rightarrow> client \<Rightarrow> (client_err option \<times> client) option" where
  "throttle [] retryAt c = None"
| "throttle (ob # obs) retryAt c =
     (case ob_ctx ob of
        Some e \<Rightarrow> Some (Some (CtxFailed e), c)
      | None \<Rightarrow>
          (case admission_section (ob_now ob) retryAt c of
             Admitted c' \<Rightarrow> Some (None, c')
           | Wait delay \<Rightarrow>
               if maxRetryAfter < delay then Some (Some WaitTooLong, c)
               else (case sleepContext delay (ob_sleep ob) of
                       Some e \<Rightarrow> Some (Some (CtxFailed e), c)
                     | None \<Rightarrow> throttle obs retryAt (ob_others ob c))))"

section \<open>Upstream constraints\<close>

record response =
  StatusCode :: int
  RateLimit_Limit :: string
  RateLimit_Remaining :: string
  RateLimit_Reset :: string
  Retry_After :: string

text \<open>\<open>int64((1<<63-1)/time.Second)\<close> seconds fit a duration.\<close>

definition headerDuration :: "int \<Rightarrow> duration" where
  "headerDuration seconds =
     (if max_int64 div second < seconds then max_int64 else seconds * second)"

text \<open>
  \<open>time.Duration(float64(time.Minute) / (0.9 * float64(limit)))\<close>, a minute spread over nine tenths of
  the limit, truncated. The exact quotient is \<open>2 * 10 ^ 11 / (3 * limit)\<close>; it is never an integer and
  at least \<open>1 / (3 * limit)\<close> away from one, which for the limits up to 28 (where it exceeds the default)
  is far more than the rounding error of the floating-point division; for larger limits the default
  wins.
\<close>

definition paced_interval :: "int \<Rightarrow> duration" where
  "paced_interval limit = max rateLimitDelay (200000000000 div (3 * limit))"

definition observe_limit :: "response \<Rightarrow> client \<Rightarrow> client" where
  "observe_limit resp c =
     (case parse_int 32 (RateLimit_Limit resp) of
        Some limit \<Rightarrow> if 0 < limit then c\<lparr>interval := paced_interval limit\<rparr> else c
      | None \<Rightarrow> c)"

text \<open>The deadline of the reset header (the zero time without one), then of \<open>Retry-After\<close>.\<close>

definition reset_deadline :: "response \<Rightarrow> instant \<Rightarrow> instant" where
  "reset_deadline resp now =
     (case parse_int 64 (RateLimit_Reset resp) of
        Some reset \<Rightarrow>
          if to_unix now < reset then
            (if wrap64 (reset - to_unix now) \<le> max_int64 div second then of_unix reset
             else now + headerDuration (wrap64 (reset - to_unix now)))
          else 0
      | None \<Rightarrow> 0)"

datatype retry_state = NotApplicable | Missing | Invalid | Valid | ExceedsBound

definition retry_after :: "response \<Rightarrow> instant \<Rightarrow> instant \<Rightarrow> retry_state \<times> instant" where
  "retry_after resp now deadline =
     (if Retry_After resp = [] then (Missing, deadline)
      else (case parse_int 64 (Retry_After resp) of
              Some seconds \<Rightarrow>
                if 0 < seconds then
                  (let retry = now + headerDuration seconds
                   in (Valid, if deadline < retry then retry else deadline))
                else (Invalid, deadline)
            | None \<Rightarrow> (Invalid, deadline)))"

definition observeAllowance ::
    "response \<Rightarrow> instant \<Rightarrow> client \<Rightarrow> (retry_state \<times> client_err option) \<times> client" where
  "observeAllowance resp now c =
     (let c1 = observe_limit resp c;
          limited = (StatusCode resp = 429);
          remaining = parse_int 64 (RateLimit_Remaining resp)
      in if \<not> limited \<and> remaining \<noteq> Some 0 then ((NotApplicable, None), c1)
         else
           (let deadline0 = reset_deadline resp now;
                (state, deadline1) =
                  (if limited then retry_after resp now deadline0 else (NotApplicable, deadline0));
                deadline = (if deadline1 = 0 then now + minute else deadline1);
                c2 = (if cooldownUntil c1 < deadline then c1\<lparr>cooldownUntil := deadline\<rparr> else c1)
            in if limited \<and> now + maxRetryAfter < cooldownUntil c2
               then ((ExceedsBound, Some CooldownTooLong), c2)
               else ((state, None), c2)))"

section \<open>Requests\<close>

text \<open>
  \<open>decodeResponse\<close>: what decoding the first value gives, whether the byte limit is exhausted after
  the second decoding, and whether that one met the end of the input (its error is only printed into the message).
\<close>

definition decodeResponse :: "decode_err + 'a \<Rightarrow> bool \<Rightarrow> bool \<Rightarrow> decode_err + 'a" where
  "decodeResponse first exhausted eof =
     (case first of
        Inl e \<Rightarrow> Inl e
      | Inr v \<Rightarrow>
          if exhausted then Inl BodyTooLong
          else if \<not> eof then Inl TrailingData
          else Inr v)"

text \<open>
  The inputs of one attempt: the jitter and the clock for the backoff, the wait for admission, whether
  the request could be built, the exchange (\<^term>\<open>None\<close> when it failed, and then the context's error),
  the clock when the headers are observed, what other goroutines do to the limiter during the
  exchange, why an error body could not be read (if so), and the decoded body.
\<close>

record 'a attempt_env =
  at_jitter :: int
  at_now :: instant
  at_wait :: "wait_obs list"
  at_create_ok :: bool
  at_http :: "response option"
  at_ctx :: "ctx_err option"
  at_observed :: instant
  at_others :: "client \<Rightarrow> client"
  at_unread :: "read_cause option"
  at_body :: "decode_err + 'a"

definition retry_at :: "'a attempt_env \<Rightarrow> nat \<Rightarrow> instant" where
  "retry_at env attempt =
     (if 0 < attempt then at_now env + jitter (2 ^ attempt * second) (at_jitter env) else 0)"

text \<open>
  \<open>doRequest\<close> from an attempt on: the attempts left, the number of this one, how many requests were
  sent, and the last error. \<^const>\<open>None\<close> when a wait for admission does not end.
\<close>

fun request_loop ::
    "nat \<Rightarrow> nat \<Rightarrow> (nat \<Rightarrow> 'a attempt_env) \<Rightarrow> nat \<Rightarrow> req_err option \<Rightarrow> client \<Rightarrow>
     ((client_err + 'a) \<times> client) option" where
  "request_loop 0 attempt env sent lastErr c = Some (Inl (GaveUp sent lastErr), c)"
| "request_loop (Suc left) attempt env sent lastErr c =
     (case throttle (at_wait (env attempt)) (retry_at (env attempt) attempt) c of
        None \<Rightarrow> None
      | Some (Some e, c1) \<Rightarrow> Some (Inl e, c1)
      | Some (None, c1) \<Rightarrow>
          if \<not> at_create_ok (env attempt) then Some (Inl CreateRequest, c1)
          else
            (let c2 = at_others (env attempt) c1 in
             case at_http (env attempt) of
               None \<Rightarrow>
                 (case at_ctx (env attempt) of
                    Some e \<Rightarrow> Some (Inl (CtxFailed e), c2)
                  | None \<Rightarrow> request_loop left (Suc attempt) env (Suc sent) (Some NetworkError) c2)
             | Some resp \<Rightarrow>
                 (case observeAllowance resp (at_observed (env attempt)) c2 of
                    ((_, Some e), c3) \<Rightarrow> Some (Inl e, c3)
                  | ((_, None), c3) \<Rightarrow>
                      if StatusCode resp = 429
                      then request_loop left (Suc attempt) env (Suc sent) (Some (RateLimited (attempt + 1))) c3
                      else if StatusCode resp \<noteq> 200 then
                        (let err = (case at_unread (env attempt) of
                                      None \<Rightarrow> ApiError (StatusCode resp)
                                    | Some cause \<Rightarrow> ApiErrorUnread (StatusCode resp) cause)
                         in if 400 \<le> StatusCode resp \<and> StatusCode resp < 500
                            then Some (Inl (GaveUp (Suc sent) (Some err)), c3)
                            else request_loop left (Suc attempt) env (Suc sent) (Some err) c3)
                      else (case at_body (env attempt) of
                              Inl e \<Rightarrow> Some (Inl (GaveUp (Suc sent) (Some (DecodeFailed e))), c3)
                            | Inr v \<Rightarrow> Some (Inr v, c3)))))"

definition doRequest :: "(nat \<Rightarrow> 'a attempt_env) \<Rightarrow> client \<Rightarrow> ((client_err + 'a) \<times> client) option" where
  "doRequest env c = request_loop maxRetry 0 env 0 None c"

section \<open>Fetching a year\<close>

record page_info =
  HasNextPage :: "bool option"
  CurrentPage :: int

record media_page =
  PageInfo :: "page_info option"
  Media :: "anilist_show list option"

record graphql_response =
  Page0 :: "media_page option"
  Page1 :: "media_page option"
  Page2 :: "media_page option"
  Page3 :: "media_page option"
  gq_Errors :: "string list"

definition gq_pages :: "graphql_response \<Rightarrow> media_page option list" where
  "gq_pages resp = [Page0 resp, Page1 resp, Page2 resp, Page3 resp]"

datatype fetch_err =
    FetchCtx ctx_err
  | RequestFailed int client_err
  | GraphQLErrors nat
  | IncompletePage int
  | InconsistentPage int
  | TooManyPages

text \<open>The checks on one page of a batch: its next-page flag and its media.\<close>

definition page_parts :: "int \<Rightarrow> media_page option \<Rightarrow> (bool \<times> anilist_show list) option" where
  "page_parts expected p =
     (case p of
        None \<Rightarrow> None
      | Some mp \<Rightarrow>
          (case (PageInfo mp, Media mp) of
             (Some info, Some media) \<Rightarrow>
               (case HasNextPage info of
                  Some nxt \<Rightarrow> if CurrentPage info \<noteq> expected then None else Some (nxt, media)
                | None \<Rightarrow> None)
           | _ \<Rightarrow> None))"

fun check_pages :: "int \<Rightarrow> nat \<Rightarrow> nat \<Rightarrow> media_page option list \<Rightarrow> fetch_err + nat" where
  "check_pages page i terminal [] = Inr terminal"
| "check_pages page i terminal (p # ps) =
     (case page_parts (page + int i) p of
        None \<Rightarrow> Inl (IncompletePage (page + int i))
      | Some (nxt, media) \<Rightarrow>
          if terminal < i \<and> (nxt \<or> media \<noteq> []) then Inl (InconsistentPage (page + int i))
          else check_pages page (Suc i)
                 (if \<not> nxt \<and> terminal = defaultBatchSize then i else terminal) ps)"

definition batch_media :: "media_page option list \<Rightarrow> nat \<Rightarrow> anilist_show list" where
  "batch_media pages terminal =
     concat (map (\<lambda>p. case p of None \<Rightarrow> [] | Some mp \<Rightarrow> (case Media mp of None \<Rightarrow> [] | Some ms \<Rightarrow> ms))
       (take (Suc terminal) pages))"

text \<open>
  The loop over the batches. \<open>env page\<close> holds the context error at the start of the batch and the
  inputs of its request.
\<close>

function fetch_loop ::
    "(int \<Rightarrow> ctx_err option \<times> (nat \<Rightarrow> graphql_response attempt_env)) \<Rightarrow> int \<Rightarrow> anilist_show list \<Rightarrow>
     client \<Rightarrow> ((fetch_err + anilist_show list) \<times> client) option" where
  "fetch_loop env page allShows c =
     (if maxPages < page then Some (Inl TooManyPages, c)
      else (case fst (env page) of
              Some e \<Rightarrow> Some (Inl (FetchCtx e), c)
            | None \<Rightarrow>
                (case doRequest (snd (env page)) c of
                   None \<Rightarrow> None
                 | Some (Inl e, c1) \<Rightarrow> Some (Inl (RequestFailed page e), c1)
                 | Some (Inr resp, c1) \<Rightarrow>
                     if gq_Errors resp \<noteq> [] then Some (Inl (GraphQLErrors (length (gq_Errors resp))), c1)
                     else
                       (case check_pages page 0 defaultBatchSize (gq_pages resp) of
                          Inl e \<Rightarrow> Some (Inl e, c1)
                        | Inr terminal \<Rightarrow>
                            (let allShows1 = allShows @ batch_media (gq_pages resp) terminal in
                             if terminal < defaultBatchSize then Some (Inr allShows1, c1)
                             else fetch_loop env (page + int defaultBatchSize) allShows1 c1)))))"
  by pat_completeness auto
termination
  by (relation "measure (\<lambda>(env, page, allShows, c). nat (maxPages + 1 - page))")
    (auto simp: maxPages_def defaultBatchSize_def)

declare fetch_loop.simps [simp del]

definition FetchYear where
  "FetchYear env c = fetch_loop env 1 [] c"

section \<open>The limiter under any interleaving\<close>

text \<open>
  The critical sections of all goroutines, one after the other, on a clock that does not go back: an
  admission, or the observation of a response. The log has the newest event first.
\<close>

datatype limiter_event = Admission instant | Cooldown instant

inductive limiter :: "client \<Rightarrow> instant \<Rightarrow> limiter_event list \<Rightarrow> bool" where
  start: "limiter NewWithHTTPClient t []" if "rateLimitDelay \<le> t"
| tick: "limiter c t' log" if "limiter c t log" "t \<le> t'"
| admit: "limiter c' t (Admission t # log)" if "limiter c t log" "admission_section t retryAt c = Admitted c'"
| observe: "limiter c' t (Cooldown (cooldownUntil c') # log)"
    if "limiter c t log" "observeAllowance resp t c = (r, c')"

lemma observeAllowance_frame:
  assumes "observeAllowance resp now c = (r, c')"
  shows "lastAdmission c' = lastAdmission c" "cooldownUntil c \<le> cooldownUntil c'"
    "rateLimitDelay \<le> interval c \<Longrightarrow> rateLimitDelay \<le> interval c'"
proof -
  have lim: "lastAdmission (observe_limit resp c) = lastAdmission c"
    "cooldownUntil (observe_limit resp c) = cooldownUntil c"
    "rateLimitDelay \<le> interval c \<Longrightarrow> rateLimitDelay \<le> interval (observe_limit resp c)"
    by (auto simp: observe_limit_def paced_interval_def split: option.splits)
  show "lastAdmission c' = lastAdmission c" "cooldownUntil c \<le> cooldownUntil c'"
    "rateLimitDelay \<le> interval c \<Longrightarrow> rateLimitDelay \<le> interval c'"
    using assms lim by (auto simp: observeAllowance_def Let_def split: prod.splits if_splits)
qed

lemma admission_section_Admitted:
  "admission_section now retryAt c = Admitted c' \<longleftrightarrow>
    lastAdmission c + interval c \<le> now \<and> cooldownUntil c \<le> now \<and> retryAt \<le> now
    \<and> c' = c\<lparr>lastAdmission := now\<rparr>"
  by (auto simp: admission_section_def ready_at_def Let_def)

text \<open>When the requests in a log were admitted, oldest first.\<close>

fun admission_times :: "limiter_event list \<Rightarrow> instant list" where
  "admission_times [] = []"
| "admission_times (Admission t # log) = admission_times log @ [t]"
| "admission_times (Cooldown d # log) = admission_times log"

lemma limiter_invariant:
  "limiter c t log \<Longrightarrow>
    rateLimitDelay \<le> interval c \<and> lastAdmission c \<le> t
    \<and> (\<forall>u \<in> set (admission_times log). u \<le> lastAdmission c)
    \<and> sorted_wrt (\<lambda>a b. a + rateLimitDelay \<le> b) (admission_times log)
    \<and> (\<forall>d. Cooldown d \<in> set log \<longrightarrow> d \<le> cooldownUntil c)
    \<and> (\<forall>older newer d u. log = newer @ Cooldown d # older \<and> Admission u \<in> set newer \<longrightarrow> d \<le> u)"
proof (induction rule: limiter.induct)
  case (start t)
  then show ?case by (simp add: NewWithHTTPClient_def rateLimitDelay_def second_def)
next
  case (tick c t log t')
  then show ?case by auto
next
  case (admit c t log retryAt c')
  have adm: "lastAdmission c + interval c \<le> t" "cooldownUntil c \<le> t" "c' = c\<lparr>lastAdmission := t\<rparr>"
    using admit(2) by (simp_all add: admission_section_Admitted)
  have "d \<le> u" if "Admission t # log = newer @ Cooldown d # older" "Admission u \<in> set newer" for newer d older u
  proof -
    from that(1) obtain newer' where n: "newer = Admission t # newer'" "log = newer' @ Cooldown d # older"
      by (cases newer) auto
    show ?thesis
    proof (cases "Admission u \<in> set newer'")
      case True
      with n(2) admit.IH show ?thesis by blast
    next
      case False
      with that(2) n(1) have "u = t" by simp
      moreover have "d \<le> cooldownUntil c" using admit.IH n(2) by auto
      ultimately show ?thesis using adm(2) by simp
    qed
  qed
  moreover have "u + rateLimitDelay \<le> t" if "u \<in> set (admission_times log)" for u
    using that admit.IH adm(1) by fastforce
  ultimately show ?case
    using admit.IH adm by (auto simp: sorted_wrt_append)
next
  case (observe c t log resp r c')
  note frame = observeAllowance_frame [OF observe(2)]
  have "d' \<le> u" if "Cooldown (cooldownUntil c') # log = newer @ Cooldown d' # older" "Admission u \<in> set newer"
    for newer d' older u
  proof (cases newer)
    case Nil
    with that show ?thesis by simp
  next
    case (Cons e newer')
    with that observe.IH show ?thesis by auto
  qed
  with observe.IH frame show ?case by (fastforce intro: order_trans)
qed

text \<open>
  Claim C13. Whatever goroutines share the client and whatever responses they see, two requests are
  never admitted less than 2.3 seconds apart, and no request is admitted before a cooldown deadline
  that an earlier response set.
\<close>

theorem limiter_paces_requests:
  assumes "limiter c t log"
  shows "sorted_wrt (\<lambda>a b. a + 2300000000 \<le> b) (admission_times log)
    \<and> (\<forall>older newer d u. log = newer @ Cooldown d # older \<and> Admission u \<in> set newer \<longrightarrow> d \<le> u)"
proof -
  have "rateLimitDelay = 2300000000" by (simp add: rateLimitDelay_def second_def)
  with limiter_invariant [OF assms] show ?thesis by metis
qed

lemma limiter_paces_requests_witness:
  fixes retry
  defines "retry \<equiv> \<lparr>StatusCode = 429, RateLimit_Limit = [], RateLimit_Remaining = [], RateLimit_Reset = [],
    Retry_After = ''30''\<rparr>"
  shows "\<exists>c log. limiter c (of_unix 130) log \<and> admission_times log = [of_unix 100, of_unix 130]
    \<and> Cooldown (of_unix 130) \<in> set log
    \<and> sorted_wrt (\<lambda>a b. a + 2300000000 \<le> b) (admission_times log)"
proof -
  have u: "of_unix k = 62135596800000000000 + k * 1000000000" for k
    by (simp add: of_unix_def unix_epoch_def duration_defs)
  let ?c1 = "NewWithHTTPClient\<lparr>lastAdmission := of_unix 100\<rparr>"
  let ?c2 = "?c1\<lparr>cooldownUntil := of_unix 130\<rparr>"
  have "limiter ?c1 (of_unix 100) [Admission (of_unix 100)]"
    by (rule limiter.admit [OF limiter.start, of _ 0])
      (auto simp: admission_section_Admitted NewWithHTTPClient_def u rateLimitDelay_def second_def)
  moreover have body: "parse_int 64 ''30'' = Some 30" "parse_int 32 [] = None" "parse_int 64 [] = None" by code_simp+
  then have "observeAllowance retry (of_unix 100) ?c1 = ((Valid, None), ?c2)"
    by (simp add: observeAllowance_def observe_limit_def retry_def reset_deadline_def retry_after_def Let_def
        headerDuration_def max_int64_def second_def u NewWithHTTPClient_def maxRetryAfter_def minute_def)
  ultimately have "limiter ?c2 (of_unix 100) [Cooldown (of_unix 130), Admission (of_unix 100)]"
    using limiter.observe by fastforce
  then have "limiter ?c2 (of_unix 130) [Cooldown (of_unix 130), Admission (of_unix 100)]"
    by (rule limiter.tick) (simp add: u)
  then have lim: "limiter (?c2\<lparr>lastAdmission := of_unix 130\<rparr>) (of_unix 130)
      [Admission (of_unix 130), Cooldown (of_unix 130), Admission (of_unix 100)]"
    by (rule limiter.admit [of _ _ _ 0])
      (auto simp: admission_section_Admitted NewWithHTTPClient_def u rateLimitDelay_def second_def)
  show ?thesis
    using lim limiter_paces_requests [OF lim] by (intro exI conjI) (assumption, auto)
qed

section \<open>Waiting\<close>

text \<open>
  Claim C28. A request that may be admitted within two minutes is admitted after at most one sleep
  when the sleep lasts as long as asked and nobody else moves the limiter meanwhile; it is admitted
  at the clock of that moment, never before its backoff ends; a longer wait is refused at once and
  leaves the limiter as it is.
\<close>

theorem throttle_admits:
  assumes "ob_ctx ob = None" "ob_sleep ob = None" "ob_others ob = (\<lambda>c. c)" "ob_ctx ob' = None"
    and "in_int64 (ready_at retryAt c - ob_now ob)" "ready_at retryAt c \<le> ob_now ob'"
  shows "throttle [ob, ob'] retryAt c =
    (if ready_at retryAt c \<le> ob_now ob then Some (None, c\<lparr>lastAdmission := ob_now ob\<rparr>)
     else if ob_now ob + maxRetryAfter < ready_at retryAt c then Some (Some WaitTooLong, c)
     else Some (None, c\<lparr>lastAdmission := ob_now ob'\<rparr>))
    \<and> retryAt \<le> ready_at retryAt c"
proof -
  have "retryAt \<le> ready_at retryAt c" by (simp add: ready_at_def Let_def)
  moreover have "sleepContext d None = None" for d by (simp add: sleepContext_def)
  moreover have "maxRetryAfter < ready_at retryAt c - ob_now ob \<longleftrightarrow> ob_now ob + maxRetryAfter < ready_at retryAt c"
    by linarith
  ultimately show ?thesis
    using assms by (simp add: admission_section_def Let_def time_sub_id not_less)
qed

lemma throttle_admits_witness:
  fixes ob
  defines "ob t \<equiv> \<lparr>ob_ctx = None, ob_now = of_unix t, ob_sleep = None, ob_others = (\<lambda>c. c)\<rparr>"
  defines "c \<equiv> NewWithHTTPClient\<lparr>lastAdmission := of_unix 100\<rparr>"
  shows "throttle [ob 101, ob 103] 0 c = Some (None, c\<lparr>lastAdmission := of_unix 103\<rparr>)
    \<and> throttle [ob 101, ob 500] (of_unix 300) c = Some (Some WaitTooLong, c)"
proof -
  have u: "of_unix k = 62135596800000000000 + k * 1000000000" for k
    by (simp add: of_unix_def unix_epoch_def duration_defs)
  have r: "ready_at 0 c = of_unix 100 + 2300000000" "ready_at (of_unix 300) c = of_unix 300"
    by (simp_all add: ready_at_def c_def NewWithHTTPClient_def Let_def u rateLimitDelay_def second_def)
  have m: "maxRetryAfter = 120000000000" by (simp add: maxRetryAfter_def duration_defs)
  have ob: "ob_now (ob t) = of_unix t" for t by (simp add: ob_def)
  have small: "in_int64 (ready_at 0 c - ob_now (ob 101))" "ready_at 0 c \<le> ob_now (ob 103)"
    "in_int64 (ready_at (of_unix 300) c - ob_now (ob 101))" "ready_at (of_unix 300) c \<le> ob_now (ob 500)"
    unfolding r ob by (simp_all add: u in_int64_def min_int64_def max_int64_def)
  have "throttle [ob 101, ob 103] 0 c = Some (None, c\<lparr>lastAdmission := of_unix 103\<rparr>)"
    by (subst throttle_admits [THEN conjunct1, OF _ _ _ _ small(1,2)], unfold r ob m)
      (simp_all add: ob_def u)
  moreover have "throttle [ob 101, ob 500] (of_unix 300) c = Some (Some WaitTooLong, c)"
    by (subst throttle_admits [THEN conjunct1, OF _ _ _ _ small(3,4)], unfold r ob m)
      (simp_all add: ob_def u)
  ultimately show ?thesis ..
qed

section \<open>Requests and pages\<close>

text \<open>An exchange after which the request is tried again.\<close>

definition retryable :: "'a attempt_env \<Rightarrow> bool" where
  "retryable env \<longleftrightarrow>
     (case at_http env of
        None \<Rightarrow> at_ctx env = None
      | Some resp \<Rightarrow> StatusCode resp = 429 \<or>
          (StatusCode resp \<noteq> 200 \<and> \<not> (400 \<le> StatusCode resp \<and> StatusCode resp < 500)))"

lemma throttle_error:
  "throttle obs retryAt c = Some (Some e, c') \<Longrightarrow> e = WaitTooLong \<or> (\<exists>x. e = CtxFailed x)"
  by (induction obs retryAt c rule: throttle.induct)
    (auto split: option.splits admission.splits if_splits)

lemma observeAllowance_error:
  "observeAllowance resp now c = ((st, Some e), c') \<Longrightarrow> e = CooldownTooLong"
  by (auto simp: observeAllowance_def Let_def split: prod.splits if_splits)

lemma request_loop_step:
  assumes "request_loop (Suc left) attempt env sent err c = Some (res, c')"
  obtains (stopped) e where "res = Inl e" "\<And>n x. e \<noteq> GaveUp n x"
  | (again) c2 err2 where "retryable (env attempt)"
      "request_loop left (Suc attempt) env (Suc sent) (Some err2) c2 = Some (res, c')"
  | (final) x where "\<not> retryable (env attempt)" "res = Inl (GaveUp (Suc sent) (Some x))"
  | (answered) v resp where "at_http (env attempt) = Some resp" "StatusCode resp = 200"
      "at_body (env attempt) = Inr v" "res = Inr v"
proof -
  obtain e1 c1 where thr: "throttle (at_wait (env attempt)) (retry_at (env attempt) attempt) c = Some (e1, c1)"
    using assms by (auto split: option.splits)
  show thesis
  proof (cases "e1 = None \<and> at_create_ok (env attempt)")
    case False
    show thesis
    proof (cases e1)
      case (Some e)
      with thr assms have "res = Inl e" by simp
      with throttle_error [OF thr [unfolded Some]] show thesis by (intro stopped) auto
    next
      case None
      with False thr assms show thesis by (intro stopped) auto
    qed
  next
    case True
    let ?c2 = "at_others (env attempt) c1"
    show thesis
    proof (cases "at_http (env attempt)")
      case None
      with True thr assms show thesis
        by (cases "at_ctx (env attempt)") (auto simp: retryable_def Let_def intro: stopped again)
    next
      case (Some resp)
      obtain st e2 c3 where obs: "observeAllowance resp (at_observed (env attempt)) ?c2 = ((st, e2), c3)"
        by (cases "observeAllowance resp (at_observed (env attempt)) ?c2") auto
      show thesis
      proof (cases e2)
        case e2: (Some e)
        with True thr assms Some obs observeAllowance_error [of resp _ _ st e c3] show thesis
          by (intro stopped) (auto simp: Let_def)
      next
        case None
        have run: "(if StatusCode resp = 429
              then request_loop left (Suc attempt) env (Suc sent) (Some (RateLimited (attempt + 1))) c3
              else if StatusCode resp \<noteq> 200 then
                (let err = (case at_unread (env attempt) of
                              None \<Rightarrow> ApiError (StatusCode resp)
                            | Some cause \<Rightarrow> ApiErrorUnread (StatusCode resp) cause)
                 in if 400 \<le> StatusCode resp \<and> StatusCode resp < 500
                    then Some (Inl (GaveUp (Suc sent) (Some err)), c3)
                    else request_loop left (Suc attempt) env (Suc sent) (Some err) c3)
              else (case at_body (env attempt) of
                      Inl e \<Rightarrow> Some (Inl (GaveUp (Suc sent) (Some (DecodeFailed e))), c3)
                    | Inr v \<Rightarrow> Some (Inr v, c3))) = Some (res, c')"
          using True thr assms Some obs None by (simp add: Let_def)
        show thesis
          using run Some
          by (auto simp: retryable_def Let_def split: if_splits sum.splits
              intro: again final answered)
      qed
    qed
  qed
qed

lemma all_from:
  fixes P Q :: "nat \<Rightarrow> bool"
  assumes "P n" "\<forall>i. Suc n \<le> i \<and> Q i \<longrightarrow> P i"
  shows "\<forall>i. n \<le> i \<and> Q i \<longrightarrow> P i"
proof (intro allI impI)
  fix i
  assume "n \<le> i \<and> Q i"
  with assms show "P i" by (cases "i = n") auto
qed

lemma request_loop_outcome:
  assumes "request_loop left attempt env attempt err c = Some (res, c')"
  shows "case res of
      Inr v \<Rightarrow> (\<exists>k < attempt + left. attempt \<le> k \<and> (\<forall>i. attempt \<le> i \<and> i < k \<longrightarrow> retryable (env i))
        \<and> (\<exists>resp. at_http (env k) = Some resp \<and> StatusCode resp = 200 \<and> at_body (env k) = Inr v))
    | Inl (GaveUp n e) \<Rightarrow> attempt \<le> n \<and> n \<le> attempt + left
        \<and> (\<forall>i. attempt \<le> i \<and> Suc i < n \<longrightarrow> retryable (env i))
        \<and> (if attempt < n \<and> \<not> retryable (env (n - 1)) then True else n = attempt + left)
    | Inl _ \<Rightarrow> True"
  using assms
proof (induction left arbitrary: attempt err c)
  case 0
  then show ?case by auto
next
  case (Suc left)
  from Suc.prems show ?case
  proof (cases rule: request_loop_step)
    case (stopped e)
    then show ?thesis by (cases e) auto
  next
    case (again c2 err2)
    show ?thesis
    proof (cases res)
      case (Inr v)
      with Suc.IH [OF again(2)] obtain k resp where k: "k < Suc attempt + left" "Suc attempt \<le> k"
        "\<forall>i. Suc attempt \<le> i \<and> i < k \<longrightarrow> retryable (env i)" "at_http (env k) = Some resp"
        "StatusCode resp = 200" "at_body (env k) = Inr v"
        by auto
      have "\<forall>i. attempt \<le> i \<and> i < k \<longrightarrow> retryable (env i)" by (rule all_from [OF again(1) k(3)])
      moreover have "k < attempt + Suc left" "attempt \<le> k" using k(1,2) by simp_all
      ultimately have "\<exists>k < attempt + Suc left. attempt \<le> k \<and> (\<forall>i. attempt \<le> i \<and> i < k \<longrightarrow> retryable (env i))
        \<and> (\<exists>resp. at_http (env k) = Some resp \<and> StatusCode resp = 200 \<and> at_body (env k) = Inr v)"
        using k(4-6) by blast
      with Inr show ?thesis by (simp only: sum.case)
    next
      case (Inl e)
      show ?thesis
      proof (cases e)
        case (GaveUp n x)
        with Inl Suc.IH [OF again(2)] have n: "Suc attempt \<le> n" "n \<le> Suc attempt + left"
          "\<forall>i. Suc attempt \<le> i \<and> Suc i < n \<longrightarrow> retryable (env i)"
          "if Suc attempt < n \<and> \<not> retryable (env (n - 1)) then True else n = Suc attempt + left"
          by auto
        have "\<forall>i. attempt \<le> i \<and> Suc i < n \<longrightarrow> retryable (env i)" by (rule all_from [OF again(1) n(3)])
        moreover have "if attempt < n \<and> \<not> retryable (env (n - 1)) then True else n = attempt + Suc left"
          using n(1,4) again(1) by (cases "n = Suc attempt") auto
        ultimately show ?thesis using n Inl GaveUp by simp
      qed (use Inl in auto)
    qed
  next
    case (final x)
    have "\<forall>i. attempt \<le> i \<and> Suc i < Suc attempt \<longrightarrow> retryable (env i)" by presburger
    with final show ?thesis by simp
  next
    case (answered v resp)
    have "\<forall>i. attempt \<le> i \<and> i < attempt \<longrightarrow> retryable (env i)" by presburger
    with answered show ?thesis by (simp, intro exI [of _ attempt]) simp
  qed
qed

text \<open>
  A request makes at most five attempts. It returns a value only from an answer with
  status 200 whose body decoded, after attempts that all were retryable (network failures, 429 and
  server-side statuses); it gives up after exactly five attempts, or at the first answer that is not
  retryable.
\<close>

lemma doRequest_attempts:
  assumes "doRequest env c = Some (res, c')"
  shows "case res of
      Inr v \<Rightarrow> (\<exists>k < 5. (\<forall>i < k. retryable (env i))
        \<and> (\<exists>resp. at_http (env k) = Some resp \<and> StatusCode resp = 200 \<and> at_body (env k) = Inr v))
    | Inl (GaveUp n e) \<Rightarrow> n \<le> 5 \<and> (\<forall>i. Suc i < n \<longrightarrow> retryable (env i))
        \<and> (n = 5 \<or> (0 < n \<and> \<not> retryable (env (n - 1))))
    | Inl _ \<Rightarrow> True"
proof -
  have "request_loop 5 0 env 0 None c = Some (res, c')"
    using assms by (simp add: doRequest_def maxRetry_def)
  note out = request_loop_outcome [OF this]
  show ?thesis
  proof (cases res)
    case (Inr v)
    with out show ?thesis by simp
  next
    case (Inl e)
    with out show ?thesis by (cases e) (auto split: if_splits)
  qed
qed

text \<open>The media of a page that passed the checks, and whether more pages follow.\<close>

definition good_page :: "int \<Rightarrow> media_page option \<Rightarrow> bool" where
  "good_page k p \<longleftrightarrow> (case p of None \<Rightarrow> False | Some mp \<Rightarrow> Media mp \<noteq> None
     \<and> (case PageInfo mp of None \<Rightarrow> False
        | Some info \<Rightarrow> HasNextPage info \<noteq> None \<and> CurrentPage info = k))"

definition page_media :: "media_page option \<Rightarrow> anilist_show list" where
  "page_media p = (case p of None \<Rightarrow> [] | Some mp \<Rightarrow> (case Media mp of None \<Rightarrow> [] | Some ms \<Rightarrow> ms))"

definition page_more :: "media_page option \<Rightarrow> bool" where
  "page_more p = (case p of None \<Rightarrow> False | Some mp \<Rightarrow>
     (case PageInfo mp of None \<Rightarrow> False | Some info \<Rightarrow> HasNextPage info = Some True))"

lemma page_parts_Some:
  "page_parts k p = Some (nxt, media) \<Longrightarrow> good_page k p \<and> page_more p = nxt \<and> page_media p = media"
  by (cases nxt)
    (auto simp: page_parts_def good_page_def page_more_def page_media_def split: option.splits if_splits)

text \<open>A batch of four pages that passed: the pages before the terminal one go on, those after are empty.\<close>

lemma check_batch:
  assumes "check_pages page 0 defaultBatchSize [p0, p1, p2, p3] = Inr t"
  defines "ps \<equiv> [p0, p1, p2, p3]"
  shows "t \<le> 4 \<and> (\<forall>j < 4. good_page (page + int j) (ps ! j))
    \<and> (\<forall>j < 4. j < t \<longrightarrow> page_more (ps ! j)) \<and> (t < 4 \<longrightarrow> \<not> page_more (ps ! t))"
proof -
  have all4: "(\<forall>j < (4 :: nat). P j) \<longleftrightarrow> P 0 \<and> P 1 \<and> P 2 \<and> P 3" for P
    by (auto simp: less_Suc_eq eval_nat_numeral)
  obtain n0 m0 where p0: "page_parts page p0 = Some (n0, m0)"
    using assms(1) by (auto simp: defaultBatchSize_def split: option.splits if_splits)
  obtain n1 m1 where p1: "page_parts (page + 1) p1 = Some (n1, m1)"
    using assms(1) p0 by (auto simp: defaultBatchSize_def split: option.splits if_splits)
  obtain n2 m2 where p2: "page_parts (page + 2) p2 = Some (n2, m2)"
    using assms(1) p0 p1 by (auto simp: defaultBatchSize_def numeral_2_eq_2 split: option.splits if_splits)
  obtain n3 m3 where p3: "page_parts (page + 3) p3 = Some (n3, m3)"
    using assms(1) p0 p1 p2
    by (auto simp: defaultBatchSize_def eval_nat_numeral split: option.splits if_splits)
  have "t = (if \<not> n0 then 0 else if \<not> n1 then 1 else if \<not> n2 then 2 else if \<not> n3 then 3 else 4)"
    using assms(1) p0 p1 p2 p3
    by (auto simp: defaultBatchSize_def eval_nat_numeral split: if_splits)
  with p0 p1 p2 p3 show ?thesis
    unfolding all4 ps_def
    by (auto dest!: page_parts_Some simp: eval_nat_numeral)
qed

text \<open>Page \<open>k\<close> of a year (from 0) comes from the answer to the batch it belongs to.\<close>

lemma doRequest_body:
  assumes "doRequest env c = Some (Inr v, c')"
  shows "\<exists>k. at_body (env k) = Inr v"
proof -
  have "request_loop 5 0 env 0 None c = Some (Inr v, c')" using assms by (simp add: doRequest_def maxRetry_def)
  from request_loop_outcome [OF this] show ?thesis by auto
qed

definition answered_from ::
    "(int \<Rightarrow> ctx_err option \<times> (nat \<Rightarrow> graphql_response attempt_env)) \<Rightarrow> int \<Rightarrow> nat \<Rightarrow>
     media_page option \<Rightarrow> bool" where
  "answered_from env page k p \<longleftrightarrow>
     (\<exists>c1 c2 resp. doRequest (snd (env (page + 4 * int (k div 4)))) c1 = Some (Inr resp, c2)
        \<and> gq_Errors resp = [] \<and> p = gq_pages resp ! (k mod 4))"

definition year_pages ::
    "(int \<Rightarrow> ctx_err option \<times> (nat \<Rightarrow> graphql_response attempt_env)) \<Rightarrow> int \<Rightarrow>
     media_page option list \<Rightarrow> bool" where
  "year_pages env page pages \<longleftrightarrow> pages \<noteq> [] \<and>
     (\<forall>k < length pages. good_page (page + int k) (pages ! k)
        \<and> (page_more (pages ! k) \<longleftrightarrow> Suc k < length pages) \<and> answered_from env page k (pages ! k))"

lemma batch_media_pages: "batch_media ps t = concat (map page_media (take (Suc t) ps))"
  by (simp add: batch_media_def page_media_def [abs_def])

lemma answered_from_next:
  assumes "4 \<le> k"
  shows "answered_from env page k p \<longleftrightarrow> answered_from env (page + 4) (k - 4) p"
proof -
  have "k div 4 = Suc ((k - 4) div 4)" "k mod 4 = (k - 4) mod 4"
    using assms by (simp_all add: le_div_geq le_mod_geq)
  then show ?thesis by (simp add: answered_from_def algebra_simps)
qed

lemma fetch_loop_pages:
  "fetch_loop env page acc c = Some (Inr shows', c') \<Longrightarrow> page mod 4 = 1 \<Longrightarrow>
    \<exists>pages. shows' = acc @ concat (map page_media pages) \<and> year_pages env page pages
      \<and> page + int (length pages) \<le> 101"
proof (induction env page acc c rule: fetch_loop.induct)
  case (1 env page acc c)
  obtain resp c1 t where le: "page \<le> maxPages" and ctx: "fst (env page) = None"
    and req: "doRequest (snd (env page)) c = Some (Inr resp, c1)" "gq_Errors resp = []"
    and chk: "check_pages page 0 defaultBatchSize (gq_pages resp) = Inr t"
    and rest: "(if t < defaultBatchSize then Some (Inr (acc @ batch_media (gq_pages resp) t), c1)
      else fetch_loop env (page + int defaultBatchSize) (acc @ batch_media (gq_pages resp) t) c1) = Some (Inr shows', c')"
    using "1.prems"(1) unfolding fetch_loop.simps [of env page acc c]
    by (auto simp: Let_def split: if_splits option.splits sum.splits prod.splits)
  let ?ps = "gq_pages resp"
  have len: "length ?ps = 4" by (simp add: gq_pages_def)
  have batch: "t \<le> 4" "\<And>j. j < 4 \<Longrightarrow> good_page (page + int j) (?ps ! j)"
    "\<And>j. j < 4 \<Longrightarrow> j < t \<Longrightarrow> page_more (?ps ! j)" "t < 4 \<Longrightarrow> \<not> page_more (?ps ! t)"
    using check_batch [OF chk [unfolded gq_pages_def]] by (auto simp: gq_pages_def)
  have src: "answered_from env page j (?ps ! j)" if "j < 4" for j
    using that req by (auto simp: answered_from_def)
  show ?case
  proof (cases "t < 4")
    case True
    let ?pages = "take (Suc t) ?ps"
    have n: "length ?pages = Suc t" using True len by simp
    have "year_pages env page ?pages"
      unfolding year_pages_def n using True batch src n
      by (auto simp: less_Suc_eq)
    moreover have "shows' = acc @ concat (map page_media ?pages)"
      using rest True by (simp add: defaultBatchSize_def batch_media_pages)
    moreover have "page + int (length ?pages) \<le> 101"
      using n True le "1.prems"(2) by (simp add: maxPages_def) presburger
    ultimately show ?thesis by blast
  next
    case False
    then have t: "t = 4" using batch(1) by simp
    have run: "fetch_loop env (page + 4) (acc @ batch_media ?ps t) c1 = Some (Inr shows', c')"
      using rest t by (simp add: defaultBatchSize_def)
    have "\<exists>pages. shows' = (acc @ batch_media ?ps t) @ concat (map page_media pages)
        \<and> year_pages env (page + 4) pages \<and> page + 4 + int (length pages) \<le> 101"
      using "1.IH" [OF _ ctx req(1) refl refl _ chk refl] le req(2) t run "1.prems"(2)
      by (simp add: defaultBatchSize_def)
    then obtain pages where pages: "shows' = (acc @ batch_media ?ps t) @ concat (map page_media pages)"
      "year_pages env (page + 4) pages" "page + 4 + int (length pages) \<le> 101"
      by blast
    have "year_pages env page (?ps @ pages)"
      unfolding year_pages_def
    proof (intro conjI allI impI)
      show "?ps @ pages \<noteq> []" using len by auto
      fix k
      assume k: "k < length (?ps @ pages)"
      have ne: "pages \<noteq> []" using pages(2) by (simp add: year_pages_def)
      show "good_page (page + int k) ((?ps @ pages) ! k)"
      proof (cases "k < 4")
        case True
        then show ?thesis using batch(2) len by (simp add: nth_append)
      next
        case False
        then have "good_page (page + 4 + int (k - 4)) (pages ! (k - 4))"
          using k len pages(2) unfolding year_pages_def by (simp del: of_nat_diff)
        moreover have "page + 4 + int (k - 4) = page + int k" using False by simp
        ultimately show ?thesis using False len by (simp add: nth_append)
      qed
      show "page_more ((?ps @ pages) ! k) \<longleftrightarrow> Suc k < length (?ps @ pages)"
      proof (cases "k < 4")
        case True
        then show ?thesis using batch(3) [of k] t len ne by (cases pages) (simp_all add: nth_append)
      next
        case False
        then have "page_more (pages ! (k - 4)) \<longleftrightarrow> Suc (k - 4) < length pages"
          using k len pages(2) unfolding year_pages_def by simp
        then show ?thesis using False len by (auto simp: nth_append)
      qed
      show "answered_from env page k ((?ps @ pages) ! k)"
      proof (cases "k < 4")
        case True
        then show ?thesis using src len by (simp add: nth_append)
      next
        case False
        then have "answered_from env (page + 4) (k - 4) (pages ! (k - 4))"
          using k len pages(2) unfolding year_pages_def by simp
        then show ?thesis using False len answered_from_next [of k] by (simp add: nth_append)
      qed
    qed
    moreover have "shows' = acc @ concat (map page_media (?ps @ pages))"
      using pages(1) t len by (simp add: batch_media_pages)
    moreover have "page + int (length (?ps @ pages)) \<le> 101" using pages(3) len by simp
    ultimately show ?thesis by blast
  qed
qed

text \<open>
  Claim C14. When the fetch of a year returns shows, they are the media of consecutive pages from
  page 1 on, at most 100, each taken from an answered request without GraphQL errors and carrying
  its own number; every page but the last announced a next one and the last did not.
\<close>

theorem FetchYear_all_pages:
  assumes "FetchYear env c = Some (Inr shows', c')"
  shows "\<exists>pages. shows' = concat (map page_media pages) \<and> pages \<noteq> [] \<and> length pages \<le> 100
    \<and> (\<forall>k < length pages. good_page (int k + 1) (pages ! k)
        \<and> (page_more (pages ! k) \<longleftrightarrow> Suc k < length pages) \<and> answered_from env 1 k (pages ! k))"
  using fetch_loop_pages [OF assms [unfolded FetchYear_def]] by (auto simp: year_pages_def add.commute)

text \<open>A year of two pages with a show each; the other two pages of the batch are empty.\<close>

definition numbered_show :: "int \<Rightarrow> anilist_show" where
  "numbered_show n = \<lparr>sh_ID = n, sh_IDMal = None, sh_Title = \<lparr>English = None, Romaji = None\<rparr>, sh_Format = ''TV'',
     sh_Duration = None, sh_Tags = [], sh_Season = [], sh_StartDate = \<lparr>fd_Year = None, fd_Month = None, fd_Day = None\<rparr>,
     sh_Relations = None\<rparr>"

definition numbered_page :: "int \<Rightarrow> bool \<Rightarrow> anilist_show list \<Rightarrow> media_page option" where
  "numbered_page k nxt shs = Some \<lparr>PageInfo = Some \<lparr>HasNextPage = Some nxt, CurrentPage = k\<rparr>, Media = Some shs\<rparr>"

definition two_pages :: graphql_response where
  "two_pages = \<lparr>Page0 = numbered_page 1 True [numbered_show 1], Page1 = numbered_page 2 False [numbered_show 2],
     Page2 = numbered_page 3 False [], Page3 = numbered_page 4 False [], gq_Errors = []\<rparr>"

definition two_pages_env :: "int \<Rightarrow> ctx_err option \<times> (nat \<Rightarrow> graphql_response attempt_env)" where
  "two_pages_env page = (None, \<lambda>_. \<lparr>at_jitter = 0, at_now = of_unix 100,
     at_wait = [\<lparr>ob_ctx = None, ob_now = of_unix 100, ob_sleep = None, ob_others = (\<lambda>c. c)\<rparr>],
     at_create_ok = True,
     at_http = Some \<lparr>StatusCode = 200, RateLimit_Limit = [], RateLimit_Remaining = [], RateLimit_Reset = [], Retry_After = []\<rparr>,
     at_ctx = None, at_observed = of_unix 100, at_others = (\<lambda>c. c), at_unread = None, at_body = Inr two_pages\<rparr>)"

lemma two_pages_fetched:
  "FetchYear two_pages_env NewWithHTTPClient
    = Some (Inr [numbered_show 1, numbered_show 2], NewWithHTTPClient\<lparr>lastAdmission := of_unix 100\<rparr>)"
proof -
  have u: "of_unix k = 62135596800000000000 + k * 1000000000" for k
    by (simp add: of_unix_def unix_epoch_def duration_defs)
  have no: "parse_int 64 [] = None" "parse_int 32 [] = None" by code_simp+
  have "admission_section (of_unix 100) 0 NewWithHTTPClient
      = Admitted (NewWithHTTPClient\<lparr>lastAdmission := of_unix 100\<rparr>)"
    by (simp add: admission_section_Admitted NewWithHTTPClient_def u rateLimitDelay_def second_def)
  then have "doRequest (snd (two_pages_env 1)) NewWithHTTPClient
      = Some (Inr two_pages, NewWithHTTPClient\<lparr>lastAdmission := of_unix 100\<rparr>)"
    unfolding doRequest_def maxRetry_def numeral_eq_Suc request_loop.simps
    by (simp add: two_pages_env_def retry_at_def observeAllowance_def observe_limit_def no Let_def)
  moreover have "fst (two_pages_env 1) = None" by (simp add: two_pages_env_def)
  ultimately show ?thesis
    by (simp add: FetchYear_def fetch_loop.simps maxPages_def two_pages_def gq_pages_def numbered_page_def
        defaultBatchSize_def page_parts_def batch_media_def)
qed

lemma two_pages_answered: "answered_from two_pages_env 1 k p \<Longrightarrow> p = gq_pages two_pages ! (k mod 4)"
  using doRequest_body by (fastforce simp: answered_from_def two_pages_env_def)

lemma FetchYear_all_pages_witness:
  "\<exists>p1 p2. FetchYear two_pages_env NewWithHTTPClient
      = Some (Inr (concat (map page_media [p1, p2])), NewWithHTTPClient\<lparr>lastAdmission := of_unix 100\<rparr>)
    \<and> page_media p1 = [numbered_show 1] \<and> page_media p2 = [numbered_show 2]
    \<and> good_page 1 p1 \<and> page_more p1 \<and> answered_from two_pages_env 1 0 p1
    \<and> good_page 2 p2 \<and> \<not> page_more p2 \<and> answered_from two_pages_env 1 1 p2"
proof -
  obtain pages where pages: "[numbered_show 1, numbered_show 2] = concat (map page_media pages)" "pages \<noteq> []"
    and each: "\<forall>k < length pages. good_page (int k + 1) (pages ! k) \<and> (page_more (pages ! k) \<longleftrightarrow> Suc k < length pages)
      \<and> answered_from two_pages_env 1 k (pages ! k)"
    using FetchYear_all_pages [OF two_pages_fetched] by auto
  have p: "k < length pages \<Longrightarrow> pages ! k = gq_pages two_pages ! (k mod 4)" for k
    using each two_pages_answered by blast
  have more: "page_more (Page0 two_pages)" "\<not> page_more (Page1 two_pages)"
    by (simp_all add: page_more_def two_pages_def numbered_page_def)
  have "pages ! 0 = Page0 two_pages" using p [of 0] pages(2) by (simp add: gq_pages_def)
  then have "Suc 0 < length pages" using each [rule_format, of 0] pages(2) more(1) by simp
  moreover from this have "pages ! 1 = Page1 two_pages" using p [of 1] by (simp add: gq_pages_def)
  ultimately have "\<not> Suc 1 < length pages" using each [rule_format, of 1] more(2) by simp
  with \<open>Suc 0 < length pages\<close> have len: "length pages = 2" by simp
  then obtain p1 p2 where ps: "pages = [p1, p2]" by (auto simp: length_Suc_conv numeral_2_eq_2)
  have media: "page_media p1 = [numbered_show 1]" "page_media p2 = [numbered_show 2]"
    using p [of 0] p [of 1] ps by (simp_all add: gq_pages_def two_pages_def numbered_page_def page_media_def)
  have first: "good_page 1 p1" "page_more p1" "answered_from two_pages_env 1 0 p1"
    using each [rule_format, of 0] by (simp_all add: ps)
  have second: "good_page 2 p2" "\<not> page_more p2" "answered_from two_pages_env 1 1 p2"
    using each [rule_format, of 1] by (simp_all add: ps)
  have "concat (map page_media [p1, p2]) = [numbered_show 1, numbered_show 2]" by (simp add: media)
  then show ?thesis using two_pages_fetched media first second by metis
qed

lemma doRequest_attempts_witness:
  fixes att
  defines "att t \<equiv> \<lparr>at_jitter = 0, at_now = of_unix t,
    at_wait = [\<lparr>ob_ctx = None, ob_now = of_unix (t + 100), ob_sleep = None, ob_others = (\<lambda>c. c)\<rparr>],
    at_create_ok = True, at_http = None, at_ctx = None, at_observed = of_unix t, at_others = (\<lambda>c. c),
    at_unread = None, at_body = Inl TrailingData\<rparr>"
  shows "\<exists>c'. doRequest (\<lambda>i. att (200 * int i)) NewWithHTTPClient = Some (Inl (GaveUp 5 (Some NetworkError)), c')
    \<and> (\<forall>i. Suc i < 5 \<longrightarrow> retryable (att (200 * int i) :: nat attempt_env))"
proof -
  have u: "of_unix k = 62135596800000000000 + k * 1000000000" for k
    by (simp add: of_unix_def unix_epoch_def duration_defs)
  have "\<exists>c'. doRequest (\<lambda>i. att (200 * int i)) NewWithHTTPClient
      = Some (Inl (GaveUp 5 (Some NetworkError)), c')"
    by (simp add: doRequest_def maxRetry_def eval_nat_numeral att_def retry_at_def jitter_def jitter_quarter_def
        admission_section_def ready_at_def Let_def NewWithHTTPClient_def u rateLimitDelay_def second_def)
  then obtain c' where run: "doRequest (\<lambda>i. att (200 * int i) :: nat attempt_env) NewWithHTTPClient
      = Some (Inl (GaveUp 5 (Some NetworkError)), c')"
    by (auto simp: att_def)
  from doRequest_attempts [OF this] have "\<forall>i. Suc i < 5 \<longrightarrow> retryable (att (200 * int i) :: nat attempt_env)"
    by simp
  with run show ?thesis by blast
qed

end
