(* ===== verification/Data_Path.thy ===== *)
theory Data_Path
  imports Bridge_Prelude
begin

text \<open>
  Paths and download URLs the service accepts: \<open>internal/datapath/datapath.go\<close> with the routines of
  \<open>path/filepath\<close> it rests on (Unix rules), and \<open>internal/mappingurl/allowlist.go\<close>. A parsed URL is
  the scheme and the host name that \<open>net/url\<close> gives.
\<close>

section \<open>Clean paths\<close>

text \<open>
  The elements of \<open>filepath.Clean\<close>: empty ones and \<open>.\<close> are dropped, \<open>..\<close> removes the element before it
  (nothing at the root, and stays when there is none to remove in a relative path). The elements kept
  so far are in reverse order.
\<close>

fun clean_parts :: "bool \<Rightarrow> string list \<Rightarrow> string list \<Rightarrow> string list" where
  "clean_parts rooted kept [] = kept"
| "clean_parts rooted kept (p # ps) =
     (if p = [] \<or> p = ''.'' then clean_parts rooted kept ps
      else if p = ''..'' then
        (case kept of
           k # ks \<Rightarrow> if k = ''..'' then clean_parts rooted (p # kept) ps else clean_parts rooted ks ps
         | [] \<Rightarrow> if rooted then clean_parts rooted [] ps else clean_parts rooted [p] ps)
      else clean_parts rooted (p # kept) ps)"

fun join :: "char \<Rightarrow> string list \<Rightarrow> string" where
  "join sep [] = []"
| "join sep [p] = p"
| "join sep (p # q # ps) = p @ sep # join sep (q # ps)"

definition is_abs :: "string \<Rightarrow> bool" where
  "is_abs s \<longleftrightarrow> has_prefix s ''/''"

definition parts_of :: "string \<Rightarrow> string list" where
  "parts_of s = rev (clean_parts (is_abs s) [] (split_on (CHR ''/'') s))"

definition clean_path :: "string \<Rightarrow> string" where
  "clean_path s =
     (if is_abs s then CHR ''/'' # join (CHR ''/'') (parts_of s)
      else if parts_of s = [] then ''.''
      else join (CHR ''/'') (parts_of s))"

text \<open>\<open>filepath.Rel\<close> on the elements: the common front goes, what is left of the base goes up.\<close>

fun strip_common :: "string list \<Rightarrow> string list \<Rightarrow> string list \<times> string list" where
  "strip_common (b # bs) (t # ts) = (if b = t then strip_common bs ts else (b # bs, t # ts))"
| "strip_common bs ts = (bs, ts)"

definition rel_path :: "string \<Rightarrow> string \<Rightarrow> string option" where
  "rel_path base targ =
     (if clean_path base = clean_path targ then Some ''.''
      else if is_abs base \<noteq> is_abs targ then None
      else (case strip_common (parts_of base) (parts_of targ) of
              (bs, ts) \<Rightarrow>
                if bs \<noteq> [] \<and> hd bs = ''..'' then None
                else Some (join (CHR ''/'') (replicate (length bs) ''..'' @ ts))))"

section \<open>The allowed roots\<close>

definition contains_any :: "string \<Rightarrow> string \<Rightarrow> bool" where
  "contains_any s chars \<longleftrightarrow> list_ex (\<lambda>c. c \<in> set chars) s"

fun contains :: "string \<Rightarrow> string \<Rightarrow> bool" where
  "contains [] sub = has_prefix [] sub"
| "contains (c # s) sub = (has_prefix (c # s) sub \<or> contains s sub)"

datatype path_err = NotPlain | NotAbsolute | OutsideRoots

text \<open>\<open>tmp\<close> is \<open>os.TempDir()\<close>.\<close>

fun under_root :: "string list \<Rightarrow> string \<Rightarrow> bool" where
  "under_root [] cleaned = False"
| "under_root (base # bases) cleaned =
     (case rel_path base cleaned of
        Some rel \<Rightarrow> if rel \<noteq> ''..'' \<and> \<not> has_prefix rel ''../'' then True else under_root bases cleaned
      | None \<Rightarrow> under_root bases cleaned)"

definition Validate :: "string \<Rightarrow> string \<Rightarrow> path_err + string" where
  "Validate tmp path =
     (if contains_any path ''?&'' \<or> contains path ''://'' then Inl NotPlain
      else
        (let cleaned = clean_path path in
         if \<not> is_abs cleaned then Inl NotAbsolute
         else if under_root [''/data'', tmp] cleaned then Inr cleaned
         else Inl OutsideRoots))"

section \<open>Download hosts\<close>

definition AllowedHost :: "string \<Rightarrow> bool" where
  "AllowedHost host \<longleftrightarrow>
     List.member [''github.com'', ''objects.githubusercontent.com'', ''release-assets.githubusercontent.com'']
       (to_lower host)"

record parsed_url =
  Scheme :: string
  Hostname :: string

definition InsecureLoopbackAllowed :: "(string \<Rightarrow> string) \<Rightarrow> parsed_url \<Rightarrow> bool" where
  "InsecureLoopbackAllowed env u =
     (if Scheme u \<noteq> ''http'' \<or> env ''ALLOW_INSECURE_MAPPING_URL'' \<noteq> ''1'' then False
      else List.member [''127.0.0.1'', ''localhost'', ''::1''] (to_lower (Hostname u)))"

section \<open>Lemmas\<close>

lemma split_on_one: "sep \<notin> set p \<Longrightarrow> split_on sep p = [p]"
  by (induction p) auto

lemma split_on_cons: "sep \<notin> set p \<Longrightarrow> split_on sep (p @ sep # r) = p # split_on sep r"
  by (induction p) auto

lemma split_on_join:
  "ps \<noteq> [] \<Longrightarrow> \<forall>p \<in> set ps. sep \<notin> set p \<Longrightarrow> split_on sep (join sep ps) = ps"
  by (induction sep ps rule: join.induct) (auto simp: split_on_one split_on_cons)

text \<open>An element of a clean absolute path.\<close>

definition plain :: "string \<Rightarrow> bool" where
  "plain p \<longleftrightarrow> p \<noteq> [] \<and> p \<noteq> ''.'' \<and> p \<noteq> ''..'' \<and> CHR ''/'' \<notin> set p"

definition named :: "string \<Rightarrow> bool" where
  "named p \<longleftrightarrow> p \<noteq> [] \<and> CHR ''/'' \<notin> set p"

lemma clean_parts_kept:
  "list_all (\<lambda>p. CHR ''/'' \<notin> set p) ps \<Longrightarrow> list_all named kept \<Longrightarrow>
    list_all named (clean_parts rooted kept ps)"
proof (induction ps arbitrary: kept)
  case (Cons p ps)
  have "named ''..''" by (simp add: named_def)
  with Cons show ?case by (cases kept; cases rooted) (auto simp: named_def)
qed simp

lemma clean_parts_plain:
  "list_all (\<lambda>p. CHR ''/'' \<notin> set p) ps \<Longrightarrow> list_all plain kept \<Longrightarrow>
    list_all plain (clean_parts True kept ps)"
proof (induction ps arbitrary: kept)
  case (Cons p ps)
  have "\<not> plain ''..''" by (simp add: plain_def)
  moreover have "plain p" if "p \<noteq> []" "p \<noteq> ''.''" "p \<noteq> ''..''"
    using that Cons.prems(1) by (simp add: plain_def)
  ultimately show ?case using Cons by (cases kept) auto
qed simp

lemma split_on_no_slash: "list_all (\<lambda>p. CHR ''/'' \<notin> set p) (split_on (CHR ''/'') s)"
  using split_on_no_sep by (fastforce simp: list_all_iff)

lemma clean_parts_of_plain:
  "\<forall>p \<in> set ps. plain p \<Longrightarrow> clean_parts rooted kept ps = rev ps @ kept"
  by (induction ps arbitrary: kept) (auto simp: plain_def)

lemma is_abs_iff: "is_abs s \<longleftrightarrow> (\<exists>r. s = CHR ''/'' # r)"
  by (auto simp: is_abs_def has_prefix_iff)

lemma parts_of_no_slash: "p \<in> set (parts_of s) \<Longrightarrow> p \<noteq> [] \<and> CHR ''/'' \<notin> set p"
  using clean_parts_kept [OF split_on_no_slash, of "[]"]
  by (auto simp: parts_of_def list_all_iff named_def)

lemma parts_of_plain: "is_abs s \<Longrightarrow> p \<in> set (parts_of s) \<Longrightarrow> plain p"
  using clean_parts_plain [OF split_on_no_slash, of "[]"]
  by (auto simp: parts_of_def list_all_iff)

lemma is_abs_clean_path [simp]: "is_abs (clean_path s) = is_abs s"
proof (cases "is_abs s \<or> parts_of s = []")
  case True
  then show ?thesis by (auto simp: clean_path_def is_abs_iff)
next
  case False
  then obtain p ps where ps: "parts_of s = p # ps" by (cases "parts_of s") auto
  then obtain c cs where c: "p = c # cs" "c \<noteq> CHR ''/''"
    using parts_of_no_slash [of p s] by (cases p) auto
  have "\<exists>r. join (CHR ''/'') (p # ps) = c # r"
    using c(1) by (cases ps) auto
  with False ps c(2) show ?thesis by (auto simp: clean_path_def is_abs_iff)
qed

lemma parts_of_clean_path:
  assumes "is_abs s"
  shows "parts_of (clean_path s) = parts_of s"
proof -
  have pl: "\<forall>p \<in> set (parts_of s). plain p" using parts_of_plain [OF assms] by blast
  have "clean_parts True [] (split_on (CHR ''/'') (clean_path s)) = rev (parts_of s)"
  proof (cases "parts_of s = []")
    case True
    with assms show ?thesis by (simp add: clean_path_def)
  next
    case False
    have "split_on (CHR ''/'') (clean_path s) = [] # parts_of s"
      using assms False pl split_on_join [of "parts_of s"] by (simp add: clean_path_def plain_def)
    then show ?thesis using clean_parts_of_plain [OF pl] by simp
  qed
  with assms show ?thesis by (subst parts_of_def) simp
qed

lemma clean_path_idem: "is_abs s \<Longrightarrow> clean_path (clean_path s) = clean_path s"
  using parts_of_clean_path [of s] by (simp add: clean_path_def [of "clean_path s"]) (simp add: clean_path_def)

lemma strip_common_split:
  "strip_common bs ts = (bs', ts') \<Longrightarrow> \<exists>front. bs = front @ bs' \<and> ts = front @ ts'"
  by (induction bs ts rule: strip_common.induct) (auto split: if_splits)

lemma strip_common_prefix: "strip_common bs (bs @ ts) = ([], ts)"
  by (induction bs) (cases ts; auto)+

text \<open>A relative path climbs out of the base exactly when the base is not a front of the target.\<close>

lemma rel_path_inside:
  assumes "is_abs targ"
  shows "(\<exists>rel. rel_path base targ = Some rel \<and> rel \<noteq> ''..'' \<and> \<not> has_prefix rel ''../'') \<longleftrightarrow>
    is_abs base \<and> (\<exists>rest. parts_of targ = parts_of base @ rest)"
proof (cases "is_abs base")
  case False
  then have "clean_path base \<noteq> clean_path targ"
    using assms is_abs_clean_path by metis
  with False assms show ?thesis by (simp add: rel_path_def)
next
  case True
  obtain bs ts where strip: "strip_common (parts_of base) (parts_of targ) = (bs, ts)" by fastforce
  then obtain front where front: "parts_of base = front @ bs" "parts_of targ = front @ ts"
    using strip_common_split by blast
  have pl: "\<forall>p \<in> set bs. plain p" "\<forall>p \<in> set ts. plain p"
    using front parts_of_plain [OF True] parts_of_plain [OF assms] by auto
  have eq: "clean_path base = clean_path targ \<longleftrightarrow> parts_of base = parts_of targ"
    using True assms parts_of_clean_path by (metis clean_path_def)
  have dots: "split_on (CHR ''/'') ''..'' = [''..'']" "split_on (CHR ''/'') (''../'' @ r) = ''..'' # split_on (CHR ''/'') r"
    for r by simp_all
  show ?thesis
  proof (cases "bs = []")
    case True
    have rest: "\<exists>rest. parts_of targ = parts_of base @ rest" using front True by simp
    have "join (CHR ''/'') ts \<noteq> ''..'' \<and> \<not> has_prefix (join (CHR ''/'') ts) ''../''" if "ts \<noteq> []"
    proof -
      have sp: "split_on (CHR ''/'') (join (CHR ''/'') ts) = ts"
        using that pl(2) by (intro split_on_join) (auto simp: plain_def)
      have "hd ts \<noteq> ''..''" using that pl(2) by (cases ts) (auto simp: plain_def)
      then show ?thesis using sp dots by (auto simp: has_prefix_iff)
    qed
    with True \<open>is_abs base\<close> assms rest strip eq front show ?thesis
      by (cases "ts = []") (auto simp: rel_path_def has_prefix_iff)
  next
    case False
    then obtain b bs' where bs: "bs = b # bs'" by (cases bs) auto
    have no: "\<nexists>rest. parts_of targ = parts_of base @ rest"
      using strip strip_common_prefix [of "parts_of base"] False by auto
    have ne: "parts_of base \<noteq> parts_of targ" using no by (metis append_Nil2)
    have up: "join (CHR ''/'') (replicate (length bs) ''..'' @ ts) = ''..''
        \<or> has_prefix (join (CHR ''/'') (replicate (length bs) ''..'' @ ts)) ''../''"
      by (cases "replicate (length bs') ''..'' @ ts") (auto simp: bs has_prefix_iff)
    have "hd bs \<noteq> ''..''" using pl(1) bs by (auto simp: plain_def)
    with False True assms strip eq ne up no show ?thesis by (auto simp: rel_path_def)
  qed
qed

lemma under_root_iff:
  assumes "is_abs cleaned"
  shows "under_root bases cleaned \<longleftrightarrow>
    (\<exists>base \<in> set bases. is_abs base \<and> (\<exists>rest. parts_of cleaned = parts_of base @ rest))"
proof (induction bases)
  case (Cons base bases)
  have "under_root (base # bases) cleaned \<longleftrightarrow>
      (\<exists>rel. rel_path base cleaned = Some rel \<and> rel \<noteq> ''..'' \<and> \<not> has_prefix rel ''../'')
      \<or> under_root bases cleaned"
    by (auto split: option.splits)
  with Cons rel_path_inside [OF assms, of base] show ?case by simp
qed simp

text \<open>
  Claim C29. A data path is accepted exactly when it is plain and absolute and, after cleaning, its
  elements start with those of \<open>/data\<close> or of an absolute temporary directory; the path returned is
  the cleaned one, which has no empty, dot or dot-dot element left, so it names a file inside one of
  the two roots.
\<close>

theorem Validate_contained:
  "Validate tmp path = Inr p \<longleftrightarrow>
     \<not> contains_any path ''?&'' \<and> \<not> contains path ''://'' \<and> is_abs path \<and> p = clean_path path
     \<and> (\<exists>base \<in> {''/data'', tmp}. is_abs base \<and> (\<exists>rest. parts_of p = parts_of base @ rest))
     \<and> (\<forall>q \<in> set (parts_of p). plain q) \<and> clean_path p = p"
proof (cases "is_abs path")
  case True
  have "\<forall>q \<in> set (parts_of (clean_path path)). plain q"
    using parts_of_plain [of "clean_path path"] True by simp
  with True show ?thesis
    using under_root_iff [of "clean_path path" "[''/data'', tmp]"] clean_path_idem [OF True]
    by (auto simp: Validate_def Let_def)
next
  case False
  then show ?thesis by (simp add: Validate_def Let_def)
qed

lemma Validate_contained_witness:
  "Validate ''/tmp'' ''/data/../data/./cache.db'' = Inr ''/data/cache.db''
   \<and> Validate ''/tmp'' ''/data/../etc/passwd'' \<noteq> Inr ''/etc/passwd''"
proof
  have "clean_path ''/data/../data/./cache.db'' = ''/data/cache.db''" by code_simp
  moreover have "parts_of ''/data/cache.db'' = parts_of ''/data'' @ [''cache.db'']" by code_simp
  moreover have "\<not> contains_any ''/data/../data/./cache.db'' ''?&''" "\<not> contains ''/data/../data/./cache.db'' ''://''"
    "is_abs ''/data/../data/./cache.db''" "is_abs ''/data''" by code_simp+
  moreover have "\<forall>q \<in> set (parts_of ''/data/cache.db''). plain q" "clean_path ''/data/cache.db'' = ''/data/cache.db''"
    by code_simp+
  ultimately show "Validate ''/tmp'' ''/data/../data/./cache.db'' = Inr ''/data/cache.db''"
    unfolding Validate_contained by auto
  have "parts_of ''/etc/passwd'' = [''etc'', ''passwd'']" "parts_of ''/data'' = [''data'']" "parts_of ''/tmp'' = [''tmp'']"
    by code_simp+
  then show "Validate ''/tmp'' ''/data/../etc/passwd'' \<noteq> Inr ''/etc/passwd''"
    unfolding Validate_contained by auto
qed

end
