(* ===== verification/Config_Load.thy ===== *)
theory Config_Load
  imports Data_Path
begin

text \<open>
  The configuration (\<open>internal/config/config.go\<close>), read from environment variables. The environment
  is a function from names to values (empty when unset); \<open>url.Parse\<close> and the temporary directory are
  arguments, as is the current year. Only logging depends on the flag of \<open>load\<close>, so it is dropped.
\<close>

section \<open>Reading variables\<close>

type_synonym environment = "string \<Rightarrow> string"

record config =
  Port :: int
  PrewarmYears :: "int list"
  IncludeTypes :: "string list"
  ExcludeTags :: "string list"
  CacheDBPath :: string
  LogLevel :: string
  FilterFutureEnabled :: bool
  DebugEndpointsEnabled :: bool
  AdminToken :: string
  AnibridgeMappingPath :: string
  AnibridgeURL :: string

definition DefaultAnibridgeMappingPath :: string where
  "DefaultAnibridgeMappingPath = ''/data/anibridge_mappings.json.zst''"

definition DefaultAnibridgeURL :: string where
  "DefaultAnibridgeURL =
     ''https://github.com/anibridge/anibridge-mappings/releases/download/v3/mappings.json.zst''"

definition DefaultPort :: int where "DefaultPort = 8080"
definition DefaultCacheDBPath :: string where "DefaultCacheDBPath = ''/data/cache.db''"

definition getEnvStr :: "environment \<Rightarrow> string \<Rightarrow> string \<Rightarrow> string" where
  "getEnvStr env key def = (if env key \<noteq> [] then env key else def)"

text \<open>\<open>strconv.ParseBool\<close>\<close>

definition parse_bool :: "string \<Rightarrow> bool option" where
  "parse_bool s =
     (if List.member [''1'', ''t'', ''T'', ''TRUE'', ''true'', ''True''] s then Some True
      else if List.member [''0'', ''f'', ''F'', ''FALSE'', ''false'', ''False''] s then Some False
      else None)"

definition getEnvBool :: "environment \<Rightarrow> string \<Rightarrow> bool \<Rightarrow> bool" where
  "getEnvBool env key def =
     (if env key \<noteq> [] then (case parse_bool (env key) of Some b \<Rightarrow> b | None \<Rightarrow> def) else def)"

definition getEnvInt :: "environment \<Rightarrow> string \<Rightarrow> int \<Rightarrow> int" where
  "getEnvInt env key def =
     (if env key \<noteq> [] then (case atoi (env key) of Some n \<Rightarrow> n | None \<Rightarrow> def) else def)"

fun string_parts :: "string list \<Rightarrow> string list" where
  "string_parts [] = []"
| "string_parts (p # ps) =
     (if trim_space p \<noteq> [] then to_upper (trim_space p) # string_parts ps else string_parts ps)"

definition parseStringList :: "environment \<Rightarrow> string \<Rightarrow> string list \<Rightarrow> string list" where
  "parseStringList env key def =
     (if env key = [] then def
      else (let out = string_parts (split_on (CHR '','') (env key)) in if out = [] then def else out))"

fun year_parts :: "int \<Rightarrow> int \<Rightarrow> string list \<Rightarrow> int list" where
  "year_parts minYear maxYear [] = []"
| "year_parts minYear maxYear (p # ps) =
     (if trim_space p = [] then year_parts minYear maxYear ps
      else (case atoi (trim_space p) of
              None \<Rightarrow> year_parts minYear maxYear ps
            | Some y \<Rightarrow>
                if y \<le> 0 then year_parts minYear maxYear ps
                else if y < minYear \<or> maxYear < y then year_parts minYear maxYear ps
                else y # year_parts minYear maxYear ps))"

definition parseYearList :: "environment \<Rightarrow> int \<Rightarrow> string \<Rightarrow> int list \<Rightarrow> int list" where
  "parseYearList env currentYear key def =
     (if env key = [] then def
      else
        (let minYear = currentYear - 10; maxYear = currentYear + 10;
             out = year_parts minYear maxYear (split_on (CHR '','') (env key))
         in if out = [] then def else out))"

definition validateDataPath :: "string \<Rightarrow> string \<Rightarrow> string \<Rightarrow> string" where
  "validateDataPath tmp path def =
     (if path = '':memory:'' then path
      else (case Validate tmp path of Inr cleaned \<Rightarrow> cleaned | Inl _ \<Rightarrow> def))"

definition validateMappingURL ::
    "environment \<Rightarrow> (string \<Rightarrow> parsed_url option) \<Rightarrow> string \<Rightarrow> string" where
  "validateMappingURL env url_parse raw =
     (case url_parse raw of
        None \<Rightarrow> DefaultAnibridgeURL
      | Some u \<Rightarrow>
          if \<not> (Hostname u \<noteq> [] \<and> (Scheme u = ''https'' \<or> InsecureLoopbackAllowed env u))
          then DefaultAnibridgeURL
          else if Scheme u = ''https'' \<and> \<not> AllowedHost (Hostname u) then DefaultAnibridgeURL
          else raw)"

text \<open>The values \<open>validateIncludeTypes\<close> warns about.\<close>

definition knownAniListFormats :: "string list" where
  "knownAniListFormats = [''TV'', ''ONA'', ''MOVIE'', ''OVA'', ''SPECIAL'', ''TV_SHORT'', ''MUSIC'']"

definition validateIncludeTypes :: "string list \<Rightarrow> string list" where
  "validateIncludeTypes types = filter (\<lambda>t. \<not> List.member knownAniListFormats t) types"

definition load ::
    "environment \<Rightarrow> (string \<Rightarrow> parsed_url option) \<Rightarrow> string \<Rightarrow> int \<Rightarrow> config" where
  "load env url_parse tmp year =
     (let port = getEnvInt env ''PORT'' DefaultPort
      in \<lparr>Port = (if port < 1 \<or> 65535 < port then DefaultPort else port),
          PrewarmYears = parseYearList env year ''PREWARM_YEARS'' [year],
          IncludeTypes = parseStringList env ''INCLUDE_TYPES'' [''TV'', ''ONA''],
          ExcludeTags = parseStringList env ''EXCLUDE_TAGS'' [],
          CacheDBPath = validateDataPath tmp (getEnvStr env ''CACHE_DB_PATH'' DefaultCacheDBPath) DefaultCacheDBPath,
          LogLevel = getEnvStr env ''LOG_LEVEL'' ''info'',
          FilterFutureEnabled = getEnvBool env ''FILTER_FUTURE_ENABLED'' True,
          DebugEndpointsEnabled = getEnvBool env ''DEBUG_ENDPOINTS_ENABLED'' False,
          AdminToken = getEnvStr env ''ADMIN_TOKEN'' [],
          AnibridgeMappingPath =
            validateDataPath tmp (getEnvStr env ''MAPPING_PATH'' DefaultAnibridgeMappingPath) DefaultAnibridgeMappingPath,
          AnibridgeURL = validateMappingURL env url_parse (getEnvStr env ''MAPPING_URL'' DefaultAnibridgeURL)\<rparr>)"

section \<open>Lemmas\<close>

lemma string_parts_eq: "string_parts ps = map (\<lambda>p. to_upper (trim_space p)) (filter (\<lambda>p. trim_space p \<noteq> []) ps)"
  by (induction ps) auto

lemma year_parts_mem:
  "y \<in> set (year_parts a b ps) \<longleftrightarrow> 0 < y \<and> a \<le> y \<and> y \<le> b \<and> (\<exists>p \<in> set ps. atoi (trim_space p) = Some y)"
proof (induction ps)
  case (Cons p ps)
  have "atoi [] = None" by code_simp
  with Cons show ?case by (auto split: option.splits)
qed simp

text \<open>A file path the service may use: absolute and inside one of the two roots.\<close>

definition inside_roots :: "string \<Rightarrow> string \<Rightarrow> bool" where
  "inside_roots tmp p \<longleftrightarrow> is_abs p \<and>
     (\<exists>base \<in> {''/data'', tmp}. is_abs base \<and> (\<exists>rest. parts_of p = parts_of base @ rest))"

lemma Validate_inside: "Validate tmp path = Inr p \<Longrightarrow> inside_roots tmp p"
  using under_root_iff [of "clean_path path" "[''/data'', tmp]"]
  by (auto simp: inside_roots_def Validate_def Let_def split: if_splits)

lemma validateDataPath_inside:
  assumes "inside_roots tmp def"
  shows "if path = '':memory:'' then validateDataPath tmp path def = '':memory:''
    else inside_roots tmp (validateDataPath tmp path def)"
  using assms Validate_inside [of tmp path] by (auto simp: validateDataPath_def split: sum.splits)

lemma default_paths_inside:
  "inside_roots tmp DefaultCacheDBPath" "inside_roots tmp DefaultAnibridgeMappingPath"
proof -
  have "is_abs ''/data''" "parts_of DefaultCacheDBPath = parts_of ''/data'' @ [''cache.db'']" "is_abs DefaultCacheDBPath"
    "parts_of DefaultAnibridgeMappingPath = parts_of ''/data'' @ [''anibridge_mappings.json.zst'']"
    "is_abs DefaultAnibridgeMappingPath"
    by code_simp+
  then show "inside_roots tmp DefaultCacheDBPath" "inside_roots tmp DefaultAnibridgeMappingPath"
    by (auto simp: inside_roots_def)
qed

lemma memory_no_path: "\<exists>e. Validate tmp '':memory:'' = Inl e"
proof -
  have "\<not> is_abs (clean_path '':memory:'')" by code_simp
  then show ?thesis by (auto simp: Validate_def Let_def)
qed

section \<open>Properties\<close>

text \<open>
  Claim C30. Whatever the environment holds, the configuration is usable: the port is a TCP port, the
  prewarm list is not empty and within ten years of the current year, the formats are not empty, the
  cache is in memory exactly if that is asked for and otherwise inside an allowed root, the mapping path is inside an
  allowed root unless it was given as \<open>:memory:\<close> (which is kept, although only the cache can be in memory: the loader
  rejects it), and the mapping is downloaded from the default URL,
  over HTTPS from an allowlisted host, or, only with the explicit opt-in, from the loopback.
\<close>

theorem load_always_usable:
  "let cfg = load env url_parse tmp year in
     1 \<le> Port cfg \<and> Port cfg \<le> 65535
     \<and> PrewarmYears cfg \<noteq> [] \<and> (\<forall>y \<in> set (PrewarmYears cfg). \<bar>y - year\<bar> \<le> 10)
     \<and> IncludeTypes cfg \<noteq> [] \<and> [] \<notin> set (IncludeTypes cfg) \<and> [] \<notin> set (ExcludeTags cfg)
     \<and> (if env ''CACHE_DB_PATH'' = '':memory:'' then CacheDBPath cfg = '':memory:'' else inside_roots tmp (CacheDBPath cfg))
     \<and> (if env ''MAPPING_PATH'' = '':memory:''
        then AnibridgeMappingPath cfg = '':memory:'' \<and> (\<exists>e. Validate tmp (AnibridgeMappingPath cfg) = Inl e)
        else inside_roots tmp (AnibridgeMappingPath cfg))
     \<and> (AnibridgeURL cfg = DefaultAnibridgeURL
        \<or> (\<exists>u. url_parse (AnibridgeURL cfg) = Some u \<and> Hostname u \<noteq> []
             \<and> (if Scheme u = ''https'' then AllowedHost (Hostname u)
                else Scheme u = ''http'' \<and> env ''ALLOW_INSECURE_MAPPING_URL'' = ''1''
                  \<and> to_lower (Hostname u) \<in> {''127.0.0.1'', ''localhost'', ''::1''})))"
proof -
  let ?cfg = "load env url_parse tmp year"
  have "1 \<le> Port ?cfg" "Port ?cfg \<le> 65535" by (simp_all add: load_def Let_def DefaultPort_def)
  moreover have "PrewarmYears ?cfg \<noteq> []" "\<forall>y \<in> set (PrewarmYears ?cfg). \<bar>y - year\<bar> \<le> 10"
    by (auto simp: load_def Let_def parseYearList_def year_parts_mem)
  moreover have "IncludeTypes ?cfg \<noteq> []" "[] \<notin> set (IncludeTypes ?cfg)" "[] \<notin> set (ExcludeTags ?cfg)"
    by (auto simp: load_def Let_def parseStringList_def string_parts_eq to_upper_def)
  moreover have "if env ''CACHE_DB_PATH'' = '':memory:'' then CacheDBPath ?cfg = '':memory:'' else inside_roots tmp (CacheDBPath ?cfg)"
    using validateDataPath_inside [OF default_paths_inside(1) [of tmp], where path = "getEnvStr env ''CACHE_DB_PATH'' DefaultCacheDBPath"]
    by (auto simp: load_def Let_def getEnvStr_def DefaultCacheDBPath_def split: if_splits)
  moreover have "if env ''MAPPING_PATH'' = '':memory:''
      then AnibridgeMappingPath ?cfg = '':memory:'' \<and> (\<exists>e. Validate tmp (AnibridgeMappingPath ?cfg) = Inl e)
      else inside_roots tmp (AnibridgeMappingPath ?cfg)"
    using memory_no_path validateDataPath_inside [OF default_paths_inside(2) [of tmp],
        where path = "getEnvStr env ''MAPPING_PATH'' DefaultAnibridgeMappingPath"]
    by (auto simp: load_def Let_def getEnvStr_def DefaultAnibridgeMappingPath_def split: if_splits)
  moreover have "AnibridgeURL ?cfg = DefaultAnibridgeURL
      \<or> (\<exists>u. url_parse (AnibridgeURL ?cfg) = Some u \<and> Hostname u \<noteq> []
             \<and> (if Scheme u = ''https'' then AllowedHost (Hostname u)
                else Scheme u = ''http'' \<and> env ''ALLOW_INSECURE_MAPPING_URL'' = ''1''
                  \<and> to_lower (Hostname u) \<in> {''127.0.0.1'', ''localhost'', ''::1''}))"
    by (auto simp: load_def Let_def validateMappingURL_def InsecureLoopbackAllowed_def split: option.splits if_splits)
  ultimately show ?thesis unfolding Let_def by blast
qed

lemma load_always_usable_witness:
  "Port (load (\<lambda>k. if k = ''PORT'' then ''70000'' else []) (\<lambda>_. None) ''/tmp'' 2024) \<le> 65535
   \<and> PrewarmYears (load (\<lambda>k. if k = ''PREWARM_YEARS'' then ''1999, x'' else []) (\<lambda>_. None) ''/tmp'' 2024) \<noteq> []"
  using load_always_usable [of "\<lambda>k. if k = ''PORT'' then ''70000'' else []" "\<lambda>_. None" "''/tmp''" 2024]
    load_always_usable [of "\<lambda>k. if k = ''PREWARM_YEARS'' then ''1999, x'' else []" "\<lambda>_. None" "''/tmp''" 2024]
  unfolding Let_def by blast

end
