(* ===== verification/Fetch_Backoff.thy ===== *)
theory Fetch_Backoff
  imports Go_Calendar
begin

text \<open>
  The memory of failed year fetches in \<open>internal/scheduler/scheduler.go\<close>: per year the moment the next
  attempt is allowed and the delay that led to it. The operations run under \<open>failureMu\<close>, so each is
  one step; they are stated on any record that extends \<open>backoff\<close>, as the scheduler's does.
\<close>

definition fetchRetryBase :: duration where "fetchRetryBase = 15 * second"
definition fetchRetryMax :: duration where "fetchRetryMax = 5 * minute"
definition maxTrackedFetchFailures :: nat where "maxTrackedFetchFailures = 256"

lemmas backoff_consts = fetchRetryBase_def fetchRetryMax_def maxTrackedFetchFailures_def duration_defs

record fetchFailure =
  retryAt :: instant
  ff_delay :: duration

record backoff =
  failures :: "(int, fetchFailure) gomap"
  sch_retryBase :: duration
  sch_retryMax :: duration

section \<open>Operations\<close>

definition fetchCooldownRemaining :: "int \<Rightarrow> instant \<Rightarrow> 'a backoff_scheme \<Rightarrow> duration" where
  "fetchCooldownRemaining year now s =
     (case mget (failures s) year of
        Some failure \<Rightarrow>
          (let remaining = time_sub (retryAt failure) now in if 0 < remaining then remaining else 0)
      | None \<Rightarrow> 0)"

definition retry_limits :: "'a backoff_scheme \<Rightarrow> duration \<times> duration" where
  "retry_limits s =
     (let base = (if sch_retryBase s \<le> 0 then fetchRetryBase else sch_retryBase s)
      in (base, if sch_retryMax s < base then fetchRetryMax else sch_retryMax s))"

definition next_delay :: "int \<Rightarrow> 'a backoff_scheme \<Rightarrow> duration" where
  "next_delay year s =
     (let (base, maxDelay) = retry_limits s;
          delay = (case mget (failures s) year of
                     Some previous \<Rightarrow> if 0 < ff_delay previous then wrap64 (ff_delay previous * 2) else base
                   | None \<Rightarrow> base)
      in if maxDelay < delay then maxDelay else delay)"

text \<open>\<open>now.Sub(failure.retryAt) > maxDelay\<close>: deleted in the first loop.\<close>

definition purge_expired :: "instant \<Rightarrow> duration \<Rightarrow> (int, fetchFailure) gomap \<Rightarrow> (int, fetchFailure) gomap" where
  "purge_expired now maxDelay fs = filter (\<lambda>(y, failure). \<not> maxDelay < time_sub now (retryAt failure)) fs"

text \<open>The second loop: the zero time marks that nothing was seen yet.\<close>

definition oldest_step :: "int \<times> instant \<Rightarrow> int \<times> fetchFailure \<Rightarrow> int \<times> instant" where
  "oldest_step best entry =
     (if snd best = 0 \<or> retryAt (snd entry) < snd best then (fst entry, retryAt (snd entry)) else best)"

definition oldest_failure :: "(int, fetchFailure) gomap \<Rightarrow> int" where
  "oldest_failure fs = fst (foldl oldest_step (0, 0) fs)"

definition recordFetchFailure :: "int \<Rightarrow> instant \<Rightarrow> 'a backoff_scheme \<Rightarrow> 'a backoff_scheme" where
  "recordFetchFailure year now s =
     (let maxDelay = snd (retry_limits s);
          delay = next_delay year s;
          fs = purge_expired now maxDelay (failures s);
          fs1 = (if mget fs year = None \<and> maxTrackedFetchFailures \<le> length (mkeys fs)
                 then mdel (oldest_failure fs) fs else fs)
      in s\<lparr>failures := mput year \<lparr>retryAt = now + delay, ff_delay = delay\<rparr> fs1\<rparr>)"

definition clearFetchFailure :: "int \<Rightarrow> 'a backoff_scheme \<Rightarrow> 'a backoff_scheme" where
  "clearFetchFailure year s = s\<lparr>failures := mdel year (failures s)\<rparr>"

text \<open>The state \<open>NewWithFetcher\<close> starts from.\<close>

definition new_backoff :: backoff where
  "new_backoff = \<lparr>failures = [], sch_retryBase = fetchRetryBase, sch_retryMax = fetchRetryMax\<rparr>"

section \<open>The invariant\<close>

text \<open>
  With a base and a maximum that need no correction: at most 256 years, each with a delay between
  the two.
\<close>

definition limits_ok :: "'a backoff_scheme \<Rightarrow> bool" where
  "limits_ok s \<longleftrightarrow> 0 < sch_retryBase s \<and> sch_retryBase s \<le> sch_retryMax s \<and> sch_retryMax s \<le> 2 ^ 61"

definition delay_ok :: "'a backoff_scheme \<Rightarrow> fetchFailure \<Rightarrow> bool" where
  "delay_ok s f \<longleftrightarrow> sch_retryBase s \<le> ff_delay f \<and> ff_delay f \<le> sch_retryMax s"

definition backoff_ok :: "'a backoff_scheme \<Rightarrow> bool" where
  "backoff_ok s \<longleftrightarrow> limits_ok s \<and> mwf (failures s) \<and> length (mkeys (failures s)) \<le> maxTrackedFetchFailures
     \<and> (\<forall>y f. mget (failures s) y = Some f \<longrightarrow> delay_ok s f)"

lemma new_backoff_ok: "backoff_ok new_backoff"
  by (simp add: backoff_ok_def limits_ok_def new_backoff_def mkeys_def gm.ok_emp backoff_consts)

lemma retry_limits_ok: "limits_ok s \<Longrightarrow> retry_limits s = (sch_retryBase s, sch_retryMax s)"
  by (simp add: limits_ok_def retry_limits_def Let_def)

text \<open>The delay after one more failure of the year, without the machine arithmetic.\<close>

lemma next_delay_ok:
  assumes "backoff_ok s"
  shows "next_delay year s =
    min (sch_retryMax s) (case mget (failures s) year of None \<Rightarrow> sch_retryBase s | Some f \<Rightarrow> 2 * ff_delay f)"
proof (cases "mget (failures s) year")
  case None
  with assms show ?thesis
    by (simp add: next_delay_def backoff_ok_def retry_limits_ok Let_def)
next
  case (Some f)
  with assms have f: "0 < ff_delay f" "ff_delay f \<le> 2 ^ 61"
    by (auto simp: backoff_ok_def delay_ok_def limits_ok_def dest!: spec [of _ year])
  then have "in_int64 (ff_delay f * 2)"
    by (simp add: in_int64_def min_int64_def max_int64_def)
  with f Some assms show ?thesis
    by (simp add: next_delay_def backoff_ok_def retry_limits_ok Let_def wrap64_id)
qed

lemma next_delay_bounds:
  assumes "backoff_ok s"
  shows "sch_retryBase s \<le> next_delay year s" "next_delay year s \<le> sch_retryMax s"
  using assms unfolding next_delay_ok [OF assms]
  by (auto simp: backoff_ok_def delay_ok_def limits_ok_def split: option.splits dest!: spec [of _ year])

lemma mwf_purge [wf_rules]: "mwf fs \<Longrightarrow> mwf (purge_expired now d fs)"
  unfolding purge_expired_def by (rule mwf_filter)

lemma mget_purge:
  "mwf fs \<Longrightarrow> mget (purge_expired now d fs) y =
    (case mget fs y of None \<Rightarrow> None | Some f \<Rightarrow> if d < time_sub now (retryAt f) then None else Some f)"
  unfolding purge_expired_def
  using mget_filter [of fs "\<lambda>_ f. \<not> d < time_sub now (retryAt f)" y] by (auto split: option.splits)

lemma length_purge: "length (mkeys (purge_expired now d fs)) \<le> length (mkeys fs)"
  by (simp add: purge_expired_def mkeys_def)

lemma recordFetchFailure_frame [simp]:
  "sch_retryBase (recordFetchFailure year now s) = sch_retryBase s"
  "sch_retryMax (recordFetchFailure year now s) = sch_retryMax s"
  by (simp_all add: recordFetchFailure_def Let_def)

lemma clearFetchFailure_frame [simp]:
  "sch_retryBase (clearFetchFailure year s) = sch_retryBase s"
  "sch_retryMax (clearFetchFailure year s) = sch_retryMax s"
  "mget (failures (clearFetchFailure year s)) y = (if y = year then None else mget (failures s) y)"
  by (simp_all add: clearFetchFailure_def)

text \<open>The loop returns a year of the map, one whose retry moment no other precedes.\<close>

lemma oldest_loop:
  assumes "foldl oldest_step (y0, t0) fs = (y, t)" "\<forall>e \<in> set fs. 0 < retryAt (snd e)" "0 \<le> t0"
  shows "(if t0 = 0 \<and> fs \<noteq> [] then \<exists>f. (y, f) \<in> set fs \<and> retryAt f = t
          else (y, t) = (y0, t0) \<or> (\<exists>f. (y, f) \<in> set fs \<and> retryAt f = t))
    \<and> (\<forall>e \<in> set fs. t \<le> retryAt (snd e)) \<and> (0 < t0 \<longrightarrow> t \<le> t0)"
  using assms
proof (induction fs arbitrary: y0 t0)
  case Nil
  then show ?case by simp
next
  case (Cons e fs)
  obtain y1 t1 where step: "oldest_step (y0, t0) e = (y1, t1)" by fastforce
  have e: "0 < retryAt (snd e)" using Cons.prems by simp
  have s1: "0 < t1" "t1 \<le> retryAt (snd e)" "0 < t0 \<longrightarrow> t1 \<le> t0"
    "(y1, t1) = (fst e, retryAt (snd e)) \<or> 0 < t0 \<and> (y1, t1) = (y0, t0)"
    using step e Cons.prems(3) by (auto simp: oldest_step_def split: if_splits)
  have run: "foldl oldest_step (y1, t1) fs = (y, t)" using Cons.prems(1) step by simp
  have "((y, t) = (y1, t1) \<or> (\<exists>f. (y, f) \<in> set fs \<and> retryAt f = t))
    \<and> (\<forall>e \<in> set fs. t \<le> retryAt (snd e)) \<and> t \<le> t1"
    using Cons.IH [OF run] Cons.prems(2) s1(1) by simp
  with s1 e show ?case
    by (cases e) auto
qed

lemma oldest_failure_min:
  assumes "mwf fs" "fs \<noteq> []" "\<forall>y f. mget fs y = Some f \<longrightarrow> 0 < retryAt f"
  shows "\<exists>f. mget fs (oldest_failure fs) = Some f \<and> (\<forall>y g. mget fs y = Some g \<longrightarrow> retryAt f \<le> retryAt g)"
proof -
  obtain y t where run: "foldl oldest_step (0, 0) fs = (y, t)" by fastforce
  have pos: "\<forall>e \<in> set fs. 0 < retryAt (snd e)"
    using assms(1,3) by (auto simp: mget_Some_iff)
  have "oldest_failure fs = y" using run by (simp add: oldest_failure_def)
  moreover obtain f where "(y, f) \<in> set fs" "retryAt f = t" and min: "\<forall>e \<in> set fs. t \<le> retryAt (snd e)"
    using oldest_loop [OF run pos] assms(2) by auto
  ultimately show ?thesis
    using assms(1) by (intro exI [of _ f]) (auto simp: mget_Some_iff)
qed

lemma oldest_loop_key:
  "fs \<noteq> [] \<or> y0 \<in> set ks \<Longrightarrow> fst ` set fs \<subseteq> set ks \<Longrightarrow> t0 = 0 \<or> y0 \<in> set ks \<Longrightarrow>
    fst (foldl oldest_step (y0, t0) fs) \<in> set ks"
proof (induction fs arbitrary: y0 t0)
  case Nil
  then show ?case by simp
next
  case (Cons e fs)
  obtain y1 t1 where step: "oldest_step (y0, t0) e = (y1, t1)" by fastforce
  then have "y1 \<in> set ks" using Cons.prems by (auto simp: oldest_step_def split: if_splits)
  with Cons step show ?case by simp
qed

lemma oldest_failure_tracked: "fs \<noteq> [] \<Longrightarrow> oldest_failure fs \<in> set (mkeys fs)"
  unfolding oldest_failure_def using oldest_loop_key [of fs 0 "mkeys fs" 0] by (simp add: mkeys_def)

text \<open>Whether recording a failure of \<open>year\<close> evicts another year, and which.\<close>

definition evicts :: "int \<Rightarrow> instant \<Rightarrow> 'a backoff_scheme \<Rightarrow> int option" where
  "evicts year now s =
     (let fs = purge_expired now (snd (retry_limits s)) (failures s)
      in if mget fs year = None \<and> maxTrackedFetchFailures \<le> length (mkeys fs)
         then Some (oldest_failure fs) else None)"

lemma mget_record:
  assumes "mwf (failures s)"
  shows "mget (failures (recordFetchFailure year now s)) y =
    (if y = year then Some \<lparr>retryAt = now + next_delay year s, ff_delay = next_delay year s\<rparr>
     else if evicts year now s = Some y then None
     else (case mget (failures s) y of None \<Rightarrow> None
           | Some f \<Rightarrow> if snd (retry_limits s) < time_sub now (retryAt f) then None else Some f))"
  using assms by (auto simp: recordFetchFailure_def evicts_def Let_def mget_purge)

lemma record_ok [wf_rules]:
  assumes "backoff_ok s"
  shows "backoff_ok (recordFetchFailure year now s)"
proof -
  let ?s = "recordFetchFailure year now s" and ?fs = "purge_expired now (snd (retry_limits s)) (failures s)"
  have lim: "limits_ok s" and wf: "mwf (failures s)" and small: "length (mkeys (failures s)) \<le> 256"
    and each: "\<And>y f. mget (failures s) y = Some f \<Longrightarrow> delay_ok s f"
    using assms by (auto simp: backoff_ok_def maxTrackedFetchFailures_def)
  have wf1: "mwf ?fs" using wf by (rule mwf_purge)
  have "limits_ok ?s" using lim by (simp add: limits_ok_def)
  moreover have "mwf (failures ?s)"
    using wf1 by (simp add: recordFetchFailure_def Let_def gm.ok_put gm.ok_del)
  moreover have "delay_ok ?s f" if "mget (failures ?s) y = Some f" for y f
  proof (cases "y = year")
    case True
    with that next_delay_bounds [OF assms, of year] show ?thesis
      by (auto simp: mget_record [OF wf] delay_ok_def)
  next
    case False
    with that have "mget (failures s) y = Some f"
      by (auto simp: mget_record [OF wf] split: if_splits option.splits)
    from each [OF this] show ?thesis by (simp add: delay_ok_def)
  qed
  moreover have "length (mkeys (failures ?s)) \<le> 256"
  proof -
    have n: "length (mkeys ?fs) \<le> 256" using small length_purge [of now _ "failures s"] le_trans by blast
    show ?thesis
    proof (cases "mget ?fs year = None")
      case False
      then have "length (mkeys (failures ?s)) = length (mkeys ?fs)"
        by (auto simp: recordFetchFailure_def Let_def gm.size_put [OF wf1])
      with n show ?thesis by simp
    next
      case True
      show ?thesis
      proof (cases "256 \<le> length (mkeys ?fs)")
        case False
        with True show ?thesis
          by (simp add: recordFetchFailure_def Let_def gm.size_put [OF wf1] maxTrackedFetchFailures_def)
      next
        case full: True
        let ?y = "oldest_failure ?fs"
        have "?fs \<noteq> []" using full by (auto simp: mkeys_def)
        then have "mget ?fs ?y \<noteq> None"
          using oldest_failure_tracked [of ?fs] unfolding gm.keys_get by simp
        then have "Suc (length (mkeys (mdel ?y ?fs))) = length (mkeys ?fs)"
          by (rule gm.size_del_present [OF wf1])
        moreover have "length (mkeys (failures ?s)) = Suc (length (mkeys (mdel ?y ?fs)))"
          using True full
          by (simp add: recordFetchFailure_def Let_def gm.size_put [OF gm.ok_del [OF wf1]]
              maxTrackedFetchFailures_def)
        ultimately show ?thesis using n by simp
      qed
    qed
  qed
  ultimately show ?thesis by (simp add: backoff_ok_def maxTrackedFetchFailures_def)
qed

lemma length_mdel_le: "length (mkeys (mdel k m)) \<le> length (mkeys m)"
  using length_delete_le [of k m] by (simp add: mkeys_def mdel_def)

lemma clear_ok [wf_rules]: "backoff_ok s \<Longrightarrow> backoff_ok (clearFetchFailure year s)"
  using length_mdel_le [of year "failures s"]
  by (auto simp: backoff_ok_def limits_ok_def delay_ok_def clearFetchFailure_def gm.ok_del split: if_splits)

section \<open>Properties\<close>

text \<open>The operations in the order goroutines perform them, from the state of a new scheduler.\<close>

datatype backoff_op = Failed int instant | Cleared int

fun backoff_step :: "backoff_op \<Rightarrow> 'a backoff_scheme \<Rightarrow> 'a backoff_scheme" where
  "backoff_step (Failed year now) s = recordFetchFailure year now s"
| "backoff_step (Cleared year) s = clearFetchFailure year s"

lemma backoff_run_ok: "backoff_ok s \<Longrightarrow> backoff_ok (fold backoff_step ops s)"
proof (induction ops arbitrary: s)
  case (Cons op ops)
  then show ?case by (cases op) (auto intro: record_ok clear_ok)
qed simp

text \<open>
  Whatever failures and successes are recorded, in whatever order and at whatever times, at
  most 256 years are tracked and every tracked delay is between 15 seconds and 5 minutes.
\<close>

lemma backoff_bounded:
  "length (mkeys (failures (fold backoff_step ops new_backoff))) \<le> 256
   \<and> list_all (\<lambda>(y, f). 15 * second \<le> ff_delay f \<and> ff_delay f \<le> 5 * minute)
       (failures (fold backoff_step ops new_backoff))"
proof -
  let ?s = "fold backoff_step ops new_backoff"
  have ok: "backoff_ok ?s" by (rule backoff_run_ok [OF new_backoff_ok])
  have "sch_retryBase ?s = 15 * second \<and> sch_retryMax ?s = 5 * minute"
  proof (induction ops rule: rev_induct)
    case Nil
    show ?case by (simp add: new_backoff_def fetchRetryBase_def fetchRetryMax_def)
  next
    case (snoc op ops)
    then show ?case by (cases op) simp_all
  qed
  with ok show ?thesis
    by (auto simp: backoff_ok_def delay_ok_def mget_Some_iff maxTrackedFetchFailures_def list_all_iff)
qed

lemma evicts_oldest:
  assumes "backoff_ok s" "\<forall>y f. mget (failures s) y = Some f \<longrightarrow> 0 < retryAt f" "evicts year now s = Some y"
  shows "mget (failures s) year = None \<and> length (mkeys (failures s)) = 256
    \<and> (\<exists>f. mget (failures s) y = Some f \<and> (\<forall>z g. z \<noteq> year
        \<and> mget (failures (recordFetchFailure year now s)) z = Some g \<longrightarrow> retryAt f \<le> retryAt g))"
proof -
  let ?fs = "purge_expired now (snd (retry_limits s)) (failures s)"
  have wf: "mwf (failures s)" using assms(1) by (simp add: backoff_ok_def)
  from assms(3) have y: "y = oldest_failure ?fs" and none: "mget ?fs year = None"
    and full: "256 \<le> length (mkeys ?fs)"
    by (auto simp: evicts_def Let_def maxTrackedFetchFailures_def split: if_splits)
  have "?fs \<noteq> []" using full by (auto simp: mkeys_def)
  moreover have "\<forall>y f. mget ?fs y = Some f \<longrightarrow> 0 < retryAt f"
    using assms(2) by (auto simp: mget_purge [OF wf] split: option.splits if_splits)
  ultimately obtain f where f: "mget ?fs y = Some f" "\<And>z g. mget ?fs z = Some g \<Longrightarrow> retryAt f \<le> retryAt g"
    using oldest_failure_min [OF mwf_purge [OF wf]] y by blast
  have "retryAt f \<le> retryAt g"
    if "z \<noteq> year" "mget (failures (recordFetchFailure year now s)) z = Some g" for z g
  proof -
    have "mget ?fs z = Some g"
      using that by (auto simp: mget_record [OF wf] mget_purge [OF wf] split: if_splits option.splits)
    then show ?thesis by (rule f(2))
  qed
  moreover have "mget (failures s) y = Some f"
    using f(1) by (auto simp: mget_purge [OF wf] split: option.splits if_splits)
  moreover have "length (mkeys (failures s)) = 256"
    using full length_purge [of now "snd (retry_limits s)" "failures s"] assms(1)
    by (simp add: backoff_ok_def maxTrackedFetchFailures_def)
  moreover have "?fs = failures s"
  proof (rule ccontr)
    assume "?fs \<noteq> failures s"
    then have "length ?fs < length (failures s)"
      unfolding purge_expired_def by (metis filter_True length_filter_less)
    with full calculation(3) show False by (simp add: mkeys_def)
  qed
  ultimately show ?thesis using f(1) none by auto
qed

lemma cooldown_recorded:
  assumes "backoff_ok s" "now \<le> t"
  shows "fetchCooldownRemaining year t (recordFetchFailure year now s) = max 0 (now + next_delay year s - t)"
proof -
  have "next_delay year s \<le> 2 ^ 61"
    using next_delay_bounds(2) [OF assms(1), of year] assms(1) by (simp add: backoff_ok_def limits_ok_def)
  then show ?thesis
    using assms
    by (auto simp: fetchCooldownRemaining_def mget_record backoff_ok_def time_sub_def Let_def
        min_int64_def max_int64_def)
qed

text \<open>
  A recorded failure blocks the year for twice its previous delay, or the base without one,
  but never more than the maximum, counted from the failure. The waiting times of all other years
  stay what they were, except that of one year forgotten when 256 others were tracked: one whose
  moment to retry no year left precedes.
\<close>

lemma recordFetchFailure_cooldown:
  fixes year now s
  defines "s' \<equiv> recordFetchFailure year now s"
  assumes "backoff_ok s" "\<forall>y f. mget (failures s) y = Some f \<longrightarrow> 0 < retryAt f" "now \<le> t"
  shows "fetchCooldownRemaining year t s' =
      max 0 (now + min (sch_retryMax s) (case mget (failures s) year of
          None \<Rightarrow> sch_retryBase s | Some f \<Rightarrow> 2 * ff_delay f) - t)
    \<and> (\<exists>gone. (\<forall>y. y \<noteq> year \<longrightarrow> gone \<noteq> Some y
          \<longrightarrow> fetchCooldownRemaining y t s' = fetchCooldownRemaining y t s)
        \<and> (\<forall>y. gone = Some y \<longrightarrow> length (mkeys (failures s)) = 256 \<and> mget (failures s) year = None
            \<and> (\<exists>f. mget (failures s) y = Some f \<and> (\<forall>z g. z \<noteq> year \<and> mget (failures s') z = Some g
                \<longrightarrow> retryAt f \<le> retryAt g))))"
proof (intro conjI exI [of _ "evicts year now s"] allI impI)
  have wf: "mwf (failures s)" and lim: "0 \<le> snd (retry_limits s)"
    using assms(2) by (auto simp: backoff_ok_def retry_limits_ok limits_ok_def)
  show "fetchCooldownRemaining year t s' =
      max 0 (now + min (sch_retryMax s) (case mget (failures s) year of
          None \<Rightarrow> sch_retryBase s | Some f \<Rightarrow> 2 * ff_delay f) - t)"
    using cooldown_recorded [OF assms(2,4)] by (simp add: s'_def next_delay_ok [OF assms(2)])
  show "fetchCooldownRemaining y t s' = fetchCooldownRemaining y t s"
    if "y \<noteq> year" "evicts year now s \<noteq> Some y" for y
  proof (cases "mget (failures s) y")
    case None
    with that show ?thesis by (simp add: fetchCooldownRemaining_def s'_def mget_record [OF wf])
  next
    case (Some f)
    have "retryAt f \<le> t" if "snd (retry_limits s) < time_sub now (retryAt f)"
      using that lim assms(4) by (auto simp: time_sub_def min_int64_def)
    then have "\<not> 0 < time_sub (retryAt f) t" if "snd (retry_limits s) < time_sub now (retryAt f)"
      using that by (simp add: time_sub_def min_int64_def)
    with Some that show ?thesis
      by (auto simp: fetchCooldownRemaining_def s'_def mget_record [OF wf] Let_def)
  qed
  fix y
  assume y: "evicts year now s = Some y"
  note out = evicts_oldest [OF assms(2,3) y]
  from out show "length (mkeys (failures s)) = 256" "mget (failures s) year = None" by blast+
  from out show "\<exists>f. mget (failures s) y = Some f \<and> (\<forall>z g. z \<noteq> year \<and> mget (failures s') z = Some g
      \<longrightarrow> retryAt f \<le> retryAt g)" by (simp add: s'_def)
qed

lemma recordFetchFailure_cooldown_witness:
  "fetchCooldownRemaining 2024 (of_unix 110)
    (recordFetchFailure 2024 (of_unix 100) (recordFetchFailure 2024 (of_unix 10) new_backoff)) = 20 * second"
proof -
  let ?s = "recordFetchFailure 2024 (of_unix 10) new_backoff"
  have ok: "backoff_ok ?s" by (intro record_ok new_backoff_ok)
  have get: "mget (failures ?s) y = (if y = 2024 then Some \<lparr>retryAt = of_unix 25, ff_delay = 15 * second\<rparr> else None)" for y
    using next_delay_ok [OF new_backoff_ok, of 2024] new_backoff_ok
    by (auto simp: mget_record backoff_ok_def new_backoff_def of_unix_def unix_epoch_def fetchRetryBase_def
        fetchRetryMax_def duration_defs)
  have pos: "\<forall>y f. mget (failures ?s) y = Some f \<longrightarrow> 0 < retryAt f"
    unfolding get by (simp add: of_unix_def unix_epoch_def duration_defs)
  have le: "of_unix 100 \<le> of_unix 110" by (simp add: of_unix_def duration_defs)
  have "fetchCooldownRemaining 2024 (of_unix 110) (recordFetchFailure 2024 (of_unix 100) ?s)
      = max 0 (of_unix 100 + min (sch_retryMax ?s) (2 * (15 * second)) - of_unix 110)"
    using recordFetchFailure_cooldown [OF ok pos le, of 2024] unfolding get by simp
  then show ?thesis by (simp add: new_backoff_def of_unix_def fetchRetryMax_def duration_defs)
qed

end
