(* ===== verification/Year_Fetch.thy ===== *)
theory Year_Fetch
  imports Year_Cache Anilist_Client Fetch_Backoff
begin

text \<open>
  Fetching and storing a year (\<open>fetchAndStore\<close>, \<open>FetchAndStore\<close>, \<open>Prewarm\<close> and \<open>refreshStaleYears\<close> of
  \<open>internal/scheduler/scheduler.go\<close>). The scheduler reaches the cache through two operations, a decoded
  peek and a store; the locale \<open>year_store\<close> states what it relies on and is interpreted on the operations
  of \<open>Year_Cache\<close>. What the upstream client and \<open>json.Marshal\<close> return, the clock readings and what other
  goroutines do meanwhile are inputs. The registration of the running fetch is the step relation of
  \<open>Fetch_Inflight\<close>; here its outcome for this call is an input.
\<close>

section \<open>Errors and inputs\<close>

datatype year_err =
    WaitEnded ctx_err
  | PeekFailed db_err
  | CoolingDown duration
  | UpstreamFailed fetch_err
  | MarshalFailed string
  | StoreFailed db_err
  | FetchPanic

text \<open>
  \<open>errors.Is(err, context.Canceled)\<close> on what the errors wrap: the errors of a request wrap the context's error, and those
  of the last attempt the error that kept a body from being read.
\<close>

fun request_canceled :: "req_err \<Rightarrow> bool" where
  "request_canceled (ApiErrorUnread _ cause) \<longleftrightarrow> cause = CtxCause Canceled"
| "request_canceled (DecodeFailed e) \<longleftrightarrow> e = BodyUnread (CtxCause Canceled)"
| "request_canceled _ \<longleftrightarrow> False"

fun client_canceled :: "client_err \<Rightarrow> bool" where
  "client_canceled (CtxFailed e) \<longleftrightarrow> e = Canceled"
| "client_canceled (GaveUp _ (Some e)) \<longleftrightarrow> request_canceled e"
| "client_canceled _ \<longleftrightarrow> False"

fun is_canceled :: "year_err \<Rightarrow> bool" where
  "is_canceled (WaitEnded e) \<longleftrightarrow> e = Canceled"
| "is_canceled (PeekFailed e) \<longleftrightarrow> e = CtxErr Canceled"
| "is_canceled (UpstreamFailed e) \<longleftrightarrow>
     (case e of FetchCtx ce \<Rightarrow> ce = Canceled | RequestFailed _ ce \<Rightarrow> client_canceled ce | _ \<Rightarrow> False)"
| "is_canceled (StoreFailed e) \<longleftrightarrow> e = CtxErr Canceled"
| "is_canceled (CoolingDown _) \<longleftrightarrow> False"
| "is_canceled (MarshalFailed _) \<longleftrightarrow> False"
| "is_canceled FetchPanic \<longleftrightarrow> False"

text \<open>The arguments of a decoded peek other than the year and the cache.\<close>

record peek_env =
  pk_db :: db_env
  pk_read :: read_env
  pk_caps :: capacities
  pk_clock :: clock

text \<open>
  The inputs of one fetch: the result of the fetch it joined, if one was running; the peek; the clock at
  the cooldown check; what other goroutines do while it waits or fetches; what the client returns
  (\<^const>\<open>None\<close>: it panics; the inner \<^const>\<open>None\<close> is a nil slice); the store; the clock at the end.
\<close>

record 's fetch_env =
  fe_joined :: "(ctx_err + bool \<times> year_err option) option"
  fe_peek :: peek_env
  fe_cool :: instant
  fe_others :: "'s \<Rightarrow> 's"
  fe_upstream :: "(fetch_err + anilist_show list option) option"
  fe_set_db :: db_env
  fe_set_clock :: clock
  fe_end :: instant

section \<open>One fetch\<close>

datatype fetch_stage = CacheCheck | Cooldown | Upstream | Encode | CacheWrite

text \<open>From the upstream result to the store; a nil slice becomes an empty one.\<close>

definition fetch_attempt ::
    "(anilist_show list option \<Rightarrow> string + string) \<Rightarrow> (string \<Rightarrow> 'c \<Rightarrow> (db_err option \<times> 'c) option) \<Rightarrow>
     (fetch_err + anilist_show list option) option \<Rightarrow> 'c \<Rightarrow> (year_err option \<times> fetch_stage) \<times> 'c" where
  "fetch_attempt marshal store upstream c =
     (case upstream of
        None \<Rightarrow> ((Some FetchPanic, Upstream), c)
      | Some (Inl e) \<Rightarrow> ((Some (UpstreamFailed e), Upstream), c)
      | Some (Inr result) \<Rightarrow>
          (let shs = (case result of None \<Rightarrow> [] | Some l \<Rightarrow> l) in
           case marshal (Some shs) of
             Inl e \<Rightarrow> ((Some (MarshalFailed e), Encode), c)
           | Inr data \<Rightarrow>
               (case store data c of
                  None \<Rightarrow> ((Some FetchPanic, CacheWrite), c)
                | Some (Some e, c1) \<Rightarrow> ((Some (StoreFailed e), CacheWrite), c1)
                | Some (None, c1) \<Rightarrow> ((None, CacheWrite), c1))))"

text \<open>The body of the leader, up to the deferred function: error, whether it attempted, stage.\<close>

definition fetch_body ::
    "(anilist_show list option \<Rightarrow> string + string) \<Rightarrow>
     ('c \<Rightarrow> ((decoded_year \<times> db_err option) \<times> 'c) option) \<Rightarrow>
     (string \<Rightarrow> 'c \<Rightarrow> (db_err option \<times> 'c) option) \<Rightarrow> instant \<Rightarrow>
     ('c \<times> 'b backoff_scheme \<Rightarrow> 'c \<times> 'b backoff_scheme) \<Rightarrow>
     (fetch_err + anilist_show list option) option \<Rightarrow> int \<Rightarrow> 'c \<times> 'b backoff_scheme \<Rightarrow>
     (year_err option \<times> bool \<times> fetch_stage) \<times> ('c \<times> 'b backoff_scheme)" where
  "fetch_body marshal peek store cool others upstream year s =
     (case peek (fst s) of
        None \<Rightarrow> ((Some FetchPanic, False, CacheCheck), s)
      | Some ((cached, Some e), c) \<Rightarrow> ((Some (PeekFailed e), False, CacheCheck), (c, snd s))
      | Some ((cached, None), c) \<Rightarrow>
          if dy_Present cached \<and> dy_Fresh cached \<and> dy_DecodeErr cached = None
          then ((None, False, CacheCheck), (c, snd s))
          else
            (let remaining = fetchCooldownRemaining year cool (snd s) in
             if 0 < remaining then ((Some (CoolingDown remaining), False, Cooldown), (c, snd s))
             else (case others (c, snd s) of
                     (c1, b1) \<Rightarrow> (case fetch_attempt marshal store upstream c1 of
                        ((err, stage), c2) \<Rightarrow> ((err, True, stage), (c2, b1))))))"

text \<open>The deferred function: what waiters are given, and the memory of failures.\<close>

definition fetch_finish ::
    "int \<Rightarrow> instant \<Rightarrow> year_err option \<times> bool \<times> fetch_stage \<Rightarrow> 'b backoff_scheme \<Rightarrow>
     (bool \<times> year_err option) \<times> 'b backoff_scheme" where
  "fetch_finish year now r b =
     (case r of
        (None, attempted, stage) \<Rightarrow> ((attempted, None), clearFetchFailure year b)
      | (Some err, attempted, stage) \<Rightarrow>
          ((False, Some err),
           if attempted \<and> \<not> is_canceled err then recordFetchFailure year now b else b))"

definition fetch_lead where
  "fetch_lead marshal peek store cool others upstream endt year s =
     (case fetch_body marshal peek store cool others upstream year s of
        (r, (c, b)) \<Rightarrow> (case fetch_finish year endt r b of (res, b') \<Rightarrow> (res, (c, b'))))"

definition peek_year ::
    "(string \<Rightarrow> string + anilist_show list) \<Rightarrow> peek_env \<Rightarrow> int \<Rightarrow> cache \<Rightarrow>
     ((decoded_year \<times> db_err option) \<times> cache) option" where
  "peek_year decode p year c =
     PeekDecodedYearContext (pk_db p) (pk_read p) decode (pk_caps p) (pk_clock p) year c"

definition fetchAndStore ::
    "(string \<Rightarrow> string + anilist_show list) \<Rightarrow> (anilist_show list option \<Rightarrow> string + string) \<Rightarrow>
     (cache \<times> 'b backoff_scheme) fetch_env \<Rightarrow> int \<Rightarrow> cache \<times> 'b backoff_scheme \<Rightarrow>
     (bool \<times> year_err option) \<times> (cache \<times> 'b backoff_scheme)" where
  "fetchAndStore decode marshal env year s =
     (case fe_joined env of
        Some (Inl e) \<Rightarrow> ((False, Some (WaitEnded e)), fe_others env s)
      | Some (Inr res) \<Rightarrow> (res, fe_others env s)
      | None \<Rightarrow>
          fetch_lead marshal (peek_year decode (fe_peek env) year)
            (\<lambda>data. SetYearContext (fe_set_db env) (fe_set_clock env) year data)
            (fe_cool env) (fe_others env) (fe_upstream env) (fe_end env) year s)"

definition FetchAndStore where
  "FetchAndStore decode marshal env year s =
     (case fetchAndStore decode marshal env year s of ((_, err), s') \<Rightarrow> (err, s'))"

section \<open>Loops over years\<close>

datatype prewarm_err = PrewarmCtx ctx_err | PrewarmFetch year_err | PrewarmHydrate db_err

record prewarm_counts =
  pc_cached :: nat
  pc_fetched :: nat
  pc_failed :: nat

text \<open>The inputs of one round: the context when it starts, after a failed fetch and before hydration.\<close>

record 's prewarm_env =
  pw_ctx :: "ctx_err option"
  pw_peek :: peek_env
  pw_fetch :: "'s fetch_env"
  pw_ctx_failed :: "ctx_err option"
  pw_ctx_hydrate :: "ctx_err option"
  pw_hydrate :: peek_env

text \<open>What the switch and the hydration of one year leave: a final error, or the error so far.\<close>

definition prewarm_fetch ::
    "(string \<Rightarrow> string + anilist_show list) \<Rightarrow> (anilist_show list option \<Rightarrow> string + string) \<Rightarrow>
     (cache \<times> 'b backoff_scheme) prewarm_env \<Rightarrow> int \<Rightarrow> prewarm_err option \<Rightarrow> prewarm_counts \<Rightarrow>
     cache \<times> 'b backoff_scheme \<Rightarrow>
     ((ctx_err + prewarm_err option) \<times> prewarm_counts \<times> (cache \<times> 'b backoff_scheme)) option" where
  "prewarm_fetch decode marshal env year err n s =
     (case fetchAndStore decode marshal (pw_fetch env) year s of
        ((_, Some fetchErr), s1) \<Rightarrow>
          (let n1 = n\<lparr>pc_failed := Suc (pc_failed n)\<rparr> in
           case pw_ctx_failed env of
             Some e \<Rightarrow> Some (Inl e, n1, s1)
           | None \<Rightarrow> Some (Inr (if err = None then Some (PrewarmFetch fetchErr) else err), n1, s1))
      | ((didFetch, None), s1) \<Rightarrow>
          (let n1 = (if didFetch then n\<lparr>pc_fetched := Suc (pc_fetched n)\<rparr>
                     else n\<lparr>pc_cached := Suc (pc_cached n)\<rparr>) in
           if pw_ctx_hydrate env \<noteq> None then Some (Inr err, n1, s1)
           else (case peek_year decode (pw_hydrate env) year (fst s1) of
                   None \<Rightarrow> None
                 | Some ((_, hydrateErr), c) \<Rightarrow>
                     Some (Inr (case hydrateErr of
                                  Some e \<Rightarrow> if err = None then Some (PrewarmHydrate e) else err
                                | None \<Rightarrow> err), n1, (c, snd s1)))))"

fun prewarm_loop ::
    "(string \<Rightarrow> string + anilist_show list) \<Rightarrow> (anilist_show list option \<Rightarrow> string + string) \<Rightarrow>
     (nat \<Rightarrow> (cache \<times> 'b backoff_scheme) prewarm_env) \<Rightarrow> nat \<Rightarrow> int list \<Rightarrow> prewarm_err option \<Rightarrow>
     prewarm_counts \<Rightarrow> cache \<times> 'b backoff_scheme \<Rightarrow>
     (prewarm_err option \<times> prewarm_counts \<times> (cache \<times> 'b backoff_scheme)) option" where
  "prewarm_loop decode marshal envs i [] err n s = Some (err, n, s)"
| "prewarm_loop decode marshal envs i (year # years) err n s =
     (case pw_ctx (envs i) of
        Some e \<Rightarrow> Some (Some (PrewarmCtx e), n, s)
      | None \<Rightarrow>
          (case peek_year decode (pw_peek (envs i)) year (fst s) of
             None \<Rightarrow> None
           | Some ((data, cacheErr), c) \<Rightarrow>
               if cacheErr = None \<and> dy_Present data \<and> dy_Fresh data \<and> dy_DecodeErr data = None
               then prewarm_loop decode marshal envs (Suc i) years err
                      (n\<lparr>pc_cached := Suc (pc_cached n)\<rparr>) (c, snd s)
               else (case prewarm_fetch decode marshal (envs i) year err n (c, snd s) of
                       None \<Rightarrow> None
                     | Some (Inl e, n1, s1) \<Rightarrow> Some (Some (PrewarmCtx e), n1, s1)
                     | Some (Inr err1, n1, s1) \<Rightarrow>
                         prewarm_loop decode marshal envs (Suc i) years err1 n1 s1)))"

definition Prewarm where
  "Prewarm decode marshal envs years s =
     prewarm_loop decode marshal envs 0 years None \<lparr>pc_cached = 0, pc_fetched = 0, pc_failed = 0\<rparr> s"

text \<open>\<open>refreshStaleYears\<close>: \<open>ctxs\<close> is the context before each fetch; fetch errors are only logged.\<close>

fun refresh_loop where
  "refresh_loop decode marshal envs ctxs i [] s = s"
| "refresh_loop decode marshal envs ctxs i (year # years) s =
     (if ctxs i \<noteq> (None :: ctx_err option) then s
      else (case FetchAndStore decode marshal (envs i) year s of
              (_, s1) \<Rightarrow> refresh_loop decode marshal envs ctxs (Suc i) years s1))"

definition refreshStaleYears ::
    "(string \<Rightarrow> string + anilist_show list) \<Rightarrow> (anilist_show list option \<Rightarrow> string + string) \<Rightarrow> db_env \<Rightarrow>
     clock \<Rightarrow> clock \<Rightarrow> (nat \<Rightarrow> (cache \<times> 'b backoff_scheme) fetch_env) \<Rightarrow> (nat \<Rightarrow> ctx_err option) \<Rightarrow>
     cache \<times> 'b backoff_scheme \<Rightarrow> cache \<times> 'b backoff_scheme" where
  "refreshStaleYears decode marshal env started now envs ctxs s =
     (case NeedsRefreshYearsContext env now (ck_year started) 1 7 (fst s) of
        Inl e \<Rightarrow> s
      | Inr years \<Rightarrow> refresh_loop decode marshal envs ctxs 0 years s)"

section \<open>The interface to the cache\<close>

lemma cooldown_cleared [simp]: "fetchCooldownRemaining y t (clearFetchFailure y b) = 0"
  by (simp add: fetchCooldownRemaining_def)

text \<open>
  What the scheduler relies on: neither operation panics or breaks the cache, a peek that reports a
  year without an error saw a row whose bytes decode, and a store without an error sets the row
  and no other.
\<close>

locale year_store =
  fixes ok :: "'c \<Rightarrow> bool"
    and rows :: "'c \<Rightarrow> int \<Rightarrow> string option"
    and decode :: "string \<Rightarrow> string + anilist_show list"
    and look :: "'p \<Rightarrow> int \<Rightarrow> 'c \<Rightarrow> ((decoded_year \<times> db_err option) \<times> 'c) option"
    and seen :: "'p \<Rightarrow> 'c \<Rightarrow> 'c"
    and harmless :: "'p \<Rightarrow> bool"
    and store :: "'q \<Rightarrow> int \<Rightarrow> string \<Rightarrow> 'c \<Rightarrow> (db_err option \<times> 'c) option"
  assumes look_ok: "ok c \<Longrightarrow> harmless p \<Longrightarrow> \<exists>res err c'. look p y c = Some ((res, err), c') \<and> ok c'
      \<and> (err = None \<and> dy_Present res \<and> dy_DecodeErr res = None \<longrightarrow>
          (\<exists>raw. rows (seen p c) y = Some raw \<and> decode raw = Inr (dy_Shows res)))"
    and store_ok: "ok c \<Longrightarrow> \<exists>err c'. store q y data c = Some (err, c') \<and> ok c'
      \<and> rows c' = (if err = None then (rows c)(y := Some data) else rows c)"
begin

lemma attempt_outcome:
  assumes "ok c"
  shows "\<exists>err stage c'. fetch_attempt marshal (store q y) up c = ((err, stage), c') \<and> ok c'
    \<and> (case err of
         None \<Rightarrow> (\<exists>res data. up = Some (Inr res)
           \<and> marshal (Some (case res of None \<Rightarrow> [] | Some l \<Rightarrow> l)) = Inr data
           \<and> rows c' = (rows c)(y := Some data))
       | Some e \<Rightarrow> rows c' = rows c \<and> (e = FetchPanic \<longrightarrow> up = None)
           \<and> (\<forall>x. e \<noteq> WaitEnded x) \<and> (\<forall>x. e \<noteq> PeekFailed x) \<and> (\<forall>r. e \<noteq> CoolingDown r))"
proof -
  consider (panic) "up = None" | (failed) e where "up = Some (Inl e)" | (got) res where "up = Some (Inr res)"
    by (cases up) (auto, metis sum.exhaust)
  then show ?thesis
  proof cases
    case got
    let ?m = "marshal (Some (case res of None \<Rightarrow> [] | Some l \<Rightarrow> l))"
    show ?thesis
    proof (cases ?m)
      case (Inl e)
      with got assms show ?thesis by (simp add: fetch_attempt_def)
    next
      case (Inr data)
      obtain err c' where st: "store q y data c = Some (err, c')" "ok c'"
        "rows c' = (if err = None then (rows c)(y := Some data) else rows c)"
        using store_ok [OF assms] by blast
      show ?thesis
        by (cases err) (simp_all add: fetch_attempt_def got Inr st)
    qed
  qed (use assms in \<open>simp_all add: fetch_attempt_def\<close>)
qed

text \<open>One fetch from the check of the cache to the memory of failures.\<close>

lemma lead_outcome:
  fixes up p y
  assumes "ok c" "harmless p" "backoff_ok b" "\<forall>c b. ok c \<and> backoff_ok b \<longrightarrow> ok (fst (others (c, b))) \<and> backoff_ok (snd (others (c, b)))"
  shows "\<exists>fetched err c' b'.
      fetch_lead marshal (look p y) (store q y) cool others up endt y (c, b) = ((fetched, err), (c', b'))
    \<and> ok c' \<and> backoff_ok b'
    \<and> (case err of
         None \<Rightarrow> fetchCooldownRemaining y t b' = 0
           \<and> (if fetched
              then (\<exists>res data. up = Some (Inr res)
                \<and> marshal (Some (case res of None \<Rightarrow> [] | Some l \<Rightarrow> l)) = Inr data \<and> rows c' y = Some data)
              else (\<exists>raw shs. rows (seen p c) y = Some raw \<and> decode raw = Inr shs))
       | Some (PeekFailed _) \<Rightarrow> \<not> fetched \<and> b' = b
       | Some (CoolingDown r) \<Rightarrow> \<not> fetched \<and> b' = b \<and> r = fetchCooldownRemaining y cool b \<and> 0 < r
       | Some e \<Rightarrow> \<not> fetched \<and> fetchCooldownRemaining y cool b = 0 \<and> (e = FetchPanic \<longrightarrow> up = None)
           \<and> (\<exists>c1. b' = (if is_canceled e then snd (others (c1, b))
                         else recordFetchFailure y endt (snd (others (c1, b))))))"
proof -
  obtain res e c1 where look: "look p y c = Some ((res, e), c1)" "ok c1"
    and fresh: "e = None \<and> dy_Present res \<and> dy_DecodeErr res = None \<Longrightarrow>
      \<exists>raw shs. rows (seen p c) y = Some raw \<and> decode raw = Inr shs"
    using look_ok [OF assms(1,2), of y] by blast
  consider (failed) x where "e = Some x"
    | (skip) "e = None" "dy_Present res \<and> dy_Fresh res \<and> dy_DecodeErr res = None"
    | (cool) "e = None" "\<not> (dy_Present res \<and> dy_Fresh res \<and> dy_DecodeErr res = None)"
        "0 < fetchCooldownRemaining y cool b"
    | (go) "e = None" "\<not> (dy_Present res \<and> dy_Fresh res \<and> dy_DecodeErr res = None)"
        "\<not> 0 < fetchCooldownRemaining y cool b"
    by (metis not_None_eq)
  then show ?thesis
  proof cases
    case failed
    have "fetch_lead marshal (look p y) (store q y) cool others up endt y (c, b)
        = ((False, Some (PeekFailed x)), (c1, b))"
      using look failed by (simp add: fetch_lead_def fetch_body_def fetch_finish_def)
    with look(2) assms(3) show ?thesis by (intro exI [of _ False]) simp
  next
    case skip
    then obtain raw shs where "rows (seen p c) y = Some raw" "decode raw = Inr shs"
      using fresh by blast
    moreover have "fetch_lead marshal (look p y) (store q y) cool others up endt y (c, b)
        = ((False, None), (c1, clearFetchFailure y b))"
      using look skip by (simp add: fetch_lead_def fetch_body_def fetch_finish_def)
    ultimately show ?thesis using look(2) assms(3) by (intro exI [of _ False]) (simp add: clear_ok)
  next
    case cool
    have "fetch_lead marshal (look p y) (store q y) cool others up endt y (c, b)
        = ((False, Some (CoolingDown (fetchCooldownRemaining y cool b))), (c1, b))"
      using look cool by (simp add: fetch_lead_def fetch_body_def fetch_finish_def Let_def)
    with look(2) assms(3) cool(3) show ?thesis by (intro exI [of _ False]) simp
  next
    case go
    obtain c2 b2 where oth: "others (c1, b) = (c2, b2)" by fastforce
    then have ok2: "ok c2" "backoff_ok b2" using assms(3,4) look(2) by force+
    obtain err stage c3 where run: "fetch_attempt marshal (store q y) up c2 = ((err, stage), c3)" "ok c3"
      and out: "case err of
         None \<Rightarrow> (\<exists>res data. up = Some (Inr res)
           \<and> marshal (Some (case res of None \<Rightarrow> [] | Some l \<Rightarrow> l)) = Inr data
           \<and> rows c3 = (rows c2)(y := Some data))
       | Some e \<Rightarrow> rows c3 = rows c2 \<and> (e = FetchPanic \<longrightarrow> up = None)
           \<and> (\<forall>x. e \<noteq> WaitEnded x) \<and> (\<forall>x. e \<noteq> PeekFailed x) \<and> (\<forall>r. e \<noteq> CoolingDown r)"
      using attempt_outcome [OF ok2(1), of marshal q y up] by blast
    have nn: "fetchCooldownRemaining y cool b = 0"
      using go(3) by (auto simp: fetchCooldownRemaining_def Let_def split: option.splits if_splits)
    have body: "fetch_body marshal (look p y) (store q y) cool others up y (c, b) = ((err, True, stage), (c3, b2))"
      using look go oth run(1) by (simp add: fetch_body_def)
    show ?thesis
    proof (cases err)
      case None
      then have lead: "fetch_lead marshal (look p y) (store q y) cool others up endt y (c, b) =
          ((True, None), (c3, clearFetchFailure y b2))"
        using body by (simp add: fetch_lead_def fetch_finish_def)
      have "\<exists>res data. up = Some (Inr res)
           \<and> marshal (Some (case res of None \<Rightarrow> [] | Some l \<Rightarrow> l)) = Inr data \<and> rows c3 y = Some data"
        using out None by auto
      then show ?thesis
        unfolding lead using run(2) ok2(2) by (intro exI [of _ True]) (simp add: clear_ok)
    next
      case (Some x)
      then have lead: "fetch_lead marshal (look p y) (store q y) cool others up endt y (c, b) =
          ((False, Some x), (c3, if is_canceled x then b2 else recordFetchFailure y endt b2))"
        using body by (simp add: fetch_lead_def fetch_finish_def)
      have b2: "b2 = snd (others (c1, b))" using oth by simp
      show ?thesis
        unfolding lead using run(2) ok2(2) out nn Some
        by (cases x) (auto simp: record_ok b2)
    qed
  qed
qed

end

text \<open>The operations of \<open>Year_Cache\<close> keep the contract, whatever other goroutines do during the peek.\<close>

definition row_bytes :: "cache \<Rightarrow> int \<Rightarrow> string option" where
  "row_bytes c y = map_option yr_data (mget (year_cache c) y)"

definition peek_harmless :: "(string \<Rightarrow> string + anilist_show list) \<Rightarrow> peek_env \<Rightarrow> bool" where
  "peek_harmless decode p \<longleftrightarrow>
     keeps_ok (decoder_of decode) (others_before (pk_read p)) \<and> keeps_ok (decoder_of decode) (others_read (pk_read p))
     \<and> keeps_ok (decoder_of decode) (others_waiting (pk_read p))
     \<and> keeps_ok (decoder_of decode) (others_decoding (pk_read p))"

definition set_year :: "db_env \<times> clock \<Rightarrow> int \<Rightarrow> string \<Rightarrow> cache \<Rightarrow> (db_err option \<times> cache) option" where
  "set_year q year data c = SetYearContext (fst q) (snd q) year data c"

interpretation ys: year_store "cache_ok (decoder_of decode)" row_bytes decode "peek_year decode"
    "\<lambda>p. others_before (pk_read p)" "peek_harmless decode" set_year
proof (unfold_locales, goal_cases)
  case (1 c p y)
  let ?row = "mget (year_cache (others_before (pk_read p) c)) y"
  from 1 obtain res err c' where run: "peek_year decode p y c = Some ((res, err), c')"
    "cache_ok (decoder_of decode) c'"
    and res: "err = None \<Longrightarrow> (case ?row of None \<Rightarrow> res = zero_decoded_year
         | Some row \<Rightarrow> res = read_result decode
             (zero_decoded_year\<lparr>dy_Fresh := yearFreshAt (others_before (pk_read p) c) y (fetched_at row) (pk_clock p),
                dy_Present := True\<rparr>) (yr_data row))"
    using decoded_read_result [of decode c "pk_read p" "pk_db p" "pk_caps p" "pk_clock p" y False]
    unfolding peek_year_def PeekDecodedYearContext_def peek_harmless_def by blast
  have "\<exists>raw. row_bytes (others_before (pk_read p) c) y = Some raw \<and> decode raw = Inr (dy_Shows res)"
    if "err = None" "dy_Present res" "dy_DecodeErr res = None"
  proof (cases ?row)
    case None
    with res [OF that(1)] that(2) show ?thesis by (simp add: zero_decoded_year_def)
  next
    case (Some row)
    with res [OF that(1)] that(3) show ?thesis
      by (cases "decode (yr_data row)") (simp_all add: row_bytes_def read_result_def)
  qed
  then show ?case using run by (intro exI [of _ res] exI [of _ err] exI [of _ c'] conjI impI) (auto simp only:)
next
  case (2 c q y data)
  show ?case
  proof (cases "env_error (fst q)")
    case (Some e)
    with 2 show ?thesis by (simp add: set_year_def SetYearContext_def execResultWithRetry_eq)
  next
    case None
    obtain d where d: "invalidate y False False (decoded c) = Some d" "dc_ok (decoder_of decode) d"
      using invalidate_ok [OF cache_okD(1) [OF 2]] .
    let ?c = "c\<lparr>year_cache := upsert_year y data (unix_now (snd q)) (year_cache c), decoded := d\<rparr>"
    have "set_year q y data c = Some (None, ?c)"
      using None d(1) by (simp add: set_year_def SetYearContext_def execResultWithRetry_eq)
    moreover have "cache_ok (decoder_of decode) ?c"
      using 2 d(2) by (simp add: cache_ok_def mwf_upsert)
    moreover have "row_bytes ?c = (row_bytes c)(y := Some data)"
      by (rule ext) (simp add: row_bytes_def mget_upsert)
    ultimately show ?thesis by simp
  qed
qed

section \<open>Properties\<close>

text \<open>What other goroutines may do to the cache and the failures during a fetch.\<close>

definition others_harmless ::
    "(string \<Rightarrow> string + anilist_show list) \<Rightarrow> (cache \<times> 'b backoff_scheme \<Rightarrow> cache \<times> 'b backoff_scheme) \<Rightarrow> bool" where
  "others_harmless decode f \<longleftrightarrow>
     (\<forall>c b. cache_ok (decoder_of decode) c \<and> backoff_ok b \<longrightarrow>
        cache_ok (decoder_of decode) (fst (f (c, b))) \<and> backoff_ok (snd (f (c, b))))"

text \<open>A fetch keeps the state well formed, also when it joins a running one.\<close>

lemma fetchAndStore_ok:
  assumes "cache_ok (decoder_of decode) c" "backoff_ok b"
    and "peek_harmless decode (fe_peek env)" "others_harmless decode (fe_others env)"
    and "fetchAndStore decode marshal env year (c, b) = (r, (c', b'))"
  shows "cache_ok (decoder_of decode) c' \<and> backoff_ok b'"
proof (cases "fe_joined env")
  case (Some j)
  have "fe_others env (c, b) = (c', b')"
    using assms(5) Some by (cases j) (simp_all add: fetchAndStore_def)
  with assms(1,2,4) show ?thesis unfolding others_harmless_def by (metis fst_conv snd_conv)
next
  case None
  have run: "fetchAndStore decode marshal env year (c, b) =
      fetch_lead marshal (peek_year decode (fe_peek env) year)
        (set_year (fe_set_db env, fe_set_clock env) year) (fe_cool env) (fe_others env) (fe_upstream env)
        (fe_end env) year (c, b)"
    using None by (simp add: fetchAndStore_def set_year_def [abs_def])
  obtain fetched err c1 b1 where "fetchAndStore decode marshal env year (c, b) = ((fetched, err), (c1, b1))"
    "cache_ok (decoder_of decode) c1" "backoff_ok b1"
    using ys.lead_outcome [OF assms(1,3,2) assms(4) [unfolded others_harmless_def]] unfolding run by blast
  with assms(5) show ?thesis by simp
qed

lemma FetchAndStore_ok:
  assumes "cache_ok (decoder_of decode) c" "backoff_ok b"
    and "peek_harmless decode (fe_peek env)" "others_harmless decode (fe_others env)"
    and "FetchAndStore decode marshal env year (c, b) = (err, (c', b'))"
  shows "cache_ok (decoder_of decode) c' \<and> backoff_ok b'"
  using assms(5) fetchAndStore_ok [OF assms(1-4)] by (auto simp: FetchAndStore_def split: prod.splits)

lemma fetchAndStore_result:
  fixes decode env
  defines "dec \<equiv> decoder_of decode"
  assumes "fe_joined env = None" "cache_ok dec c" "backoff_ok b"
    and "peek_harmless decode (fe_peek env)" "others_harmless decode (fe_others env)"
  shows "\<exists>fetched err c' b'. fetchAndStore decode marshal env year (c, b) = ((fetched, err), (c', b'))
    \<and> cache_ok dec c' \<and> backoff_ok b'
    \<and> (case err of
         None \<Rightarrow> fetchCooldownRemaining year t b' = 0
           \<and> (if fetched
              then (\<exists>res data. fe_upstream env = Some (Inr res)
                \<and> marshal (Some (case res of None \<Rightarrow> [] | Some l \<Rightarrow> l)) = Inr data
                \<and> row_bytes c' year = Some data)
              else (\<exists>raw shs. row_bytes (others_before (pk_read (fe_peek env)) c) year = Some raw
                \<and> decode raw = Inr shs))
       | Some (PeekFailed _) \<Rightarrow> \<not> fetched \<and> b' = b
       | Some (CoolingDown r) \<Rightarrow> \<not> fetched \<and> b' = b \<and> r = fetchCooldownRemaining year (fe_cool env) b \<and> 0 < r
       | Some e \<Rightarrow> \<not> fetched \<and> fetchCooldownRemaining year (fe_cool env) b = 0
           \<and> (e = FetchPanic \<longrightarrow> fe_upstream env = None)
           \<and> (\<exists>c1. b' = (if is_canceled e then snd (fe_others env (c1, b))
                         else recordFetchFailure year (fe_end env) (snd (fe_others env (c1, b))))))"
proof -
  have run: "fetchAndStore decode marshal env year (c, b) =
      fetch_lead marshal (peek_year decode (fe_peek env) year)
        (set_year (fe_set_db env, fe_set_clock env) year) (fe_cool env) (fe_others env) (fe_upstream env)
        (fe_end env) year (c, b)"
    using assms(2) by (simp add: fetchAndStore_def set_year_def [abs_def])
  show ?thesis
    unfolding run dec_def
    by (rule ys.lead_outcome [OF assms(3) [unfolded dec_def] assms(5,4) assms(6) [unfolded others_harmless_def]])
qed

text \<open>
  Claim C15. A fetch that leads ends in one of these ways, keeps the cache and the memory of failures
  well formed, and reports \<open>fetched\<close> exactly when it stored an upstream result. Without an error either
  the year's row holds the marshalled upstream shows, or the check saw a row that decodes; then no
  cooldown is left. A failed check and a cooldown (the exact time left, and no request is sent)
  leave the failures alone. A failed attempt ran outside the cooldown and is recorded exactly when it
  was not cancelled. A panic is reported only when the upstream client panicked.
\<close>

theorem fetchAndStore_outcome:
  fixes decode env
  defines "dec \<equiv> decoder_of decode"
  assumes "fe_joined env = None" "cache_ok dec c" "backoff_ok b"
    and "peek_harmless decode (fe_peek env)" "others_harmless decode (fe_others env)"
  shows "\<exists>fetched err c' b'. fetchAndStore decode marshal env year (c, b) = ((fetched, err), (c', b'))
    \<and> cache_ok dec c' \<and> backoff_ok b'
    \<and> (case err of
         None \<Rightarrow> fetchCooldownRemaining year t b' = 0
           \<and> (if fetched
              then (\<exists>res data. fe_upstream env = Some (Inr res)
                \<and> marshal (Some (case res of None \<Rightarrow> [] | Some l \<Rightarrow> l)) = Inr data
                \<and> row_bytes c' year = Some data)
              else (\<exists>raw shs. row_bytes (others_before (pk_read (fe_peek env)) c) year = Some raw
                \<and> decode raw = Inr shs))
       | Some (PeekFailed _) \<Rightarrow> \<not> fetched \<and> b' = b
       | Some (CoolingDown r) \<Rightarrow> \<not> fetched \<and> b' = b \<and> r = fetchCooldownRemaining year (fe_cool env) b \<and> 0 < r
       | Some e \<Rightarrow> \<not> fetched \<and> fetchCooldownRemaining year (fe_cool env) b = 0
           \<and> (e = FetchPanic \<longrightarrow> fe_upstream env = None)
           \<and> (\<exists>c1. b' = (if is_canceled e then snd (fe_others env (c1, b))
                         else recordFetchFailure year (fe_end env) (snd (fe_others env (c1, b))))))"
  unfolding dec_def by (rule fetchAndStore_result [OF assms(2) assms(3,4,5,6) [unfolded dec_def]])

lemma fetchAndStore_outcome_witness:
  fixes denv renv peek env
  defines "denv \<equiv> \<lparr>fails = \<lambda>_. None, waits = \<lambda>_. None\<rparr>"
  defines "renv \<equiv> \<lparr>ctx_start = None, ctx_absent = None, ctx_waiting = None, ctx_gate = None, ctx_decoded = None,
    ctx_end = None, others_before = \<lambda>c. c, others_read = \<lambda>c. c, others_waiting = \<lambda>c. c, others_decoding = \<lambda>c. c\<rparr>"
  defines "peek \<equiv> \<lparr>pk_db = denv, pk_read = renv, pk_caps = \<lparr>raw_cap = 2, shows_cap = 0, tag_edge_caps = []\<rparr>,
    pk_clock = \<lparr>ck_now = of_unix 100, ck_year = 2024\<rparr>\<rparr>"
  defines "env \<equiv> \<lparr>fe_joined = None, fe_peek = peek, fe_cool = of_unix 100, fe_others = \<lambda>s. s,
    fe_upstream = Some (Inr None), fe_set_db = denv, fe_set_clock = \<lparr>ck_now = of_unix 101, ck_year = 2024\<rparr>,
    fe_end = of_unix 102\<rparr>"
  shows "\<exists>c' b'. fetchAndStore (DecodeYearData (\<lambda>_. Inr [])) (\<lambda>l. if l = None then Inr ''null'' else Inr ''[]'')
      env 2024 (openCacheDB [] [], new_backoff) = ((True, None), (c', b'))
    \<and> row_bytes c' 2024 = Some ''[]'' \<and> fetchCooldownRemaining 2024 (of_unix 103) b' = 0"
proof -
  let ?dec = "DecodeYearData (\<lambda>_. Inr [])"
  let ?m = "\<lambda>l. if l = None then Inr ''null'' else Inr ''[]'' :: string + string"
  let ?c = "openCacheDB [] []"
  have ok: "fe_joined env = None" "cache_ok (decoder_of ?dec) ?c" "backoff_ok new_backoff"
    "peek_harmless ?dec (fe_peek env)" "others_harmless ?dec (fe_others env)"
    by (simp_all add: env_def peek_def renv_def peek_harmless_def keeps_ok_def others_harmless_def
        new_backoff_ok openCacheDB_ok mwf_def)
  have db: "env_error denv = None" by (simp add: env_error_def env_error_from.simps denv_def)
  have "peek_year ?dec peek 2024 ?c = Some ((zero_decoded_year, None), ?c)"
    using db by (simp add: peek_year_def PeekDecodedYearContext_def readDecodedYearContext_def readYearContext_def
        queryRowWithRetry_eq peek_def renv_def lookup_def openCacheDB_def newDecodedYearCache_def Let_def
        zero_decoded_year_def)
  moreover obtain d where "invalidate 2024 False False (decoded ?c) = Some d"
    using invalidate_ok [OF cache_okD(1) [OF ok(2)]] .
  ultimately obtain c' b' where run: "fetchAndStore ?dec ?m env 2024 (?c, new_backoff) = ((True, None), (c', b'))"
    using db by (simp add: fetchAndStore_def fetch_lead_def fetch_body_def fetch_finish_def fetch_attempt_def
        env_def zero_decoded_year_def fetchCooldownRemaining_def new_backoff_def SetYearContext_def
        execResultWithRetry_eq)
  from fetchAndStore_outcome [OF ok, of ?m 2024 "of_unix 103"] run show ?thesis
    by (auto simp: env_def split: if_splits)
qed

definition counted :: "prewarm_counts \<Rightarrow> nat" where
  "counted n = pc_cached n + pc_fetched n + pc_failed n"

lemma prewarm_fetch_accounts:
  assumes "prewarm_fetch decode marshal env year err n s = Some (r, n', s')" "pc_failed n = 0 \<or> err \<noteq> None"
  shows "counted n' = Suc (counted n) \<and> (\<forall>err'. r = Inr err' \<longrightarrow> pc_failed n' = 0 \<or> err' \<noteq> None)
    \<and> (\<forall>err' e. r = Inr err' \<and> err \<noteq> Some (PrewarmCtx e) \<longrightarrow> err' \<noteq> Some (PrewarmCtx e))"
  using assms
  by (auto simp: prewarm_fetch_def counted_def Let_def split: prod.splits option.splits if_splits)

lemma prewarm_loop_accounts:
  assumes "prewarm_loop decode marshal envs i years err n s = Some (err', n', s')"
    "pc_failed n = 0 \<or> err \<noteq> None" "\<forall>e. err \<noteq> Some (PrewarmCtx e)"
  shows "counted n' \<le> counted n + length years
    \<and> ((\<forall>e. err' \<noteq> Some (PrewarmCtx e)) \<longrightarrow> counted n' = counted n + length years)
    \<and> (err' = None \<longrightarrow> pc_failed n' = 0)"
  using assms
proof (induction years arbitrary: i err n s)
  case Nil
  then show ?case by auto
next
  case (Cons year years)
  show ?case
  proof (cases "pw_ctx (envs i)")
    case (Some e)
    with Cons.prems show ?thesis by auto
  next
    case None
    obtain data cerr c where peek: "peek_year decode (pw_peek (envs i)) year (fst s) = Some ((data, cerr), c)"
      using Cons.prems(1) None by (auto split: option.splits)
    show ?thesis
    proof (cases "cerr = None \<and> dy_Present data \<and> dy_Fresh data \<and> dy_DecodeErr data = None")
      case True
      let ?n = "n\<lparr>pc_cached := Suc (pc_cached n)\<rparr>"
      have "prewarm_loop decode marshal envs (Suc i) years err ?n (c, snd s) = Some (err', n', s')"
        using Cons.prems(1) None peek True by simp
      from Cons.IH [OF this] Cons.prems(2,3) show ?thesis by (simp add: counted_def)
    next
      case False
      have run: "(case prewarm_fetch decode marshal (envs i) year err n (c, snd s) of
                       None \<Rightarrow> None
                     | Some (Inl e, n1, s1) \<Rightarrow> Some (Some (PrewarmCtx e), n1, s1)
                     | Some (Inr err1, n1, s1) \<Rightarrow>
                         prewarm_loop decode marshal envs (Suc i) years err1 n1 s1) = Some (err', n', s')"
        using Cons.prems(1) unfolding prewarm_loop.simps None option.case peek prod.case if_not_P [OF False] .
      obtain r n1 s1 where pf: "prewarm_fetch decode marshal (envs i) year err n (c, snd s) = Some (r, n1, s1)"
        using run by (auto split: option.splits)
      note acc = prewarm_fetch_accounts [OF pf Cons.prems(2)]
      show ?thesis
      proof (cases r)
        case (Inl e)
        with run pf acc show ?thesis by auto
      next
        case (Inr err1)
        with run pf have rest: "prewarm_loop decode marshal envs (Suc i) years err1 n1 s1 = Some (err', n', s')"
          by simp
        have "pc_failed n1 = 0 \<or> err1 \<noteq> None" "\<forall>e. err1 \<noteq> Some (PrewarmCtx e)"
          using acc Inr Cons.prems(3) by blast+
        from Cons.IH [OF rest this] acc show ?thesis by simp
      qed
    qed
  qed
qed

text \<open>
  Prewarming counts every configured year exactly once, as cached, fetched or failed, unless
  its context ends first: the failure of a year does not keep the others from being tried. It
  reports success only if no year failed.
\<close>

theorem Prewarm_accounts:
  assumes "Prewarm decode marshal envs years s = Some (err, n, s')"
  shows "pc_cached n + pc_fetched n + pc_failed n \<le> length years
    \<and> ((\<nexists>e. err = Some (PrewarmCtx e)) \<longrightarrow> pc_cached n + pc_fetched n + pc_failed n = length years)
    \<and> (err = None \<longrightarrow> pc_failed n = 0)"
  using prewarm_loop_accounts [OF assms [unfolded Prewarm_def]] by (simp add: counted_def)

lemma Prewarm_accounts_witness:
  fixes denv renv peek env
  defines "denv \<equiv> \<lparr>fails = \<lambda>_. Some (DbFault []), waits = \<lambda>_. None\<rparr>"
  defines "renv \<equiv> \<lparr>ctx_start = None, ctx_absent = None, ctx_waiting = None, ctx_gate = None, ctx_decoded = None,
    ctx_end = None, others_before = \<lambda>c. c, others_read = \<lambda>c. c, others_waiting = \<lambda>c. c, others_decoding = \<lambda>c. c\<rparr>"
  defines "peek \<equiv> \<lparr>pk_db = denv, pk_read = renv, pk_caps = \<lparr>raw_cap = 2, shows_cap = 0, tag_edge_caps = []\<rparr>,
    pk_clock = \<lparr>ck_now = of_unix 100, ck_year = 2024\<rparr>\<rparr>"
  defines "env \<equiv> \<lparr>pw_ctx = None, pw_peek = peek, pw_fetch = \<lparr>fe_joined = Some (Inr (False, Some FetchPanic)),
    fe_peek = peek, fe_cool = 0, fe_others = \<lambda>s. s, fe_upstream = None, fe_set_db = denv,
    fe_set_clock = \<lparr>ck_now = 0, ck_year = 1\<rparr>, fe_end = 0\<rparr>, pw_ctx_failed = None, pw_ctx_hydrate = None, pw_hydrate = peek\<rparr>"
  shows "\<exists>n s'. Prewarm (DecodeYearData (\<lambda>_. Inr [])) (\<lambda>_. Inl []) (\<lambda>_. env) [2024, 2025]
      (openCacheDB [] [], new_backoff) = Some (Some (PrewarmFetch FetchPanic), n, s')
    \<and> pc_cached n + pc_fetched n + pc_failed n = 2"
proof -
  have db: "env_error denv = Some (DbFault [])"
    by (simp add: env_error_def env_error_from.simps denv_def isBusy_def)
  have "peek_year (DecodeYearData (\<lambda>_. Inr [])) peek y c = Some ((zero_decoded_year, Some (DbFault [])), c)" for y c
    using db by (simp add: peek_year_def PeekDecodedYearContext_def readDecodedYearContext_def readYearContext_def
        queryRowWithRetry_eq peek_def renv_def)
  then obtain n s' where run: "Prewarm (DecodeYearData (\<lambda>_. Inr [])) (\<lambda>_. Inl []) (\<lambda>_. env) [2024, 2025]
      (openCacheDB [] [], new_backoff) = Some (Some (PrewarmFetch FetchPanic), n, s')"
    by (simp add: Prewarm_def prewarm_fetch_def fetchAndStore_def env_def)
  from Prewarm_accounts [OF this] have "pc_cached n + pc_fetched n + pc_failed n = 2" by simp
  with run show ?thesis by blast
qed

end
