(* ===== verification/Fetch_Inflight.thy ===== *)
theory Fetch_Inflight
  imports Year_Fetch
begin

text \<open>
  Coalescing concurrent fetches of a year (\<open>fetchAndStore\<close> of \<open>internal/scheduler/scheduler.go\<close>): the
  entries of \<open>s.inflight\<close>, the result each entry points to with its \<open>done\<close> channel, and where each
  goroutine is in the function. One step is one atomic operation of the code on the shared map or on a
  channel; between its registration and its publication a leader runs \<open>fetch_lead\<close> of \<open>Year_Fetch\<close>.
\<close>

section \<open>State and steps\<close>

type_synonym outcome = "bool \<times> year_err option"

datatype pc =
    Leading int nat
  | Published int nat outcome
  | Waiting int nat
  | Returned outcome

text \<open>A result is \<^const>\<open>None\<close> until its channel is closed. Goroutines are numbered.\<close>

record flights =
  inflight :: "(int, nat) gomap"
  results :: "outcome option list"
  procs :: "(nat, pc) gomap"

definition no_flights :: flights where
  "no_flights = \<lparr>inflight = [], results = [], procs = []\<rparr>"

text \<open>\<open>s.inflight.LoadOrStore(year, result)\<close> with a fresh result.\<close>

definition load_or_store :: "nat \<Rightarrow> int \<Rightarrow> flights \<Rightarrow> flights" where
  "load_or_store g year s =
     (case mget (inflight s) year of
        Some n \<Rightarrow> s\<lparr>procs := mput g (Waiting year n) (procs s)\<rparr>
      | None \<Rightarrow>
          (let n = length (results s)
           in s\<lparr>inflight := mput year n (inflight s), results := results s @ [None],
                procs := mput g (Leading year n) (procs s)\<rparr>))"

text \<open>
  \<open>result.err, result.fetched = err, fetched; close(result.done)\<close>; closing a closed channel panics
  (\<^const>\<open>None\<close>). Then \<open>s.inflight.Delete(year)\<close>.
\<close>

definition publish :: "nat \<Rightarrow> int \<Rightarrow> nat \<Rightarrow> outcome \<Rightarrow> flights \<Rightarrow> flights option" where
  "publish g year n r s =
     (if results s ! n \<noteq> None then None
      else Some (s\<lparr>results := (results s)[n := Some r], procs := mput g (Published year n r) (procs s)\<rparr>))"

definition unregister :: "nat \<Rightarrow> int \<Rightarrow> outcome \<Rightarrow> flights \<Rightarrow> flights" where
  "unregister g year r s = s\<lparr>inflight := mdel year (inflight s), procs := mput g (Returned r) (procs s)\<rparr>"

text \<open>The \<open>select\<close> of a waiter: the channel is closed, or its context ended.\<close>

definition wake :: "nat \<Rightarrow> outcome \<Rightarrow> flights \<Rightarrow> flights" where
  "wake g r s = s\<lparr>procs := mput g (Returned r) (procs s)\<rparr>"

inductive flight_step :: "flights \<Rightarrow> flights \<Rightarrow> bool" where
  arrive: "mget (procs s) g = None \<Longrightarrow> flight_step s (load_or_store g year s)"
| finish: "mget (procs s) g = Some (Leading year n) \<Longrightarrow> publish g year n r s = Some s' \<Longrightarrow> flight_step s s'"
| leave: "mget (procs s) g = Some (Published year n r) \<Longrightarrow> flight_step s (unregister g year r s)"
| receive: "mget (procs s) g = Some (Waiting year n) \<Longrightarrow> results s ! n = Some r \<Longrightarrow> flight_step s (wake g r s)"
| give_up: "mget (procs s) g = Some (Waiting year n) \<Longrightarrow>
    flight_step s (wake g (False, Some (WaitEnded e)) s)"

inductive_cases flight_stepE: "flight_step s s'"

inductive flights_reach :: "flights \<Rightarrow> bool" where
  none_yet: "flights_reach no_flights"
| one_more: "flights_reach s \<Longrightarrow> flight_step s s' \<Longrightarrow> flights_reach s'"

section \<open>The invariant\<close>

definition leads :: "flights \<Rightarrow> nat \<Rightarrow> int \<Rightarrow> nat \<Rightarrow> bool" where
  "leads s g y n \<longleftrightarrow> mget (procs s) g = Some (Leading y n) \<or> (\<exists>r. mget (procs s) g = Some (Published y n r))"

definition flights_ok :: "flights \<Rightarrow> bool" where
  "flights_ok s \<longleftrightarrow>
     (\<forall>y n. mget (inflight s) y = Some n \<longrightarrow> (\<exists>g. leads s g y n))
     \<and> (\<forall>g y n. leads s g y n \<longrightarrow> mget (inflight s) y = Some n \<and> n < length (results s))
     \<and> (\<forall>g g' y y' n. leads s g y n \<and> leads s g' y' n \<longrightarrow> g = g')
     \<and> (\<forall>g y n. mget (procs s) g = Some (Leading y n) \<longrightarrow> results s ! n = None)
     \<and> (\<forall>g y n r. mget (procs s) g = Some (Published y n r) \<longrightarrow> results s ! n = Some r)
     \<and> (\<forall>g y n. mget (procs s) g = Some (Waiting y n) \<longrightarrow> n < length (results s)
          \<and> (results s ! n = None \<longrightarrow> (\<exists>g'. mget (procs s) g' = Some (Leading y n))))"

lemma flights_okD:
  assumes "flights_ok s"
  shows "mget (inflight s) y = Some n \<Longrightarrow> \<exists>g. leads s g y n"
    "leads s g y n \<Longrightarrow> mget (inflight s) y = Some n"
    "leads s g y n \<Longrightarrow> n < length (results s)"
    "leads s g y n \<Longrightarrow> leads s g' y' n \<Longrightarrow> g = g'"
    "mget (procs s) g = Some (Leading y n) \<Longrightarrow> results s ! n = None"
    "mget (procs s) g = Some (Published y n r) \<Longrightarrow> results s ! n = Some r"
    "mget (procs s) g = Some (Waiting y n) \<Longrightarrow> n < length (results s)"
    "mget (procs s) g = Some (Waiting y n) \<Longrightarrow> results s ! n = None \<Longrightarrow> \<exists>g'. mget (procs s) g' = Some (Leading y n)"
  using assms unfolding flights_ok_def by blast+

text \<open>Two goroutines that lead the same year are the same.\<close>

lemma leads_unique: "flights_ok s \<Longrightarrow> leads s g y n \<Longrightarrow> leads s g' y n' \<Longrightarrow> g = g' \<and> n = n'"
  by (metis flights_okD(2,4) option.inject)

lemma no_flights_ok: "flights_ok no_flights"
  by (simp add: flights_ok_def no_flights_def leads_def)

lemma leads_put:
  "leads (s\<lparr>inflight := i, results := rs, procs := mput g p (procs s)\<rparr>) g' y n \<longleftrightarrow>
    (if g' = g then p = Leading y n \<or> (\<exists>r. p = Published y n r) else leads s g' y n)"
  "leads (s\<lparr>procs := mput g p (procs s)\<rparr>) g' y n \<longleftrightarrow>
    (if g' = g then p = Leading y n \<or> (\<exists>r. p = Published y n r) else leads s g' y n)"
  "leads (s\<lparr>results := rs, procs := mput g p (procs s)\<rparr>) g' y n \<longleftrightarrow>
    (if g' = g then p = Leading y n \<or> (\<exists>r. p = Published y n r) else leads s g' y n)"
  "leads (s\<lparr>inflight := i, procs := mput g p (procs s)\<rparr>) g' y n \<longleftrightarrow>
    (if g' = g then p = Leading y n \<or> (\<exists>r. p = Published y n r) else leads s g' y n)"
  by (auto simp: leads_def)

lemma not_leads: "mget (procs s) g = None \<Longrightarrow> \<not> leads s g y n"
  "mget (procs s) g = Some (Waiting y' n') \<Longrightarrow> \<not> leads s g y n"
  by (simp_all add: leads_def)

lemma flights_okI:
  assumes "\<And>y n. mget (inflight s) y = Some n \<Longrightarrow> \<exists>g. leads s g y n"
    "\<And>g y n. leads s g y n \<Longrightarrow> mget (inflight s) y = Some n \<and> n < length (results s)"
    "\<And>g g' y y' n. leads s g y n \<Longrightarrow> leads s g' y' n \<Longrightarrow> g = g'"
    "\<And>g y n. mget (procs s) g = Some (Leading y n) \<Longrightarrow> results s ! n = None"
    "\<And>g y n r. mget (procs s) g = Some (Published y n r) \<Longrightarrow> results s ! n = Some r"
    "\<And>g y n. mget (procs s) g = Some (Waiting y n) \<Longrightarrow> n < length (results s)
          \<and> (results s ! n = None \<longrightarrow> (\<exists>g'. mget (procs s) g' = Some (Leading y n)))"
  shows "flights_ok s"
  unfolding flights_ok_def using assms by blast

text \<open>A goroutine that neither led nor is waited for may start to wait or return.\<close>

lemma replace_ok:
  assumes "flights_ok s" "\<And>y n. \<not> leads s g y n" "\<And>y n. p \<noteq> Leading y n" "\<And>y n r. p \<noteq> Published y n r"
    and "\<And>y n. p = Waiting y n \<Longrightarrow> n < length (results s)
      \<and> (results s ! n = None \<longrightarrow> (\<exists>g'. mget (procs s) g' = Some (Leading y n)))"
  shows "flights_ok (s\<lparr>procs := mput g p (procs s)\<rparr>)"
proof (rule flights_okI, goal_cases)
  case (1 y n)
  then obtain g1 where g1: "leads s g1 y n" using flights_okD(1) [OF assms(1)] by auto
  with assms(2) have "g1 \<noteq> g" by blast
  with g1 show ?case by (intro exI [of _ g1]) (simp add: leads_put)
next
  case (6 g' y n)
  have "n < length (results s) \<and> (results s ! n = None \<longrightarrow> (\<exists>g'. mget (procs s) g' = Some (Leading y n)))"
    using 6 assms(5) flights_okD(7,8) [OF assms(1)] by (auto split: if_splits)
  moreover have "g1 \<noteq> g" if "mget (procs s) g1 = Some (Leading y n)" for g1
    using that assms(2) by (auto simp: leads_def)
  ultimately show ?case by (auto 4 3)
qed (use assms(2-4) flights_okD [OF assms(1)] in \<open>auto simp: leads_put split: if_splits\<close>)

lemma arrive_ok:
  assumes "flights_ok s" "mget (procs s) g = None"
  shows "flights_ok (load_or_store g year s)"
proof (cases "mget (inflight s) year")
  case (Some n)
  then obtain g1 where g1: "leads s g1 year n" using flights_okD(1) [OF assms(1)] by blast
  have "results s ! n = None \<longrightarrow> mget (procs s) g1 = Some (Leading year n)"
    using g1 flights_okD(6) [OF assms(1)] by (auto simp: leads_def)
  then have "flights_ok (s\<lparr>procs := mput g (Waiting year n) (procs s)\<rparr>)"
    using flights_okD(3) [OF assms(1) g1] not_leads(1) [OF assms(2)] by (intro replace_ok [OF assms(1)]) auto
  with Some show ?thesis by (simp add: load_or_store_def)
next
  case None
  let ?n = "length (results s)"
  note old = flights_okD [OF assms(1)]
  have no: "\<not> leads s g y n" "mget (procs s) g = Some p \<longleftrightarrow> False" for y n p
    using not_leads(1) [OF assms(2)] assms(2) by simp_all
  have bound: "leads s g' y n \<Longrightarrow> n < ?n" "leads s g' y n \<Longrightarrow> y \<noteq> year" for g' y n
    using old(2,3) None by fastforce+
  have pub: "mget (procs s) g' = Some (Leading y n) \<Longrightarrow> n < ?n"
    "mget (procs s) g' = Some (Published y n r) \<Longrightarrow> n < ?n" for g' y n r
    using bound(1) unfolding leads_def by blast+
  have run: "load_or_store g year s = s\<lparr>inflight := mput year ?n (inflight s), results := results s @ [None],
      procs := mput g (Leading year ?n) (procs s)\<rparr>"
    using None by (simp add: load_or_store_def Let_def)
  show ?thesis
    unfolding run
  proof (rule flights_okI, goal_cases)
    case (1 y n)
    show ?case
    proof (cases "y = year")
      case True
      with 1 show ?thesis by (intro exI [of _ g]) (simp add: leads_put)
    next
      case False
      with 1 old(1) obtain g1 where g1: "leads s g1 y n" by auto
      with no(1) have "g1 \<noteq> g" by blast
      with g1 show ?thesis by (intro exI [of _ g1]) (simp add: leads_put)
    qed
  next
    case (2 g' y n)
    then show ?case using bound old(2) by (auto simp: leads_put less_SucI split: if_splits)
  next
    case (3 g1 g2 y y' n)
    then show ?case using bound(1) [of g1 y n] bound(1) [of g2 y' n] old(4) by (auto simp: leads_put split: if_splits)
  next
    case (4 g' y n)
    then show ?case using pub(1) old(5) by (auto simp: nth_append split: if_splits)
  next
    case (5 g' y n r)
    then show ?case using pub(2) old(6) by (auto simp: nth_append split: if_splits)
  next
    case (6 g' y n)
    then have w: "mget (procs s) g' = Some (Waiting y n)" by (auto split: if_splits)
    have "g1 \<noteq> g" if "mget (procs s) g1 = Some (Leading y n)" for g1
      using that assms(2) by auto
    with old(7) [OF w] old(8) [OF w] show ?case by (auto 4 3 simp: nth_append)
  qed
qed

lemma publish_ok:
  assumes "flights_ok s" "mget (procs s) g = Some (Leading year n)" "publish g year n r s = Some s'"
  shows "flights_ok s'"
proof -
  note old = flights_okD [OF assms(1)]
  have led: "leads s g year n" using assms(2) by (simp add: leads_def)
  have s': "s' = s\<lparr>results := (results s)[n := Some r], procs := mput g (Published year n r) (procs s)\<rparr>"
    using assms(3) by (simp add: publish_def split: if_splits)
  have other: "m \<noteq> n" if "leads s g' y m" "g' \<noteq> g" for g' y m
    using that led old(4) by blast
  show ?thesis
    unfolding s'
  proof (rule flights_okI, goal_cases)
    case (1 y m)
    then obtain g1 where "leads s g1 y m" using old(1) by auto
    then show ?case using led leads_unique [OF assms(1)] old(2)
      by (intro exI [of _ g1]) (auto simp: leads_put leads_def assms(2))
  next
    case (2 g' y m)
    then show ?case using old(2,3) led by (auto simp: leads_put split: if_splits)
  next
    case (3 g1 g2 y y' m)
    then show ?case using old(4) led by (auto simp: leads_put split: if_splits)
  next
    case (4 g' y m)
    then have "mget (procs s) g' = Some (Leading y m)" "g' \<noteq> g" by (auto split: if_splits)
    then show ?case using other [of g' y m] old(5) by (simp add: leads_def)
  next
    case (5 g' y m r')
    then show ?case using other [of g' y m] old(6) old(3) [OF led] by (auto simp: leads_def split: if_splits)
  next
    case (6 g' y m)
    then have w: "mget (procs s) g' = Some (Waiting y m)" by (auto split: if_splits)
    show ?case
    proof (cases "m = n")
      case True
      with old(7) [OF w] show ?thesis by simp
    next
      case False
      have "g1 \<noteq> g" if "mget (procs s) g1 = Some (Leading y m)" for g1 using that False assms(2) by auto
      with old(7) [OF w] old(8) [OF w] False show ?thesis by (auto 4 3)
    qed
  qed
qed

lemma unregister_ok:
  assumes "flights_ok s" "mget (procs s) g = Some (Published year n r)"
  shows "flights_ok (unregister g year r s)"
proof -
  note old = flights_okD [OF assms(1)]
  have led: "leads s g year n" using assms(2) by (simp add: leads_def)
  have other: "y \<noteq> year" if "leads s g' y m" "g' \<noteq> g" for g' y m
    using that led leads_unique [OF assms(1)] by blast
  show ?thesis
    unfolding unregister_def
  proof (rule flights_okI, goal_cases)
    case (1 y m)
    then obtain g1 where g1: "leads s g1 y m" "y \<noteq> year" using old(1) by (auto split: if_splits)
    then have "g1 \<noteq> g" using assms(2) by (auto simp: leads_def)
    with g1 show ?case by (intro exI [of _ g1]) (simp add: leads_put)
  next
    case (2 g' y m)
    then show ?case using old(2,3) other by (auto simp: leads_put split: if_splits)
  next
    case (6 g' y m)
    then have w: "mget (procs s) g' = Some (Waiting y m)" by (auto split: if_splits)
    have "g1 \<noteq> g" if "mget (procs s) g1 = Some (Leading y m)" for g1 using that assms(2) by auto
    with old(7) [OF w] old(8) [OF w] show ?case by (auto 4 3)
  qed (use old(4-6) in \<open>auto simp: leads_put split: if_splits\<close>)
qed

lemma wake_ok:
  assumes "flights_ok s" "mget (procs s) g = Some (Waiting year n)"
  shows "flights_ok (wake g r s)"
  unfolding wake_def using not_leads(2) [OF assms(2)] by (intro replace_ok [OF assms(1)]) auto

lemma flight_step_ok: "flight_step s s' \<Longrightarrow> flights_ok s \<Longrightarrow> flights_ok s'"
  by (erule flight_stepE) (auto intro: arrive_ok publish_ok unregister_ok wake_ok)

lemma flights_reach_ok: "flights_reach s \<Longrightarrow> flights_ok s"
  by (induction rule: flights_reach.induct) (auto intro: no_flights_ok flight_step_ok)

section \<open>Properties\<close>

text \<open>
  Claim C9. In every reachable state a year is fetched by at most one goroutine, the one its entry
  registers; that goroutine can publish without closing a closed channel; and no waiter is stranded:
  the result it waits for is published, or the one goroutine fetching its year will publish it.
\<close>

theorem flights_coalesce:
  assumes "flights_reach s"
  shows "(\<forall>g g' y n n'. leads s g y n \<longrightarrow> leads s g' y n' \<longrightarrow> g = g' \<and> n = n' \<and> mget (inflight s) y = Some n)
    \<and> (\<forall>g y n r. mget (procs s) g = Some (Leading y n) \<longrightarrow> publish g y n r s \<noteq> None)
    \<and> (\<forall>g y n. mget (procs s) g = Some (Waiting y n) \<longrightarrow>
        (\<exists>r. flight_step s (wake g r s) \<and> results s ! n = Some r)
        \<or> (\<exists>g'. mget (procs s) g' = Some (Leading y n) \<and> (\<forall>r. \<exists>s'. publish g' y n r s = Some s'
            \<and> results s' ! n = Some r \<and> mget (procs s') g = Some (Waiting y n))))"
proof -
  note ok = flights_reach_ok [OF assms]
  note old = flights_okD [OF ok]
  have pub: "publish g y n r s = Some (s\<lparr>results := (results s)[n := Some r], procs := mput g (Published y n r) (procs s)\<rparr>)"
    if "mget (procs s) g = Some (Leading y n)" for g y n r
    using old(5) [OF that] by (simp add: publish_def)
  have wait: "(\<exists>r. flight_step s (wake g r s) \<and> results s ! n = Some r)
        \<or> (\<exists>g'. mget (procs s) g' = Some (Leading y n) \<and> (\<forall>r. \<exists>s'. publish g' y n r s = Some s'
            \<and> results s' ! n = Some r \<and> mget (procs s') g = Some (Waiting y n)))"
    if w: "mget (procs s) g = Some (Waiting y n)" for g y n
  proof (cases "results s ! n")
    case None
    then obtain g' where "mget (procs s) g' = Some (Leading y n)" using old(8) [OF w] by blast
    then show ?thesis using pub old(7) [OF w] w by (intro disjI2 exI [of _ g']) auto
  next
    case (Some r)
    then show ?thesis using flight_step.receive [OF w Some] by blast
  qed
  show ?thesis
    using leads_unique [OF ok] old(2) pub wait by (intro conjI allI impI) blast+
qed

lemma flights_coalesce_witness:
  fixes s
  defines "s \<equiv> load_or_store 1 2024 (load_or_store 0 2024 no_flights)"
  shows "flights_reach s \<and> mget (procs s) 1 = Some (Waiting 2024 0)
    \<and> (\<exists>s'. publish 0 2024 0 (True, None) s = Some s' \<and> results s' ! 0 = Some (True, None))"
proof -
  have "flight_step no_flights (load_or_store 0 2024 no_flights)"
    by (rule flight_step.arrive) (simp add: no_flights_def)
  moreover have "flight_step (load_or_store 0 2024 no_flights) s"
    unfolding s_def by (rule flight_step.arrive) (simp add: no_flights_def load_or_store_def Let_def)
  ultimately have reach: "flights_reach s" by (blast intro: flights_reach.intros)
  have st: "mget (procs s) 1 = Some (Waiting 2024 0)" "mget (procs s) 0 = Some (Leading 2024 0)" "results s ! 0 = None"
    "\<And>g. mget (procs s) g = Some (Leading 2024 0) \<Longrightarrow> g = 0"
    by (auto simp: s_def no_flights_def load_or_store_def Let_def split: if_splits)
  from flights_coalesce [OF reach]
  have "\<forall>g y n. mget (procs s) g = Some (Waiting y n) \<longrightarrow>
        (\<exists>r. flight_step s (wake g r s) \<and> results s ! n = Some r)
        \<or> (\<exists>g'. mget (procs s) g' = Some (Leading y n) \<and> (\<forall>r. \<exists>s'. publish g' y n r s = Some s'
            \<and> results s' ! n = Some r \<and> mget (procs s') g = Some (Waiting y n)))" by blast
  from this [rule_format, OF st(1)] st(3) obtain g' where
    "mget (procs s) g' = Some (Leading 2024 0)" "\<forall>r. \<exists>s'. publish g' 2024 0 r s = Some s' \<and> results s' ! 0 = Some r"
    by (metis option.distinct(1))
  with st(4) have "\<exists>s'. publish 0 2024 0 (True, None) s = Some s' \<and> results s' ! 0 = Some (True, None)" by blast
  with st(1) reach show ?thesis by blast
qed

end
