(* ===== verification/Background_Tasks.thy ===== *)
theory Background_Tasks
  imports Go_Calendar
begin

text \<open>
  The background goroutines of \<open>internal/scheduler/scheduler.go\<close>: \<open>StartBackground\<close>, \<open>StartBackgroundFetch\<close>,
  \<open>ScheduleYearFetch\<close>, the tracking flag of \<open>Process\<close>, \<open>closeBackgroundFetches\<close> and \<open>Wait\<close>. Each critical
  section of \<open>bgMu\<close>, each atomic flag and each change of the wait group is one step; what a task does
  in between is the business of the other components. \<open>main\<close> calls \<open>StartBackground\<close> once, before it
  waits, and the step relation asks that of its callers.
\<close>

section \<open>State\<close>

datatype bg_task = YearTask int | TrackTask | PlainTask | Worker | Finishing

record background =
  appCtx :: "ctx_err option"
  bgClosed :: bool
  yearTasks :: "(int, unit) gomap"
  tracking :: bool
  wg :: int
  tasks :: "bg_task list"
  waitStarted :: bool
  waitDone :: bool

definition NewBackground :: background where
  "NewBackground = \<lparr>appCtx = None, bgClosed = False, yearTasks = [], tracking = False, wg = 0, tasks = [],
     waitStarted = False, waitDone = False\<rparr>"

section \<open>Operations\<close>

definition StartBackground :: "ctx_err option \<Rightarrow> background \<Rightarrow> background" where
  "StartBackground ctx s =
     s\<lparr>appCtx := ctx, bgClosed := False, wg := wg s + 2, tasks := Worker # Worker # tasks s\<rparr>"

definition StartBackgroundFetch :: "bg_task \<Rightarrow> background \<Rightarrow> background" where
  "StartBackgroundFetch fn s =
     (if bgClosed s then s else s\<lparr>wg := wg s + 1, tasks := fn # tasks s\<rparr>)"

datatype YearFetchSchedule = YearFetchRejected | YearFetchScheduled | YearFetchAlreadyScheduled

definition ScheduleYearFetch :: "int \<Rightarrow> background \<Rightarrow> YearFetchSchedule \<times> background" where
  "ScheduleYearFetch year s =
     (if bgClosed s \<or> appCtx s \<noteq> None then (YearFetchRejected, s)
      else if mget (yearTasks s) year \<noteq> None then (YearFetchAlreadyScheduled, s)
      else (YearFetchScheduled,
            s\<lparr>yearTasks := mput year () (yearTasks s), wg := wg s + 1, tasks := YearTask year # tasks s\<rparr>))"

text \<open>The end of \<open>Process\<close> with that many resolved shows: \<open>s.tracking.CompareAndSwap(false, true)\<close>, then the background call.\<close>

definition launch_tracking :: "nat \<Rightarrow> background \<Rightarrow> background" where
  "launch_tracking resolved s =
     (if 0 < resolved \<and> \<not> tracking s then StartBackgroundFetch TrackTask (s\<lparr>tracking := True\<rparr>) else s)"

text \<open>The deferred calls of a task, in two steps: its own cleanup, then \<open>s.wg.Done()\<close>.\<close>

definition task_cleanup :: "bg_task \<Rightarrow> background \<Rightarrow> background" where
  "task_cleanup t s =
     (let s1 = (case t of
                  YearTask year \<Rightarrow> s\<lparr>yearTasks := mdel year (yearTasks s)\<rparr>
                | TrackTask \<Rightarrow> s\<lparr>tracking := False\<rparr>
                | _ \<Rightarrow> s)
      in s1\<lparr>tasks := Finishing # remove1 t (tasks s)\<rparr>)"

definition wg_done :: "background \<Rightarrow> background" where
  "wg_done s = s\<lparr>wg := wg s - 1, tasks := remove1 Finishing (tasks s)\<rparr>"

definition closeBackgroundFetches :: "background \<Rightarrow> background" where
  "closeBackgroundFetches s = s\<lparr>bgClosed := True\<rparr>"

text \<open>
  \<open>Wait\<close> closes, starts the goroutine that waits for the group once, and returns when that goroutine
  has closed \<open>waitDone\<close> (or the caller's context ends).
\<close>

definition Wait_call :: "background \<Rightarrow> background" where
  "Wait_call s = (closeBackgroundFetches s)\<lparr>waitStarted := True\<rparr>"

definition wait_group_done :: "background \<Rightarrow> background" where
  "wait_group_done s = s\<lparr>waitDone := True\<rparr>"

definition Wait_return :: "ctx_err option \<Rightarrow> background \<Rightarrow> ctx_err option option" where
  "Wait_return ctx s = (if waitDone s then Some None else (case ctx of Some e \<Rightarrow> Some (Some e) | None \<Rightarrow> None))"

inductive bg_step :: "background \<Rightarrow> background \<Rightarrow> bool" where
  start: "\<not> waitStarted s \<Longrightarrow> bg_step s (StartBackground None s)"
| plain: "bg_step s (StartBackgroundFetch PlainTask s)"
| year: "ScheduleYearFetch y s = (v, s') \<Longrightarrow> bg_step s s'"
| track: "bg_step s (launch_tracking resolved s)"
| cleanup: "t \<in> set (tasks s) \<Longrightarrow> t \<noteq> Finishing \<Longrightarrow> bg_step s (task_cleanup t s)"
| finish: "Finishing \<in> set (tasks s) \<Longrightarrow> bg_step s (wg_done s)"
| shutdown: "bg_step s (s\<lparr>appCtx := Some e\<rparr>)"
| wait_call: "bg_step s (Wait_call s)"
| group: "waitStarted s \<Longrightarrow> wg s = 0 \<Longrightarrow> bg_step s (wait_group_done s)"

inductive_cases bg_stepE: "bg_step s s'"

inductive bg_reach :: "background \<Rightarrow> bool" where
  bg_new: "bg_reach NewBackground"
| bg_more: "bg_reach s \<Longrightarrow> bg_step s s' \<Longrightarrow> bg_reach s'"

section \<open>The invariant\<close>

text \<open>
  The wait group counts the tasks; a year is reserved exactly while its task runs, and at most one does;
  at most one task tracks; waiting has begun only after closing, and is over only without tasks.
\<close>

definition bg_ok :: "background \<Rightarrow> bool" where
  "bg_ok s \<longleftrightarrow> wg s = int (length (tasks s))
     \<and> (\<forall>y. count_list (tasks s) (YearTask y) = (if mget (yearTasks s) y = None then 0 else 1))
     \<and> count_list (tasks s) TrackTask \<le> (if tracking s then 1 else 0)
     \<and> (waitStarted s \<longrightarrow> bgClosed s) \<and> (waitDone s \<longrightarrow> waitStarted s \<and> tasks s = [])"

lemma count_remove1:
  "count_list (remove1 x xs) y = (if x = y \<and> x \<in> set xs then count_list xs y - 1 else count_list xs y)"
  by (induction xs) (auto simp: count_list_0_iff)

lemma int_length_remove1: "x \<in> set xs \<Longrightarrow> int (length (remove1 x xs)) = int (length xs) - 1"
  by (induction xs) auto

lemma ScheduleYearFetch_state:
  "snd (ScheduleYearFetch y s) =
    (if \<not> bgClosed s \<and> appCtx s = None \<and> mget (yearTasks s) y = None
     then s\<lparr>yearTasks := mput y () (yearTasks s), wg := wg s + 1, tasks := YearTask y # tasks s\<rparr> else s)"
  by (simp add: ScheduleYearFetch_def)

lemma bg_step_ok: "bg_step s s' \<Longrightarrow> bg_ok s \<Longrightarrow> bg_ok s'"
proof (induction rule: bg_step.induct)
  case (year y s v s')
  have s': "s' = snd (ScheduleYearFetch y s)" using year(1) by simp
  have count: "count_list (tasks s) (YearTask ya) = (if mget (yearTasks s) ya = None then 0 else 1)" for ya
    using year(2) by (simp add: bg_ok_def)
  show ?case
    unfolding s' ScheduleYearFetch_state using year(2) count by (simp add: bg_ok_def) blast
next
  case (cleanup t s)
  have count: "count_list (tasks s) (YearTask ya) = (if mget (yearTasks s) ya = None then 0 else 1)" for ya
    using cleanup(3) by (simp add: bg_ok_def)
  have "\<not> waitDone s" using cleanup(1,3) by (auto simp: bg_ok_def)
  moreover have "count_list (tasks s) TrackTask - 1 = 0" "\<not> tracking s \<longrightarrow> count_list (tasks s) TrackTask = 0"
    using cleanup(3) by (simp_all add: bg_ok_def split: if_splits)
  ultimately show ?case
    using cleanup count
    by (cases t) (simp_all add: bg_ok_def task_cleanup_def count_remove1 int_length_remove1 Let_def)
next
  case (finish s)
  then show ?case
    by (auto simp: bg_ok_def wg_done_def count_remove1 int_length_remove1)
qed (auto simp: bg_ok_def StartBackground_def StartBackgroundFetch_def ScheduleYearFetch_def launch_tracking_def
    Wait_call_def closeBackgroundFetches_def wait_group_done_def split: if_splits)

lemma bg_reach_ok: "bg_reach s \<Longrightarrow> bg_ok s"
proof (induction rule: bg_reach.induct)
  case bg_new
  show ?case by (simp add: bg_ok_def NewBackground_def)
next
  case (bg_more s s')
  then show ?case by (blast intro: bg_step_ok)
qed

lemma bg_done_step:
  assumes "bg_ok s" "waitDone s" "bg_step s s'"
  shows "waitDone s' \<and> tasks s' = []"
  using assms(3,1,2)
  by (cases rule: bg_step.cases)
    (auto simp: bg_ok_def StartBackgroundFetch_def ScheduleYearFetch_def launch_tracking_def
      Wait_call_def closeBackgroundFetches_def wait_group_done_def split: if_splits)

lemma bg_done_for_good:
  assumes "bg_step\<^sup>*\<^sup>* s s'" "bg_reach s" "waitDone s"
  shows "waitDone s' \<and> tasks s' = [] \<and> bg_reach s'"
  using assms
proof (induction rule: rtranclp_induct)
  case base
  then show ?case using bg_reach_ok [of s] by (simp add: bg_ok_def)
next
  case (step s1 s2)
  then show ?case using bg_done_step bg_reach_ok bg_reach.bg_more by blast
qed

section \<open>Properties\<close>

text \<open>
  Claim C18. In every reachable state at most one task runs for a year, and scheduling one says so
  exactly then (unless the scheduler is closed or its context ended); at most one task tracks
  mappings; the wait group counts exactly the tasks that have not finished yet; and once \<open>Wait\<close> can return
  without an error (not because its context ended) no task is running and none is ever started again.
\<close>

theorem background_tasks_bounded:
  assumes "bg_reach s"
  shows "(\<forall>y. count_list (tasks s) (YearTask y) \<le> 1
      \<and> fst (ScheduleYearFetch y s) = (if bgClosed s \<or> appCtx s \<noteq> None then YearFetchRejected
          else if YearTask y \<in> set (tasks s) then YearFetchAlreadyScheduled else YearFetchScheduled))
    \<and> count_list (tasks s) TrackTask \<le> 1 \<and> wg s = int (length (tasks s))
    \<and> (\<forall>s'. Wait_return ctx s = Some None \<and> bg_step\<^sup>*\<^sup>* s s' \<longrightarrow> tasks s' = [] \<and> wg s' = 0)"
proof -
  have ok: "bg_ok s" by (rule bg_reach_ok [OF assms])
  then have count: "count_list (tasks s) (YearTask y) = (if mget (yearTasks s) y = None then 0 else 1)" for y
    by (simp add: bg_ok_def)
  moreover have "mget (yearTasks s) y \<noteq> None \<longleftrightarrow> YearTask y \<in> set (tasks s)" for y
    using count [of y] by (metis count_list_0_iff zero_neq_one)
  moreover have "tasks s' = [] \<and> wg s' = 0" if "Wait_return ctx s = Some None" "bg_step\<^sup>*\<^sup>* s s'" for s'
  proof -
    have "waitDone s" using that(1) by (simp add: Wait_return_def split: if_splits option.splits)
    then have "tasks s' = []" "bg_ok s'" using bg_done_for_good [OF that(2) assms] bg_reach_ok by auto
    then show ?thesis by (simp add: bg_ok_def)
  qed
  ultimately show ?thesis
    using ok by (auto simp: ScheduleYearFetch_def bg_ok_def split: if_splits)
qed

lemma background_tasks_bounded_witness:
  fixes s
  defines "s \<equiv> snd (ScheduleYearFetch 2024 NewBackground)"
  shows "bg_reach s \<and> fst (ScheduleYearFetch 2024 s) = YearFetchAlreadyScheduled
    \<and> fst (ScheduleYearFetch 2025 s) = YearFetchScheduled \<and> wg s = 1"
proof -
  have "bg_step NewBackground s" unfolding s_def by (rule bg_step.year [OF prod.collapse [symmetric]])
  then have reach: "bg_reach s" by (rule bg_reach.bg_more [OF bg_reach.bg_new])
  have st: "tasks s = [YearTask 2024]" "\<not> bgClosed s" "appCtx s = None"
    by (simp_all add: s_def ScheduleYearFetch_def NewBackground_def)
  from background_tasks_bounded [OF reach, of None] st have
    "\<forall>y. fst (ScheduleYearFetch y s) = (if YearTask y \<in> set (tasks s) then YearFetchAlreadyScheduled else YearFetchScheduled)"
    by (auto split: if_splits)
  moreover have "wg s = 1" using background_tasks_bounded [OF reach, of None] st(1) by simp
  ultimately show ?thesis using st(1) reach by simp
qed

end
