(* ===== verification/Show_Process.thy ===== *)
theory Show_Process
  imports Show_Filter Mapping_Resolve Config_Load Year_Cache
begin

text \<open>
  Turning the shows of a year into the response of a list request (\<open>Process\<close>, \<open>resolveBatch\<close>,
  \<open>responseShows\<close> of \<open>internal/scheduler/scheduler.go\<close>) and recording the mappings it resolved
  (\<open>trackNewMappings\<close>). The counts that are only logged are left out; the order of the filters is the
  code's.
\<close>

section \<open>The response\<close>

record response_show =
  TVDBID' :: int
  Title' :: string

text \<open>The loop over the previous year's winter shows; \<open>seen\<close> is the set of ids taken.\<close>

fun overflow_loop ::
    "anilist_show list \<Rightarrow> (int, bool) gomap \<Rightarrow> anilist_show list \<Rightarrow> anilist_show list" where
  "overflow_loop [] seen shows = shows"
| "overflow_loop (sh # prevShows) seen shows =
     (if mget seen (sh_ID sh) \<noteq> Some True \<and> fd_Month (sh_StartDate sh) = Some 12
      then overflow_loop prevShows (mput (sh_ID sh) True seen) (shows @ [sh])
      else overflow_loop prevShows seen shows)"

definition winter_overflow ::
    "string \<Rightarrow> anilist_show list \<Rightarrow> anilist_show list \<Rightarrow> anilist_show list" where
  "winter_overflow season shows prevShows =
     (if season = ''WINTER'' \<and> prevShows \<noteq> [] then
        (let prev = FilterBySeason prevShows ''WINTER'';
             seen = fold (\<lambda>sh. mput (sh_ID sh) True) shows []
         in overflow_loop prev seen shows)
      else shows)"

text \<open>The filters between the overflow and the resolution.\<close>

definition filter_chain ::
    "config \<Rightarrow> civil \<Rightarrow> string \<Rightarrow> string \<Rightarrow> anilist_show list \<Rightarrow> anilist_show list" where
  "filter_chain cfg now season category shows =
     (let s1 = FilterBySeason shows season;
          s2 = FilterByFormats s1 (IncludeTypes cfg);
          s3 = fst (FilterWithStats s2 (ExcludeTags cfg));
          s4 = (if FilterFutureEnabled cfg then fst (FilterFutureWithStats now s3 3) else s3)
      in if category = ''series-new'' then FilterFirstSeason s4 else s4)"

definition resolveBatch :: "resolver \<Rightarrow> anilist_show list \<Rightarrow> (int, resolved_show) gomap" where
  "resolveBatch r shows = (case r of None \<Rightarrow> [] | Some m \<Rightarrow> ResolveBatch (Some m) shows)"

fun responseShows :: "anilist_show list \<Rightarrow> (int, resolved_show) gomap \<Rightarrow> response_show list" where
  "responseShows [] resolved = []"
| "responseShows (sh # shows) resolved =
     (case mget resolved (sh_ID sh) of
        Some r \<Rightarrow>
          if Resolved r then \<lparr>TVDBID' = TVDBID r, Title' = rs_Title r\<rparr> # responseShows shows resolved
          else responseShows shows resolved
      | None \<Rightarrow> responseShows shows resolved)"

text \<open>The response, and what the discovery task is given: the shows kept and their batch.\<close>

definition Process ::
    "config \<Rightarrow> resolver \<Rightarrow> civil \<Rightarrow> anilist_show list \<Rightarrow> anilist_show list \<Rightarrow> string \<Rightarrow> string \<Rightarrow>
     response_show list \<times> anilist_show list \<times> (int, resolved_show) gomap" where
  "Process cfg r now shows prevShows season category =
     (let kept = filter_chain cfg now season category (winter_overflow season shows prevShows);
          batch = resolveBatch r kept
      in (responseShows kept batch, kept, batch))"

section \<open>Recording mappings\<close>

text \<open>Go's remainder has the sign of the dividend.\<close>

definition go_rem :: "int \<Rightarrow> int \<Rightarrow> int" where
  "go_rem a b = sgn a * (\<bar>a\<bar> mod \<bar>b\<bar>)"

text \<open>\<open>fmt.Sprintf("%02d.%02d.%02d", day, month, year%100)\<close>\<close>

definition starts_at_of :: "fuzzy_date \<Rightarrow> string" where
  "starts_at_of d =
     (case (fd_Year d, fd_Month d, fd_Day d) of
        (Some y, Some m, Some dd) \<Rightarrow> fmt_02d dd @ ''.'' @ fmt_02d m @ ''.'' @ fmt_02d (go_rem y 100)
      | _ \<Rightarrow> [])"

fun track_entries ::
    "anilist_show list \<Rightarrow> (int, resolved_show) gomap \<Rightarrow> string \<Rightarrow> int \<Rightarrow> seen_mapping list" where
  "track_entries [] batch season year = []"
| "track_entries (as # shs) batch season year =
     (case mget batch (sh_ID as) of
        None \<Rightarrow> track_entries shs batch season year
      | Some r \<Rightarrow>
          if \<not> Resolved r then track_entries shs batch season year
          else \<lparr>sm_TVDBID = TVDBID r, sm_AniListID = sh_ID as, sm_Title = rs_Title r, sm_Season = season,
                sm_Year = year, StartsAt = starts_at_of (sh_StartDate as), FirstSeenAt = 0\<rparr>
               # track_entries shs batch season year)"

text \<open>
  The result is the list of mappings announced as new. \<open>meanwhile\<close> is what other goroutines do between
  the count and the transaction.
\<close>

definition trackNewMappings ::
    "db_env \<Rightarrow> (cache \<Rightarrow> cache) \<Rightarrow> (nat \<Rightarrow> ctx_err option) \<Rightarrow> (nat \<Rightarrow> tx_env) \<Rightarrow> clock \<Rightarrow>
     anilist_show list \<Rightarrow> (int, resolved_show) gomap \<Rightarrow> string \<Rightarrow> int \<Rightarrow> cache \<Rightarrow>
     seen_mapping list \<times> cache" where
  "trackNewMappings env meanwhile wts txs now shows batch season year c =
     (if mkeys batch = [] then ([], c)
      else (case CountSeenMappings env c of
              Inl e \<Rightarrow> ([], c)
            | Inr count \<Rightarrow>
                (let firstRun = (count = 0);
                     entries = track_entries shows batch season year
                 in if entries = [] then ([], c)
                    else (case MarkSeenMappings wts txs now entries (meanwhile c) of
                            (Inl e, c1) \<Rightarrow> ([], c1)
                          | (Inr newMappings, c1) \<Rightarrow>
                              if firstRun \<or> newMappings = [] then ([], c1) else (newMappings, c1)))))"

section \<open>Lemmas\<close>

lemma seen_ids: "mget (fold (\<lambda>sh. mput (sh_ID sh) True) shs seen) k =
    (if k \<in> sh_ID ` set shs then Some True else mget seen k)"
  by (induction shs arbitrary: seen) auto

lemma overflow_loop_eq:
  assumes "distinct (map sh_ID prev)"
  shows "overflow_loop prev seen shs =
    shs @ filter (\<lambda>s. mget seen (sh_ID s) \<noteq> Some True \<and> fd_Month (sh_StartDate s) = Some 12) prev"
  using assms
proof (induction prev arbitrary: seen shs)
  case (Cons p prev)
  have "filter (\<lambda>s. mget (mput (sh_ID p) True seen) (sh_ID s) \<noteq> Some True \<and> fd_Month (sh_StartDate s) = Some 12) prev
      = filter (\<lambda>s. mget seen (sh_ID s) \<noteq> Some True \<and> fd_Month (sh_StartDate s) = Some 12) prev"
    using Cons.prems by (intro filter_cong) (auto simp: image_iff)
  with Cons show ?case by simp
qed simp

text \<open>What a show must satisfy to be kept.\<close>

definition wanted :: "config \<Rightarrow> civil \<Rightarrow> string \<Rightarrow> string \<Rightarrow> anilist_show \<Rightarrow> bool" where
  "wanted cfg now season category s \<longleftrightarrow>
     (season = ''ALL'' \<or> keep_season season s) \<and> sh_Format s \<in> set (IncludeTypes cfg)
     \<and> \<not> SkipByDuration s \<and> (\<nexists>t. t \<in> set (ExcludeTags cfg) \<and> t \<noteq> [] \<and> HasTag s t)
     \<and> (if FilterFutureEnabled cfg then IsWithinMonths now s 3 else True)
     \<and> (if category = ''series-new'' then IsNew s else True)"

lemma filter_chain_eq: "filter_chain cfg now season category shs = filter (wanted cfg now season category) shs"
proof -
  have "(\<lambda>s. wanted cfg now season category s) = (\<lambda>s. (season = ''ALL'' \<or> keep_season season s)
      \<and> sh_Format s \<in> set (IncludeTypes cfg) \<and> keep_stats (ExcludeTags cfg) s
      \<and> (if FilterFutureEnabled cfg then IsWithinMonths now s 3 else True)
      \<and> (if category = ''series-new'' then IsNew s else True))"
    by (intro ext) (auto simp: wanted_def keep_stats_def hasExcludedTag_iff)
  then show ?thesis
    by (simp add: filter_chain_def FilterBySeason_eq FilterByFormats_eq FilterWithStats_eq FilterFutureWithStats_eq
        FilterFirstSeason_eq Let_def conj_ac cong: conj_cong)
qed

lemma find_unique_id:
  "distinct (map f xs) \<Longrightarrow> x \<in> set xs \<Longrightarrow> find (\<lambda>y. f y = f x) xs = Some x"
  by (induction xs) (auto simp: image_iff)

lemma resolveBatch_unique:
  assumes "distinct (map sh_ID shs)" "s \<in> set shs"
  shows "mget (resolveBatch r shs) (sh_ID s) = (if r = None then None else Some (resolve_one r s))"
proof -
  have "find (\<lambda>y. sh_ID y = sh_ID s) (rev shs) = Some s"
    using assms by (intro find_unique_id) (simp_all add: rev_map [symmetric])
  then show ?thesis by (simp add: resolveBatch_def mget_ResolveBatch split: option.splits)
qed

lemma responseShows_eq:
  "responseShows shs batch = List.map_filter (\<lambda>s. case mget batch (sh_ID s) of
      Some r \<Rightarrow> if Resolved r then Some \<lparr>TVDBID' = TVDBID r, Title' = rs_Title r\<rparr> else None
    | None \<Rightarrow> None) shs"
  by (induction shs) (simp_all add: map_filter_simps split: option.splits)

lemma map_filter_cong: "(\<And>x. x \<in> set xs \<Longrightarrow> f x = g x) \<Longrightarrow> List.map_filter f xs = List.map_filter g xs"
  by (induction xs) (auto simp: map_filter_simps split: option.splits)

section \<open>Properties\<close>

lemma Process_result:
  assumes "distinct (map sh_ID shows)" "distinct (map sh_ID prevShows)"
  shows "fst (Process cfg r now shows prevShows season category) =
    List.map_filter (\<lambda>s. if wanted cfg now season category s
        then map_option (\<lambda>t. \<lparr>TVDBID' = t, Title' = DisplayTitle s\<rparr>) (tvdb_for r s) else None)
      (shows @ filter (\<lambda>s. season = ''WINTER'' \<and> keep_season ''WINTER'' s \<and> fd_Month (sh_StartDate s) = Some 12
          \<and> sh_ID s \<notin> sh_ID ` set shows) prevShows)"
    (is "_ = List.map_filter ?answer (shows @ ?december)")
proof -
  have over: "winter_overflow season shows prevShows = shows @ ?december"
  proof (cases "season = ''WINTER'' \<and> prevShows \<noteq> []")
    case True
    have "distinct (map sh_ID (filter (keep_season ''WINTER'') prevShows))"
      using assms(2) by (rule distinct_map_filter)
    with True show ?thesis
      by (simp add: winter_overflow_def FilterBySeason_def season_loop_eq overflow_loop_eq seen_ids conj_ac
          cong: conj_cong)
  qed (auto simp: winter_overflow_def)
  let ?all = "shows @ ?december" and ?w = "wanted cfg now season category"
  have "sh_ID ` set shows \<inter> sh_ID ` set ?december = {}"
    by (auto simp: image_iff)
  then have "distinct (map sh_ID ?all)"
    using assms by (simp add: distinct_map_filter del: set_filter)
  then have dist: "distinct (map sh_ID (filter ?w ?all))" by (rule distinct_map_filter)
  have one: "(case mget (resolveBatch r (filter ?w ?all)) (sh_ID s) of
      Some rs \<Rightarrow> if Resolved rs then Some \<lparr>TVDBID' = TVDBID rs, Title' = rs_Title rs\<rparr> else None
    | None \<Rightarrow> None) = map_option (\<lambda>t. \<lparr>TVDBID' = t, Title' = DisplayTitle s\<rparr>) (tvdb_for r s)"
    if "s \<in> set (filter ?w ?all)" for s
  proof (cases r)
    case None
    then show ?thesis by (simp add: resolveBatch_def tvdb_for_def)
  next
    case (Some m)
    then show ?thesis
      unfolding resolveBatch_unique [OF dist that]
      by (auto simp: resolve_one_def Let_def resolveShow_tvdb_for split: option.splits)
  qed
  have "fst (Process cfg r now shows prevShows season category) =
      List.map_filter (\<lambda>s. map_option (\<lambda>t. \<lparr>TVDBID' = t, Title' = DisplayTitle s\<rparr>) (tvdb_for r s)) (filter ?w ?all)"
    unfolding Process_def Let_def over filter_chain_eq responseShows_eq fst_conv
    by (rule map_filter_cong) (rule one)
  moreover have "List.map_filter f (filter P xs) = List.map_filter (\<lambda>s. if P s then f s else None) xs" for f P xs
    by (induction xs) (simp_all add: map_filter_simps split: option.split)
  ultimately show ?thesis by (simp only:)
qed

text \<open>
  Claim C12. For lists without repeated ids the response of a request lists, in order, exactly the shows
  of the year (and, in winter, the December shows of the previous year's winter that the year does not
  have) that are wanted and that the mapping resolves, each with its TVDB id and display title: in the
  season or with season ALL, of an included format, not known to be short, without an excluded tag,
  starting within three months where that filter is on, and new for the series-new category.
\<close>

theorem Process_answer:
  assumes "distinct (map sh_ID shows)" "distinct (map sh_ID prevShows)"
  shows "fst (Process cfg r now shows prevShows season category) =
    List.map_filter (\<lambda>s. if wanted cfg now season category s
        then map_option (\<lambda>t. \<lparr>TVDBID' = t, Title' = DisplayTitle s\<rparr>) (tvdb_for r s) else None)
      (shows @ filter (\<lambda>s. season = ''WINTER'' \<and> keep_season ''WINTER'' s \<and> fd_Month (sh_StartDate s) = Some 12
          \<and> sh_ID s \<notin> sh_ID ` set shows) prevShows)"
  by (rule Process_result [OF assms])

lemma Process_answer_witness:
  fixes sh cfg now
  defines "sh k m \<equiv> \<lparr>sh_ID = k, sh_IDMal = None, sh_Title = \<lparr>English = None, Romaji = Some ''T''\<rparr>, sh_Format = ''TV'',
    sh_Duration = None, sh_Tags = [], sh_Season = [], sh_StartDate = \<lparr>fd_Year = None, fd_Month = Some m, fd_Day = None\<rparr>,
    sh_Relations = None\<rparr>"
  defines "cfg \<equiv> \<lparr>Port = 1, PrewarmYears = [], IncludeTypes = [''TV''], ExcludeTags = [], CacheDBPath = [], LogLevel = [],
    FilterFutureEnabled = False, DebugEndpointsEnabled = False, AdminToken = [], AnibridgeMappingPath = [],
    AnibridgeURL = []\<rparr>"
  defines "now \<equiv> \<lparr>c_year = 2024, c_month = 1, c_day = 15, c_tod = 0\<rparr>"
  shows "fst (Process cfg (Some (NewAnibridgeMapping [] [(1, 10), (3, 30), (4, 40)])) now [sh 1 1, sh 2 2, sh 4 5]
      [sh 3 12, sh 1 12] ''WINTER'' ''series-all'')
    = [\<lparr>TVDBID' = 10, Title' = ''T''\<rparr>, \<lparr>TVDBID' = 30, Title' = ''T''\<rparr>]"
proof -
  have "distinct (map sh_ID [sh 1 1, sh 2 2, sh 4 5])" "distinct (map sh_ID [sh 3 12, sh 1 12])"
    by (simp_all add: sh_def)
  note ans = Process_answer [OF this, of cfg "Some (NewAnibridgeMapping [] [(1, 10), (3, 30), (4, 40)])" now
      "''WINTER''" "''series-all''"]
  show ?thesis
    unfolding ans
    by (simp add: sh_def cfg_def wanted_def keep_season_def season_has_month_def SkipByDuration_def tvdb_for_def
        NewAnibridgeMapping_def LookupByAniList_def LookupByMAL_def mget_def DisplayTitle_def map_filter_simps)
qed

lemma track_entries_eq:
  "track_entries shs batch season year = List.map_filter (\<lambda>s. case mget batch (sh_ID s) of
      None \<Rightarrow> None
    | Some r \<Rightarrow> if Resolved r then Some \<lparr>sm_TVDBID = TVDBID r, sm_AniListID = sh_ID s, sm_Title = rs_Title r,
        sm_Season = season, sm_Year = year, StartsAt = starts_at_of (sh_StartDate s), FirstSeenAt = 0\<rparr> else None) shs"
  by (induction shs) (simp_all add: map_filter_simps split: option.splits)

text \<open>
  Discovery either leaves the cache to the others and announces nothing, or records in one
  transaction the first entry of every key not yet known, one entry for each resolved show of the
  request; it announces exactly those, except that nothing is announced when the table was empty
  at the count (the first run).
\<close>

lemma trackNewMappings_announces:
  assumes "trackNewMappings env meanwhile wts txs now shows batch season year c = (announced, c')"
  shows "announced = [] \<and> (c' = c \<or> c' = meanwhile c)
    \<or> (\<exists>new entries. entries = List.map_filter (\<lambda>s. case mget batch (sh_ID s) of
            None \<Rightarrow> None
          | Some r \<Rightarrow> if Resolved r then Some \<lparr>sm_TVDBID = TVDBID r, sm_AniListID = sh_ID s, sm_Title = rs_Title r,
              sm_Season = season, sm_Year = year, StartsAt = starts_at_of (sh_StartDate s), FirstSeenAt = 0\<rparr>
              else None) shows
        \<and> inserted_as (unix_now now) entries (seen_mappings (meanwhile c)) new (seen_mappings c')
        \<and> c' = (meanwhile c)\<lparr>seen_mappings := seen_mappings c'\<rparr>
        \<and> announced = (if seen_mappings c = [] then [] else new))"
proof (cases "mkeys batch = [] \<or> track_entries shows batch season year = []")
  case True
  then have "trackNewMappings env meanwhile wts txs now shows batch season year c = ([], c)"
    by (auto simp: trackNewMappings_def Let_def split: sum.splits)
  with assms show ?thesis by simp
next
  case False
  let ?es = "track_entries shows batch season year"
  obtain r c1 where mark: "MarkSeenMappings wts txs now ?es (meanwhile c) = (r, c1)" by fastforce
  note res = MarkSeenMappings_result [OF mark]
  show ?thesis
  proof (cases "CountSeenMappings env c")
    case (Inl e)
    with False assms show ?thesis by (simp add: trackNewMappings_def)
  next
    case (Inr n)
    then have n: "n = 0 \<longleftrightarrow> seen_mappings c = []"
      by (auto simp: CountSeenMappings_def queryRowWithRetry_eq mkeys_def split: option.splits)
    show ?thesis
    proof (cases r)
      case (Inl e)
      with False assms Inr mark res show ?thesis by (simp add: trackNewMappings_def Let_def)
    next
      case new: (Inr new)
      with False assms Inr mark have c': "c' = c1" and ann: "announced = (if seen_mappings c = [] then [] else new)"
        by (auto simp: trackNewMappings_def Let_def n split: if_splits)
      show ?thesis
        unfolding track_entries_eq [symmetric] c' ann using res new by auto
    qed
  qed
qed

lemma trackNewMappings_announces_witness:
  fixes sh
  defines "sh \<equiv> \<lparr>sh_ID = 7, sh_IDMal = None, sh_Title = \<lparr>English = None, Romaji = Some ''T''\<rparr>, sh_Format = ''TV'',
    sh_Duration = None, sh_Tags = [], sh_Season = [],
    sh_StartDate = \<lparr>fd_Year = Some 2024, fd_Month = Some 1, fd_Day = Some 5\<rparr>, sh_Relations = None\<rparr>"
  defines "batch \<equiv> [(7, \<lparr>TVDBID = 70, rs_Title = ''T'', Resolved = True\<rparr>)]"
  defines "tx \<equiv> \<lparr>begin_err = None, prepare_err = None, insert_err = \<lambda>_. None, commit_err = None\<rparr>"
  shows "\<exists>c'. trackNewMappings \<lparr>fails = \<lambda>_. None, waits = \<lambda>_. None\<rparr> (\<lambda>c. c) (\<lambda>_. None) (\<lambda>_. tx)
      \<lparr>ck_now = of_unix 50, ck_year = 2024\<rparr> [sh] batch ''WINTER'' 2024 (openCacheDB [] []) = ([], c')
    \<and> map_option starts_at (mget (seen_mappings c') (70, ''WINTER'', 2024)) = Some ''05.01.24''"
proof -
  let ?env = "\<lparr>fails = \<lambda>_. None, waits = \<lambda>_. None\<rparr>" and ?now = "\<lparr>ck_now = of_unix 50, ck_year = 2024\<rparr>"
  let ?c = "openCacheDB [] []"
  let ?run = "trackNewMappings ?env (\<lambda>c. c) (\<lambda>_. None) (\<lambda>_. tx) ?now [sh] batch ''WINTER'' 2024 ?c"
  have env: "env_error ?env = None" by (simp add: env_error_def env_error_from.simps)
  have date: "starts_at_of (sh_StartDate sh) = ''05.01.24''"
    unfolding sh_def by code_simp
  have id: "sh_ID sh = 7" by (simp add: sh_def)
  have empty: "seen_mappings ?c = []" by (simp add: openCacheDB_def)
  obtain c' where run: "?run = ([], c')" and changed: "seen_mappings c' \<noteq> []"
    by (simp add: trackNewMappings_def CountSeenMappings_def queryRowWithRetry_eq env batch_def mkeys_def
        id mget_def openCacheDB_def Let_def MarkSeenMappings_def retryBusyValue_def
        retry_loop.simps markSeenMappingsOnce_def tx_def insert_or_ignore_def mput_def seen_key_of_def)
  from trackNewMappings_announces [OF run] empty changed
  have "mget (seen_mappings c') (70, ''WINTER'', 2024) \<noteq> None \<and>
      map_option starts_at (mget (seen_mappings c') (70, ''WINTER'', 2024)) = Some (starts_at_of (sh_StartDate sh))"
    by (auto simp: inserted_as_def map_filter_simps batch_def sh_def mget_def seen_key_of_def seen_row_of_def)
  with run date show ?thesis by auto
qed

end
