(* ===== verification/Mapping_Disk.thy ===== *)
theory Mapping_Disk
  imports Data_Path Mapping_Resolve
begin

text \<open>
  The files of the mapping loader (\<open>internal/mapping/anibridge.go\<close>): the atomic write, the sidecar with
  the metadata and the names next to the cached file. A disk maps paths to nodes. How the calls of the
  \<open>os\<close> package end is an input; the atomic write gives every state of the disk it passes through, so
  what another process or a crash can see is part of the result.
\<close>

section \<open>Names\<close>

text \<open>\<open>filepath.Base\<close>, \<open>filepath.Dir\<close> and \<open>filepath.Join\<close> of two elements.\<close>

definition base_name :: "string \<Rightarrow> string" where
  "base_name p =
     (if p = [] then ''.''
      else (let b = rev (takeWhile (\<lambda>c. c \<noteq> CHR ''/'') (dropWhile (\<lambda>c. c = CHR ''/'') (rev p)))
            in if b = [] then ''/'' else b))"

definition dir_name :: "string \<Rightarrow> string" where
  "dir_name p = clean_path (rev (dropWhile (\<lambda>c. c \<noteq> CHR ''/'') (rev p)))"

definition join_path :: "string \<Rightarrow> string \<Rightarrow> string" where
  "join_path a b =
     (if a = [] then (if b = [] then [] else clean_path b)
      else if b = [] then clean_path a
      else clean_path (a @ CHR ''/'' # b))"

definition sibling :: "string \<Rightarrow> string \<Rightarrow> string" where
  "sibling p suffix = join_path (dir_name p) (base_name p @ suffix)"

definition metaPath :: "string \<Rightarrow> string" where
  "metaPath mappingPath = sibling mappingPath ''.meta.json''"

section \<open>The atomic write\<close>

datatype node = File string | Directory

type_synonym disk = "(string, node) gomap"

datatype io_err =
    BadPath path_err
  | NoDirectory string
  | NoTemp string
  | WriteFailed string
  | CloseFailed string
  | RenameFailed string
  | MarshalError string
  | ReadFailed string
  | Unparsable string

text \<open>
  How the calls end: which directories cannot be made, the random part of the temporary name, the bytes written when
  the write fails, and whether the temporary file can be removed.
\<close>

record write_env =
  we_mkdir :: "string \<Rightarrow> string option"
  we_create :: "string option"
  we_random :: string
  we_write :: "(nat \<times> string) option"
  we_close :: "string option"
  we_rename :: "string option"
  we_remove :: bool

definition temp_name :: "write_env \<Rightarrow> string \<Rightarrow> string" where
  "temp_name env p = sibling p (''.tmp-'' @ we_random env)"

text \<open>
  \<open>os.MkdirAll\<close> of an absolute path, given with its parents up to the one below the root (which exists): the error, if any,
  and the states of the disk after each directory it makes. Directories made before a failure stay.
\<close>

definition abs_path :: "string list \<Rightarrow> string" where
  "abs_path ps = CHR ''/'' # join (CHR ''/'') ps"

definition dir_chain :: "string \<Rightarrow> string list" where
  "dir_chain dir = map (\<lambda>k. abs_path (take k (parts_of dir))) (rev [1..<Suc (length (parts_of dir))])"

fun mkdir_all :: "(string \<Rightarrow> string option) \<Rightarrow> string list \<Rightarrow> disk \<Rightarrow> string option \<times> disk list" where
  "mkdir_all fails [] d = (None, [])"
| "mkdir_all fails (p # parents) d =
     (case mget d p of
        Some Directory \<Rightarrow> (None, [])
      | Some (File _) \<Rightarrow> (Some ''not a directory'', [])
      | None \<Rightarrow>
          (case mkdir_all fails parents d of
             (Some e, dirs) \<Rightarrow> (Some e, dirs)
           | (None, dirs) \<Rightarrow>
               (case fails p of
                  Some e \<Rightarrow> (Some e, dirs)
                | None \<Rightarrow> (None, dirs @ [mput p Directory (last (d # dirs))]))))"

text \<open>The deferred removal of the temporary file.\<close>

definition cleanup_temp :: "write_env \<Rightarrow> string \<Rightarrow> disk \<Rightarrow> disk" where
  "cleanup_temp env tmp d = (if we_remove env then mdel tmp d else d)"

text \<open>
  The error, if any, and the states of the disk in order; the last one is what it leaves. A directory cannot be
  renamed over.
\<close>

definition writeFileAtomic ::
    "string \<Rightarrow> write_env \<Rightarrow> string \<Rightarrow> string \<Rightarrow> disk \<Rightarrow> io_err option \<times> disk list" where
  "writeFileAtomic tmpdir env path data d =
     (case Validate tmpdir path of
        Inl e \<Rightarrow> (Some (BadPath e), [d])
      | Inr p \<Rightarrow>
          (case mkdir_all (we_mkdir env) (dir_chain (dir_name p)) d of
             (Some e, dirs) \<Rightarrow> (Some (NoDirectory e), d # dirs)
           | (None, dirs) \<Rightarrow>
               (case we_create env of
                  Some e \<Rightarrow> (Some (NoTemp e), d # dirs)
                | None \<Rightarrow>
                    (let tmp = temp_name env p;
                         d1 = mput tmp (File []) (last (d # dirs))
                     in case we_write env of
                          Some (n, e) \<Rightarrow>
                            (let d2 = mput tmp (File (take n data)) d1
                             in (Some (WriteFailed e), d # dirs @ [d1, d2, cleanup_temp env tmp d2]))
                        | None \<Rightarrow>
                            (let d2 = mput tmp (File data) d1
                             in case we_close env of
                                  Some e \<Rightarrow> (Some (CloseFailed e), d # dirs @ [d1, d2, cleanup_temp env tmp d2])
                                | None \<Rightarrow>
                                    (case (if mget d2 p = Some Directory then Some ''file exists'' else we_rename env) of
                                       Some e \<Rightarrow> (Some (RenameFailed e), d # dirs @ [d1, d2, cleanup_temp env tmp d2])
                                     | None \<Rightarrow> (None, d # dirs @ [d1, d2, mput p (File data) (mdel tmp d2)])))))))"

section \<open>The sidecar\<close>

text \<open>\<open>readable\<close> is the error of \<open>os.ReadFile\<close> on a file that exists; \<open>unmarshal\<close> is \<open>json.Unmarshal\<close>.\<close>

definition ReadMetadata ::
    "string option \<Rightarrow> (string \<Rightarrow> string + metadata) \<Rightarrow> string \<Rightarrow> disk \<Rightarrow> io_err + metadata" where
  "ReadMetadata readable unmarshal path d =
     (case mget d path of
        None \<Rightarrow> Inr zero_metadata
      | Some Directory \<Rightarrow> Inl (ReadFailed ''is a directory'')
      | Some (File data) \<Rightarrow>
          (case readable of
             Some e \<Rightarrow> Inl (ReadFailed e)
           | None \<Rightarrow> (case unmarshal data of Inl e \<Rightarrow> Inl (Unparsable e) | Inr m \<Rightarrow> Inr m)))"

definition WriteMetadata ::
    "(metadata \<Rightarrow> string + string) \<Rightarrow> string \<Rightarrow> write_env \<Rightarrow> string \<Rightarrow> metadata \<Rightarrow> disk \<Rightarrow>
     io_err option \<times> disk list" where
  "WriteMetadata marshal tmpdir env path m d =
     (case marshal m of
        Inl e \<Rightarrow> (Some (MarshalError e), [d])
      | Inr data \<Rightarrow> writeFileAtomic tmpdir env path data d)"

text \<open>\<open>saveKeySnapshot\<close>: a failure to persist is only logged.\<close>

definition with_keys :: "anibridge_mapping \<Rightarrow> metadata \<Rightarrow> metadata" where
  "with_keys m meta = meta\<lparr>MALKeys := fst (Keys m), AniListKeys := snd (Keys m)\<rparr>"

definition saveKeySnapshot ::
    "(metadata \<Rightarrow> string + string) \<Rightarrow> string \<Rightarrow> write_env \<Rightarrow> string \<Rightarrow> anibridge_mapping \<Rightarrow> metadata \<Rightarrow>
     disk \<Rightarrow> metadata \<times> disk" where
  "saveKeySnapshot marshal tmpdir env metadataPath m meta d =
     (let meta1 = with_keys m meta
      in (meta1, last (snd (WriteMetadata marshal tmpdir env metadataPath meta1 d))))"

section \<open>Lemmas on names\<close>

lemma join_snoc: "join sep (ps @ [b]) = (if ps = [] then b else join sep ps @ sep # b)"
  by (induction sep ps rule: join.induct) auto

lemma Validate_clean: "Validate tmp path = Inr p \<Longrightarrow> is_abs p \<and> clean_path p = p"
  using clean_path_idem by (auto simp: Validate_def Let_def split: if_splits)

lemma clean_abs_form: "is_abs p \<Longrightarrow> clean_path p = p \<Longrightarrow> p = CHR ''/'' # join (CHR ''/'') (parts_of p)"
  by (metis clean_path_def)

lemma split_on_append_slash: "split_on sep (a @ sep # b) = split_on sep a @ split_on sep b"
  by (induction a) (auto split: list.splits)

lemma clean_parts_append:
  "clean_parts rooted kept (ps @ qs) = clean_parts rooted (clean_parts rooted kept ps) qs"
  by (induction rooted kept ps rule: clean_parts.induct) (auto split: list.splits)

text \<open>A plain element after an absolute path.\<close>

lemma parts_of_join:
  assumes "is_abs a" "plain b"
  shows "parts_of (a @ CHR ''/'' # b) = parts_of a @ [b]"
proof -
  have "is_abs (a @ CHR ''/'' # b)" using assms(1) by (auto simp: is_abs_iff)
  moreover have "split_on (CHR ''/'') b = [b]" using assms(2) by (simp add: plain_def split_on_one)
  ultimately show ?thesis
    using assms by (simp add: parts_of_def split_on_append_slash clean_parts_append plain_def)
qed

lemma base_and_dir:
  assumes "is_abs p" "clean_path p = p" "parts_of p = ps @ [b]"
  shows "base_name p = b \<and> is_abs (dir_name p) \<and> parts_of (dir_name p) = ps"
proof -
  have b: "plain b" and ps: "\<And>q. q \<in> set ps \<Longrightarrow> plain q" using parts_of_plain [OF assms(1)] assms(3) by auto
  let ?front = "CHR ''/'' # (if ps = [] then [] else join (CHR ''/'') ps @ [CHR ''/''])"
  have p: "p = ?front @ b"
    using clean_abs_form [OF assms(1,2)] by (simp add: assms(3) join_snoc)
  have nb: "b \<noteq> []" "CHR ''/'' \<notin> set b" using b by (simp_all add: plain_def)
  obtain c cs where rb: "rev b = c # cs" "c \<noteq> CHR ''/''" "CHR ''/'' \<notin> set cs"
    using nb by (cases "rev b") (auto simp flip: set_rev [of b])
  have rf: "\<exists>r. rev ?front = CHR ''/'' # r" by (cases "ps = []") auto
  have tw: "takeWhile (\<lambda>c. c \<noteq> CHR ''/'') (rev b @ rev ?front) = rev b"
    "dropWhile (\<lambda>c. c \<noteq> CHR ''/'') (rev b @ rev ?front) = rev ?front"
    using rf nb by (auto simp: takeWhile_append dropWhile_append)
  have rp: "rev p = rev b @ rev ?front" by (simp add: p)
  have "base_name p = b"
    using rb tw(1) nb by (simp add: base_name_def rp) (simp add: p)
  moreover have dir: "dir_name p = clean_path ?front"
    unfolding dir_name_def rp tw(2) by (simp only: rev_rev_ident)
  moreover have "parts_of ?front = ps"
  proof -
    have "split_on (CHR ''/'') ?front = [] # (if ps = [] then [[]] else ps @ [[]])"
      using ps split_on_append_slash [of "CHR ''/''" "join (CHR ''/'') ps" "[]"]
        split_on_join [of ps "CHR ''/''"] by (auto simp: plain_def)
    moreover have "clean_parts True [] ps = rev ps" using clean_parts_of_plain [of ps True "[]"] ps by simp
    ultimately show ?thesis
      by (simp add: parts_of_def is_abs_iff clean_parts_append)
  qed
  moreover have "is_abs ?front" by (simp add: is_abs_iff)
  ultimately show ?thesis using parts_of_clean_path [of ?front] is_abs_clean_path [of ?front] by simp
qed

text \<open>A suffix that keeps an element plain.\<close>

definition suffix_ok :: "string \<Rightarrow> bool" where
  "suffix_ok s \<longleftrightarrow> 2 < length s \<and> CHR ''/'' \<notin> set s"

lemma plain_suffix: "plain b \<Longrightarrow> suffix_ok s \<Longrightarrow> plain (b @ s)"
  by (auto simp: plain_def suffix_ok_def dest: arg_cong [where f = length])

lemma plain_suffix_alone: "suffix_ok s \<Longrightarrow> plain s"
  by (auto simp: plain_def suffix_ok_def)

lemma sibling_parts:
  assumes "is_abs p" "clean_path p = p" "suffix_ok s"
  shows "is_abs (sibling p s) \<and> clean_path (sibling p s) = sibling p s
    \<and> parts_of (sibling p s) = (if parts_of p = [] then [s] else butlast (parts_of p) @ [last (parts_of p) @ s])"
proof (cases "parts_of p = []")
  case True
  then have p: "p = ''/''" using clean_abs_form [OF assms(1,2)] by simp
  have root: "base_name ''/'' = ''/''" "dir_name ''/'' = ''/''" "parts_of ''//'' = []" by code_simp+
  have "sibling p s = clean_path (''//'' @ CHR ''/'' # s)"
    by (simp add: sibling_def p root join_path_def)
  moreover have "is_abs (''//'' @ CHR ''/'' # s)" "parts_of (''//'' @ CHR ''/'' # s) = [s]"
    using parts_of_join [of "''//''" s] plain_suffix_alone [OF assms(3)] by (simp_all add: is_abs_iff root)
  ultimately show ?thesis
    using True parts_of_clean_path clean_path_idem is_abs_clean_path by metis
next
  case False
  then obtain ps b where pb: "parts_of p = ps @ [b]" by (metis append_butlast_last_id)
  note bd = base_and_dir [OF assms(1,2) pb]
  have "plain b" using parts_of_plain [OF assms(1)] pb by auto
  then have pl: "plain (b @ s)" using plain_suffix assms(3) by blast
  have ne: "dir_name p \<noteq> []" "b @ s \<noteq> []" using bd pl by (auto simp: is_abs_iff plain_def)
  have "sibling p s = clean_path (dir_name p @ CHR ''/'' # (b @ s))"
    using bd ne by (auto simp: sibling_def join_path_def)
  moreover have "is_abs (dir_name p @ CHR ''/'' # (b @ s))" using bd by (auto simp: is_abs_iff)
  moreover have "parts_of (dir_name p @ CHR ''/'' # (b @ s)) = ps @ [b @ s]"
    using parts_of_join [of "dir_name p" "b @ s"] bd pl by simp
  ultimately show ?thesis
    using False pb parts_of_clean_path clean_path_idem is_abs_clean_path by (metis butlast_snoc last_snoc)
qed

lemma sibling_ne:
  "is_abs p \<Longrightarrow> clean_path p = p \<Longrightarrow> suffix_ok s \<Longrightarrow> sibling p s \<noteq> p"
  using sibling_parts [of p s] by (metis append_self_conv butlast_snoc last_snoc length_0_conv list.discI
      not_less_zero suffix_ok_def)

lemma sibling_sibling_ne:
  assumes "is_abs p" "clean_path p = p" "suffix_ok s" "suffix_ok t"
  shows "sibling (sibling p s) t \<noteq> p"
proof -
  note s = sibling_parts [OF assms(1-3)]
  have "parts_of (sibling (sibling p s) t) =
      butlast (parts_of (sibling p s)) @ [last (parts_of (sibling p s)) @ t]"
    using sibling_parts [of "sibling p s" t] s assms(4) by (auto split: if_splits)
  then have "last (parts_of (sibling (sibling p s) t)) = (if parts_of p = [] then s @ t else last (parts_of p) @ s @ t)"
    "parts_of (sibling (sibling p s) t) \<noteq> []"
    using s by (auto split: if_splits)
  then show ?thesis using assms(3) by (auto simp: suffix_ok_def split: if_splits)
qed

section \<open>Properties\<close>

lemma mget_cleanup [simp]:
  "mget (cleanup_temp env tmp d) q = (if q = tmp \<and> we_remove env then None else mget d q)"
  by (simp add: cleanup_temp_def)

text \<open>Two disks that differ only in directories of a list that one has and the other does not.\<close>

definition grown :: "string set \<Rightarrow> disk \<Rightarrow> disk \<Rightarrow> bool" where
  "grown ps d d' \<longleftrightarrow> (\<forall>q. mget d' q = mget d q \<or> q \<in> ps \<and> mget d q = None \<and> mget d' q = Some Directory)"

lemma grown_refl [simp]: "grown ps d d"
  by (simp add: grown_def)

lemma grown_mono: "grown ps d d' \<Longrightarrow> ps \<subseteq> qs \<Longrightarrow> grown qs d d'"
  by (auto simp: grown_def)

lemma grown_mkdir: "grown ps d d' \<Longrightarrow> mget d p = None \<Longrightarrow> grown (insert p ps) d (mput p Directory d')"
  by (auto simp: grown_def)

lemma mkdir_all_grown:
  "mkdir_all fails ps d = (err, dirs) \<Longrightarrow> \<forall>d' \<in> set (d # dirs). grown (set ps) d d'"
proof (induction fails ps d arbitrary: err dirs rule: mkdir_all.induct)
  case (2 fails p parents d)
  show ?case
  proof (cases "mget d p")
    case None
    obtain e ds where up: "mkdir_all fails parents d = (e, ds)" by fastforce
    then have ds: "\<forall>d' \<in> set (d # ds). grown (set parents) d d'" using "2.IH" None by blast
    then have wide: "\<forall>d' \<in> set (d # ds). grown (insert p (set parents)) d d'" using grown_mono by blast
    have "grown (insert p (set parents)) d (mput p Directory (last (d # ds)))"
      using ds last_in_set [of "d # ds"] grown_mkdir [OF _ None] by blast
    then show ?thesis using "2.prems" None up wide by (auto split: option.splits)
  next
    case (Some n)
    then show ?thesis using "2.prems" by (auto split: node.splits)
  qed
qed simp

lemma parts_of_abs_path: "\<forall>p \<in> set ps. plain p \<Longrightarrow> parts_of (abs_path ps) = ps"
  using clean_parts_of_plain [of ps True "[]"] split_on_join [of ps "CHR ''/''"]
  by (cases "ps = []") (auto simp: abs_path_def parts_of_def is_abs_iff plain_def)

lemma dir_chain_parts:
  assumes "is_abs dir" "q \<in> set (dir_chain dir)"
  shows "\<exists>k. 0 < k \<and> k \<le> length (parts_of dir) \<and> parts_of q = take k (parts_of dir)"
proof -
  have "set (dir_chain dir) = (\<lambda>k. abs_path (take k (parts_of dir))) ` {1..<Suc (length (parts_of dir))}"
    by (simp add: dir_chain_def del: upt_Suc)
  then obtain k where "k \<in> {1..<Suc (length (parts_of dir))}" and q: "q = abs_path (take k (parts_of dir))"
    using assms(2) by (auto simp only: image_iff)
  then have k: "0 < k" "k \<le> length (parts_of dir)" by simp_all
  moreover have "parts_of q = take k (parts_of dir)"
    unfolding q by (rule parts_of_abs_path) (auto dest: in_set_takeD parts_of_plain [OF assms(1)])
  ultimately show ?thesis by blast
qed

text \<open>The parents of a path have fewer elements than it has.\<close>

lemma parents_shorter:
  assumes "is_abs p" "clean_path p = p" "q \<in> set (dir_chain (dir_name p))"
  shows "length (parts_of q) < length (parts_of p)"
proof (cases "parts_of p = []")
  case True
  then have "p = ''/''" using clean_abs_form [OF assms(1,2)] by simp
  moreover have "dir_chain (dir_name ''/'') = []" by code_simp
  ultimately show ?thesis using assms(3) by simp
next
  case False
  then obtain ps b where pb: "parts_of p = ps @ [b]" by (metis append_butlast_last_id)
  note bd = base_and_dir [OF assms(1,2) pb]
  then show ?thesis using dir_chain_parts [of "dir_name p" q] assms(3) pb by auto
qed

lemma sibling_length:
  "is_abs p \<Longrightarrow> clean_path p = p \<Longrightarrow> suffix_ok s \<Longrightarrow> length (parts_of p) \<le> length (parts_of (sibling p s))"
  using sibling_parts [of p s] by simp

definition parents :: "string \<Rightarrow> string set" where
  "parents p = set (dir_chain (dir_name p))"

lemma parents_of_sibling:
  assumes "is_abs p" "clean_path p = p" "suffix_ok s"
  shows "p \<notin> parents (sibling p s)"
proof
  assume in_chain: "p \<in> parents (sibling p s)"
  note s = sibling_parts [OF assms]
  have "length (parts_of p) < length (parts_of (sibling p s))"
    using parents_shorter [of "sibling p s" p] s in_chain by (simp add: parents_def)
  then have "parts_of p = []" using s by (auto split: if_splits)
  moreover from this have "parts_of (sibling p s) = [] @ [s]" using s by simp
  then have "parts_of (dir_name (sibling p s)) = []" using base_and_dir s by blast
  ultimately show False using in_chain by (simp add: parents_def dir_chain_def)
qed

text \<open>What a write can do to its target, its temporary file, its missing parents and any other path.\<close>

definition but_for :: "string set \<Rightarrow> string set \<Rightarrow> disk \<Rightarrow> disk \<Rightarrow> bool" where
  "but_for qs ps d d' \<longleftrightarrow> (\<forall>q. q \<notin> qs \<longrightarrow> mget d' q = mget d q \<or> q \<in> ps \<and> mget d q = None \<and> mget d' q = Some Directory)"

lemma but_for_change:
  assumes "grown ps d d0"
  shows "but_for qs ps d d0" "but_for qs ps d d' \<Longrightarrow> q \<in> qs \<Longrightarrow> but_for qs ps d (mput q x d')"
    "but_for qs ps d d' \<Longrightarrow> q \<in> qs \<Longrightarrow> but_for qs ps d (mdel q d')"
  using assms by (auto simp: but_for_def grown_def)

lemma write_trace:
  assumes "Validate tmpdir path = Inr p" "temp_name env p \<noteq> p" "p \<notin> parents p" "temp_name env p \<notin> parents p"
    and "writeFileAtomic tmpdir env path data d = (err, trace)"
  shows "trace \<noteq> [] \<and> hd trace = d
    \<and> (\<forall>d' \<in> set trace. but_for {p, temp_name env p} (parents p) d d'
        \<and> (mget d' p = mget d p \<or> err = None \<and> mget d' p = Some (File data)))
    \<and> (if err = None then mget (last trace) p = Some (File data) \<and> mget (last trace) (temp_name env p) = None
       else mget (last trace) p = mget d p
         \<and> (we_remove env \<longrightarrow> mget d (temp_name env p) = None \<longrightarrow> mget (last trace) (temp_name env p) = None))"
proof -
  obtain e dirs where mk: "mkdir_all (we_mkdir env) (dir_chain (dir_name p)) d = (e, dirs)" by fastforce
  let ?tmp = "temp_name env p" and ?d0 = "last (d # dirs)"
  have g: "\<forall>d' \<in> set (d # dirs). grown (parents p) d d'" using mkdir_all_grown [OF mk] by (simp add: parents_def)
  then have g0: "grown (parents p) d ?d0" using last_in_set [of "d # dirs"] by blast
  have same: "grown (parents p) d d' \<Longrightarrow> mget d' p = mget d p \<and> mget d' ?tmp = mget d ?tmp" for d'
    using assms(3,4) by (auto simp: grown_def)
  have before: "\<forall>d' \<in> set (d # dirs). but_for {p, ?tmp} (parents p) d d' \<and> mget d' p = mget d p"
    using g same but_for_change(1) by blast
  have after: "but_for {p, ?tmp} (parents p) d d1 \<Longrightarrow> but_for {p, ?tmp} (parents p) d (cleanup_temp env ?tmp d1)"
    "but_for {p, ?tmp} (parents p) d d1 \<Longrightarrow> but_for {p, ?tmp} (parents p) d (mput ?tmp x d1)"
    "but_for {p, ?tmp} (parents p) d d1 \<Longrightarrow> but_for {p, ?tmp} (parents p) d (mput p x (mdel ?tmp d1))" for d1 x
    using but_for_change(2,3) [OF g0] by (auto simp: cleanup_temp_def)
  show ?thesis
    using assms(1,2,5) before same [OF g0] but_for_change(1) [OF g0] mk
    by (auto simp: writeFileAtomic_def Let_def after split: option.splits prod.splits if_splits)
qed

lemma write_invalid:
  "Validate tmpdir path = Inl e \<Longrightarrow> writeFileAtomic tmpdir env path data d = (Some (BadPath e), [d])"
  by (simp add: writeFileAtomic_def)

lemma temp_name_ne: "is_abs p \<Longrightarrow> clean_path p = p \<Longrightarrow> CHR ''/'' \<notin> set (we_random env) \<Longrightarrow> temp_name env p \<noteq> p"
  unfolding temp_name_def by (rule sibling_ne) (auto simp: suffix_ok_def)

lemma parents_of_write:
  assumes "is_abs p" "clean_path p = p" "CHR ''/'' \<notin> set (we_random env)"
  shows "p \<notin> parents p" "temp_name env p \<notin> parents p"
proof -
  have sfx: "suffix_ok (''.tmp-'' @ we_random env)" using assms(3) by (auto simp: suffix_ok_def)
  note long = parents_shorter [OF assms(1,2)] sibling_length [OF assms(1,2) sfx]
  show "p \<notin> parents p" "temp_name env p \<notin> parents p"
    using long by (fastforce simp: parents_def temp_name_def)+
qed

text \<open>
  Claim C31. At every moment of an atomic write, at its end and after every failure, the target holds
  either what it held before or, if the write succeeds, all of the new bytes, and no path but the target and
  the temporary file next to it differs, except that missing directories above the target may have been made;
  success leaves the new bytes and no temporary file, and so does a failure whose temporary file can be removed,
  with the old target.
\<close>

theorem writeFileAtomic_atomic:
  assumes "writeFileAtomic tmpdir env path data d = (err, trace)" "CHR ''/'' \<notin> set (we_random env)"
    and "Validate tmpdir path = Inr p" "mget d (temp_name env p) = None"
  shows "(\<forall>d' \<in> set trace. (mget d' p = mget d p \<or> err = None \<and> mget d' p = Some (File data))
        \<and> (\<forall>q. q \<noteq> p \<longrightarrow> q \<noteq> temp_name env p \<longrightarrow>
             mget d' q = mget d q \<or> q \<in> parents p \<and> mget d q = None \<and> mget d' q = Some Directory))
    \<and> mget (last trace) p = (if err = None then Some (File data) else mget d p)
    \<and> (err = None \<or> we_remove env \<longrightarrow> (\<forall>q. q \<noteq> p \<longrightarrow>
         mget (last trace) q = mget d q \<or> q \<in> parents p \<and> mget d q = None \<and> mget (last trace) q = Some Directory))"
proof -
  have abs: "is_abs p" "clean_path p = p" using Validate_clean [OF assms(3)] by simp_all
  have ne: "temp_name env p \<noteq> p" using abs temp_name_ne assms(2) by blast
  note tr = write_trace [OF assms(3) ne parents_of_write [OF abs assms(2)] assms(1)]
  then have l: "last trace \<in> set trace" by simp
  have "mget (last trace) (temp_name env p) = None" if "err = None \<or> we_remove env"
    using tr that assms(4) by (auto split: if_splits)
  moreover have "mget (last trace) q = mget d q \<or> q \<in> parents p \<and> mget d q = None \<and> mget (last trace) q = Some Directory"
    if "q \<noteq> p" "q \<noteq> temp_name env p" for q
    using tr l that by (auto simp: but_for_def)
  ultimately have "\<forall>q. q \<noteq> p \<longrightarrow> mget (last trace) q = mget d q
      \<or> q \<in> parents p \<and> mget d q = None \<and> mget (last trace) q = Some Directory" if "err = None \<or> we_remove env"
    using that assms(4) by metis
  with tr show ?thesis by (auto simp: but_for_def split: if_splits)
qed

text \<open>The directory of the file is missing: it is made and stays, while the write itself fails.\<close>

lemma writeFileAtomic_atomic_witness:
  fixes env
  defines "env \<equiv> \<lparr>we_mkdir = (\<lambda>_. None), we_create = None, we_random = ''42'', we_write = Some (1, ''full''), we_close = None,
    we_rename = None, we_remove = True\<rparr>"
  shows "\<exists>trace. writeFileAtomic ''/tmp'' env ''/data/m/x'' ''new'' [(''/data'', Directory)] = (Some (WriteFailed ''full''), trace)
    \<and> mget (last trace) ''/data/m/x'' = None \<and> mget (last trace) ''/data/m/x.tmp-42'' = None
    \<and> mget (last trace) ''/data'' = Some Directory \<and> mget (last trace) ''/data/m'' = Some Directory"
proof -
  let ?d = "[(''/data'', Directory)]"
  have ok: "Validate ''/tmp'' ''/data/m/x'' = Inr ''/data/m/x''" by code_simp
  have tmp: "temp_name env ''/data/m/x'' = ''/data/m/x.tmp-42''" unfolding env_def by code_simp
  have sib: "sibling ''/data/m/x'' ''.tmp-42'' = ''/data/m/x.tmp-42''" by code_simp
  have chain: "dir_chain (dir_name ''/data/m/x'') = [''/data/m'', ''/data'']" by code_simp
  obtain trace where run: "writeFileAtomic ''/tmp'' env ''/data/m/x'' ''new'' ?d = (Some (WriteFailed ''full''), trace)"
    and made: "mget (last trace) ''/data/m'' = Some Directory"
    by (simp add: writeFileAtomic_def ok chain temp_name_def sib env_def Let_def mget_def cleanup_temp_def mput_def mdel_def)
  have "CHR ''/'' \<notin> set (we_random env)" "mget ?d (temp_name env ''/data/m/x'') = None"
    unfolding tmp by (simp_all add: env_def mget_def)
  note out = writeFileAtomic_atomic [OF run this(1) ok this(2)]
  have "we_remove env" by (simp add: env_def)
  then have rest: "q \<noteq> ''/data/m/x'' \<Longrightarrow> mget (last trace) q = mget ?d q
      \<or> q \<in> parents ''/data/m/x'' \<and> mget ?d q = None \<and> mget (last trace) q = Some Directory" for q
    using out by metis
  have "parents ''/data/m/x'' = {''/data/m'', ''/data''}" by (simp add: parents_def chain)
  then have "mget (last trace) ''/data/m/x.tmp-42'' = None" "mget (last trace) ''/data'' = Some Directory"
    using rest [of "''/data/m/x.tmp-42''"] rest [of "''/data''"] by (simp_all add: mget_def)
  moreover have "mget (last trace) ''/data/m/x'' = None" using out by (simp add: mget_def)
  ultimately show ?thesis using run made by blast
qed

text \<open>
  Metadata that was written without an error is read back unchanged from the sidecar of the
  mapping, for any encoding of it that the decoder reads back; without a sidecar the zero metadata is read.
\<close>

lemma metadata_roundtrip:
  assumes "WriteMetadata marshal tmpdir env (metaPath p) m d = (None, trace)"
    and "is_abs p" "clean_path p = p" "CHR ''/'' \<notin> set (we_random env)"
    and "\<And>data. marshal m = Inr data \<Longrightarrow> unmarshal data = Inr m"
  shows "ReadMetadata None unmarshal (metaPath p) (last trace) = Inr m
    \<and> (mget d (metaPath p) = None \<longrightarrow> ReadMetadata None unmarshal (metaPath p) d = Inr zero_metadata)"
proof -
  obtain data where data: "marshal m = Inr data"
    and run: "writeFileAtomic tmpdir env (metaPath p) data d = (None, trace)"
    using assms(1) by (auto simp: WriteMetadata_def split: sum.splits)
  obtain q where q: "Validate tmpdir (metaPath p) = Inr q"
    using run write_invalid by (cases "Validate tmpdir (metaPath p)") auto
  have "suffix_ok ''.meta.json''" by (simp add: suffix_ok_def)
  then have "q = metaPath p"
    using q sibling_parts [OF assms(2,3)] by (simp add: metaPath_def Validate_def Let_def split: if_splits)
  with q have ok: "Validate tmpdir (metaPath p) = Inr (metaPath p)" by simp
  have "temp_name env (metaPath p) \<noteq> metaPath p"
    using temp_name_ne Validate_clean [OF ok] assms(4) by blast
  from write_trace [OF ok this parents_of_write [OF conjunct1 [OF Validate_clean [OF ok]] conjunct2 [OF Validate_clean [OF ok]] assms(4)] run]
  show ?thesis
    using assms(5) [OF data] by (simp add: ReadMetadata_def)
qed

lemma metadata_roundtrip_witness:
  fixes env
  defines "env \<equiv> \<lparr>we_mkdir = (\<lambda>_. None), we_create = None, we_random = ''42'', we_write = None, we_close = None,
    we_rename = None, we_remove = True\<rparr>"
  shows "\<exists>trace. WriteMetadata (\<lambda>m. Inr (ETag m)) ''/tmp'' env (metaPath ''/data/x'') (zero_metadata\<lparr>ETag := ''v1''\<rparr>) [] = (None, trace)
    \<and> ReadMetadata None (\<lambda>s. Inr (zero_metadata\<lparr>ETag := s\<rparr>)) (metaPath ''/data/x'') (last trace) = Inr (zero_metadata\<lparr>ETag := ''v1''\<rparr>)"
proof -
  have name: "metaPath ''/data/x'' = ''/data/x.meta.json''" by code_simp
  have ok: "Validate ''/tmp'' ''/data/x.meta.json'' = Inr ''/data/x.meta.json''" by code_simp
  have chain: "dir_chain (dir_name ''/data/x.meta.json'') = [''/data'']" by code_simp
  have "temp_name env ''/data/x.meta.json'' = ''/data/x.meta.json.tmp-42''" unfolding env_def by code_simp
  note tmp = this [unfolded env_def]
  obtain trace where run: "WriteMetadata (\<lambda>m. Inr (ETag m)) ''/tmp'' env (metaPath ''/data/x'') (zero_metadata\<lparr>ETag := ''v1''\<rparr>) [] = (None, trace)"
    by (simp add: WriteMetadata_def writeFileAtomic_def name ok chain tmp env_def Let_def mget_def mput_def)
  have abs: "is_abs ''/data/x''" "clean_path ''/data/x'' = ''/data/x''" by code_simp+
  have "CHR ''/'' \<notin> set (we_random env)" by (simp add: env_def)
  from metadata_roundtrip [OF run abs this, of "\<lambda>s. Inr (zero_metadata\<lparr>ETag := s\<rparr>)"] run
  show ?thesis by simp
qed

end
