(* ===== verification/Mapping_Download.thy ===== *)
theory Mapping_Download
  imports Mapping_Disk "HOL-Library.Word"
begin

text \<open>
  Downloading the mapping (\<open>internal/mapping/anibridge.go\<close>): the URL policy, the transport that checks the
  addresses of a host, redirects, and the HEAD and GET requests with the size and checksum checks. Name
  lookups, the answers of the network and the MD5 function are inputs; a request counts as sent when
  it is handed to the wrapped transport.
\<close>

unbundle bit_operations_syntax

section \<open>Addresses\<close>

text \<open>A \<open>net.IP\<close>: 4 or 16 bytes. The predicates are those of the \<open>net\<close> package.\<close>

type_synonym ip = "8 word list"

definition ip_to4 :: "ip \<Rightarrow> ip option" where
  "ip_to4 a =
     (if length a = 4 then Some a
      else if length a = 16 \<and> take 12 a = replicate 10 0 @ [255, 255] then Some (drop 12 a)
      else None)"

definition IsLoopback :: "ip \<Rightarrow> bool" where
  "IsLoopback a =
     (case ip_to4 a of Some b \<Rightarrow> b ! 0 = 127 | None \<Rightarrow> a = replicate 15 0 @ [1])"

definition IsPrivate :: "ip \<Rightarrow> bool" where
  "IsPrivate a =
     (case ip_to4 a of
        Some b \<Rightarrow> b ! 0 = 10 \<or> b ! 0 = 172 \<and> (b ! 1) AND 0xF0 = 16 \<or> b ! 0 = 192 \<and> b ! 1 = 168
      | None \<Rightarrow> length a = 16 \<and> (a ! 0) AND 0xFE = 0xFC)"

definition IsLinkLocalUnicast :: "ip \<Rightarrow> bool" where
  "IsLinkLocalUnicast a =
     (case ip_to4 a of
        Some b \<Rightarrow> b ! 0 = 169 \<and> b ! 1 = 254
      | None \<Rightarrow> length a = 16 \<and> a ! 0 = 0xFE \<and> (a ! 1) AND 0xC0 = 0x80)"

definition IsLinkLocalMulticast :: "ip \<Rightarrow> bool" where
  "IsLinkLocalMulticast a =
     (case ip_to4 a of
        Some b \<Rightarrow> b ! 0 = 224 \<and> b ! 1 = 0 \<and> b ! 2 = 0
      | None \<Rightarrow> length a = 16 \<and> a ! 0 = 0xFF \<and> (a ! 1) AND 0x0F = 0x02)"

definition IsUnspecified :: "ip \<Rightarrow> bool" where
  "IsUnspecified a \<longleftrightarrow> ip_to4 a = Some [0, 0, 0, 0] \<or> a = replicate 16 0"

definition isPublicIP :: "ip \<Rightarrow> bool" where
  "isPublicIP a \<longleftrightarrow> \<not> IsLoopback a \<and> \<not> IsPrivate a \<and> \<not> IsLinkLocalUnicast a \<and> \<not> IsLinkLocalMulticast a
     \<and> \<not> IsUnspecified a"

section \<open>URL policy and transport\<close>

datatype http_err =
    UnparsableURL
  | MissingHost
  | InsecureScheme
  | HostNotAllowed
  | LookupFailed string
  | NonPublicAddress
  | LoopbackAddress
  | TransportFailed string
  | BadRequest
  | BadStatus int
  | BodyReadFailed string
  | BodyTooLarge
  | BadMD5Header
  | MD5Mismatch

text \<open>\<^const>\<open>None\<close>: the URL is accepted.\<close>

definition validateRemoteURL ::
    "(string \<Rightarrow> string) \<Rightarrow> (string \<Rightarrow> parsed_url option) \<Rightarrow> string \<Rightarrow> http_err option" where
  "validateRemoteURL env url_parse raw =
     (case url_parse raw of
        None \<Rightarrow> Some UnparsableURL
      | Some u \<Rightarrow>
          if Hostname u = [] then Some MissingHost
          else
            (let insecureOK = InsecureLoopbackAllowed env u in
             if Scheme u \<noteq> ''https'' \<and> \<not> insecureOK then Some InsecureScheme
             else if \<not> AllowedHost (Hostname u) \<and> \<not> insecureOK then Some HostNotAllowed
             else None))"

text \<open>The loop over the addresses.\<close>

fun check_ips :: "bool \<Rightarrow> ip list \<Rightarrow> http_err option" where
  "check_ips insecureOK [] = None"
| "check_ips insecureOK (a # ips) =
     (if \<not> isPublicIP a \<and> \<not> IsLoopback a then Some NonPublicAddress
      else if IsLoopback a \<and> \<not> insecureOK then Some LoopbackAddress
      else check_ips insecureOK ips)"

text \<open>\<open>RoundTrip\<close> up to the wrapped transport: an error, or \<^const>\<open>None\<close> when the request is passed on.\<close>

definition RoundTrip ::
    "(string \<Rightarrow> string) \<Rightarrow> (string \<Rightarrow> ip option) \<Rightarrow> string + ip list \<Rightarrow> parsed_url \<Rightarrow> http_err option" where
  "RoundTrip env parse_ip lookup u =
     (case parse_ip (Hostname u) of
        Some a \<Rightarrow> check_ips (InsecureLoopbackAllowed env u) [a]
      | None \<Rightarrow>
          (case lookup of
             Inl e \<Rightarrow> Some (LookupFailed e)
           | Inr ips \<Rightarrow> check_ips (InsecureLoopbackAllowed env u) ips))"

text \<open>
  One exchange with the network: the lookup of the host, and what the wrapped transport gives. The body
  is its bytes and the error after them, if one ends it.
\<close>

record http_response =
  rs_StatusCode :: int
  rs_ETag :: string
  rs_LastModified :: string
  rs_md5 :: string
  rs_body :: "string \<times> string option"

datatype answer = Failed string | Answered http_response | Redirected string

type_synonym exchange = "(string + ip list) \<times> answer"

text \<open>
  \<open>client.Do\<close> with the transport and \<open>CheckRedirect\<close> of \<open>secureHTTPClient\<close>: the result and the URLs sent.
  When the exchanges run out, the client's timeout has ended the request.
\<close>

fun client_do ::
    "(string \<Rightarrow> string) \<Rightarrow> (string \<Rightarrow> parsed_url option) \<Rightarrow> (string \<Rightarrow> ip option) \<Rightarrow> exchange list \<Rightarrow>
     string \<Rightarrow> (http_err + http_response) \<times> (string \<times> (string + ip list)) list" where
  "client_do env url_parse parse_ip [] raw = (Inl (TransportFailed ''timeout''), [])"
| "client_do env url_parse parse_ip ((lookup, ans) # exs) raw =
     (case url_parse raw of
        None \<Rightarrow> (Inl UnparsableURL, [])
      | Some u \<Rightarrow>
          (case RoundTrip env parse_ip lookup u of
             Some e \<Rightarrow> (Inl e, [])
           | None \<Rightarrow>
               (case ans of
                  Failed e \<Rightarrow> (Inl (TransportFailed e), [(raw, lookup)])
                | Answered resp \<Rightarrow> (Inr resp, [(raw, lookup)])
                | Redirected loc \<Rightarrow>
                    (case validateRemoteURL env url_parse loc of
                       Some e \<Rightarrow> (Inl e, [(raw, lookup)])
                     | None \<Rightarrow>
                         (case client_do env url_parse parse_ip exs loc of
                            (r, sent) \<Rightarrow> (r, (raw, lookup) # sent))))))"

section \<open>Requests\<close>

text \<open>What a request needs from outside: the network, whether it can be created, and the clock.\<close>

record net_env =
  ne_env :: "string \<Rightarrow> string"
  ne_parse :: "string \<Rightarrow> parsed_url option"
  ne_ip :: "string \<Rightarrow> ip option"
  ne_create :: bool
  ne_exchanges :: "exchange list"
  ne_now :: int

definition doMappingRequest ::
    "net_env \<Rightarrow> string \<Rightarrow> (http_err + (http_response \<times> metadata)) \<times> (string \<times> (string + ip list)) list" where
  "doMappingRequest n url =
     (case validateRemoteURL (ne_env n) (ne_parse n) url of
        Some e \<Rightarrow> (Inl e, [])
      | None \<Rightarrow>
          if \<not> ne_create n then (Inl BadRequest, [])
          else
            (case client_do (ne_env n) (ne_parse n) (ne_ip n) (ne_exchanges n) url of
               (Inl e, sent) \<Rightarrow> (Inl e, sent)
             | (Inr resp, sent) \<Rightarrow>
                 if rs_StatusCode resp \<noteq> 200 then (Inl (BadStatus (rs_StatusCode resp)), sent)
                 else (Inr (resp, zero_metadata\<lparr>ETag := rs_ETag resp, LastModified := rs_LastModified resp,
                              URL := url, FetchedAt := ne_now n\<rparr>), sent)))"

text \<open>\<open>base64.StdEncoding.DecodeString\<close> and \<open>hex.EncodeToString\<close>.\<close>

definition b64_value :: "char \<Rightarrow> nat option" where
  "b64_value c =
     (let n = of_char c :: nat in
      if 65 \<le> n \<and> n \<le> 90 then Some (n - 65)
      else if 97 \<le> n \<and> n \<le> 122 then Some (n - 71)
      else if 48 \<le> n \<and> n \<le> 57 then Some (n + 4)
      else if n = 43 then Some 62
      else if n = 47 then Some 63
      else None)"

fun b64_groups :: "string \<Rightarrow> string option" where
  "b64_groups [] = Some []"
| "b64_groups (a # b # c # d # rest) =
     (case (b64_value a, b64_value b) of
        (Some w, Some x) \<Rightarrow>
          if c = CHR ''='' \<and> d = CHR ''='' then
            (if rest = [] then Some [char_of (w * 4 + x div 16)] else None)
          else (case b64_value c of
                  None \<Rightarrow> None
                | Some y \<Rightarrow>
                    if d = CHR ''='' then
                      (if rest = [] then Some [char_of (w * 4 + x div 16), char_of (x mod 16 * 16 + y div 4)] else None)
                    else (case (b64_value d, b64_groups rest) of
                            (Some z, Some out) \<Rightarrow>
                              Some (char_of (w * 4 + x div 16) # char_of (x mod 16 * 16 + y div 4)
                                    # char_of (y mod 4 * 64 + z) # out)
                          | _ \<Rightarrow> None))
      | _ \<Rightarrow> None)"
| "b64_groups _ = None"

definition b64_decode :: "string \<Rightarrow> string option" where
  "b64_decode s = b64_groups (filter (\<lambda>c. (of_char c :: nat) \<noteq> 10 \<and> (of_char c :: nat) \<noteq> 13) s)"

definition hex_digit :: "nat \<Rightarrow> char" where
  "hex_digit d = (if d < 10 then char_of (d + 48) else char_of (d + 87))"

definition hex_encode :: "string \<Rightarrow> string" where
  "hex_encode s = concat (map (\<lambda>c. [hex_digit (of_char c div 16), hex_digit (of_char c mod 16)]) s)"

definition maxCompressedMappingBytes :: nat where
  "maxCompressedMappingBytes = 50 * 2 ^ 20"

text \<open>The HEAD request: an undecodable checksum is dropped with a warning.\<close>

definition mapping_head :: "net_env \<Rightarrow> string \<Rightarrow> http_err + metadata" where
  "mapping_head n url =
     (case fst (doMappingRequest n url) of
        Inl e \<Rightarrow> Inl e
      | Inr (resp, meta) \<Rightarrow>
          Inr (if rs_md5 resp \<noteq> [] then
                 (case b64_decode (rs_md5 resp) of Some digest \<Rightarrow> meta\<lparr>MD5 := hex_encode digest\<rparr> | None \<Rightarrow> meta)
               else meta))"

text \<open>\<open>io.ReadAll(io.LimitReader(r, n))\<close>\<close>

definition read_limited :: "nat \<Rightarrow> string \<times> string option \<Rightarrow> string + string" where
  "read_limited n body =
     (if length (fst body) < n then (case snd body of Some e \<Rightarrow> Inl e | None \<Rightarrow> Inr (fst body))
      else Inr (take n (fst body)))"

definition fetch_mapping :: "(string \<Rightarrow> string) \<Rightarrow> net_env \<Rightarrow> string \<Rightarrow> http_err + (string \<times> metadata)" where
  "fetch_mapping md5 n url =
     (case fst (doMappingRequest n url) of
        Inl e \<Rightarrow> Inl e
      | Inr (resp, meta) \<Rightarrow>
          (case read_limited (maxCompressedMappingBytes + 1) (rs_body resp) of
             Inl e \<Rightarrow> Inl (BodyReadFailed e)
           | Inr data \<Rightarrow>
               if maxCompressedMappingBytes < length data then Inl BodyTooLarge
               else if rs_md5 resp \<noteq> [] then
                 (case b64_decode (rs_md5 resp) of
                    None \<Rightarrow> Inl BadMD5Header
                  | Some expectedRaw \<Rightarrow>
                      (let got = hex_encode (md5 data); want = hex_encode expectedRaw in
                       if \<not> equal_fold got want then Inl MD5Mismatch
                       else Inr (data, meta\<lparr>MD5 := got\<rparr>)))
               else Inr (data, meta)))"

section \<open>The decoded size limit\<close>

text \<open>
  One \<open>limitReader.Read\<close> into \<open>plen\<close> bytes: \<open>give\<close> is what the wrapped reader returns for a buffer length,
  at most that many. The result is \<^const>\<open>None\<close> for the limit error, else the bytes read and the new count.
\<close>

record limit_reader =
  lr_limit :: int
  lr_read :: int

definition limit_read :: "(int \<Rightarrow> int) \<Rightarrow> int \<Rightarrow> limit_reader \<Rightarrow> (int \<times> limit_reader) option" where
  "limit_read give plen r =
     (if lr_limit r \<le> lr_read r then None
      else
        (let p = (if lr_limit r - lr_read r < plen then lr_limit r - lr_read r else plen);
             n = give p
         in Some (n, r\<lparr>lr_read := lr_read r + n\<rparr>)))"

section \<open>Lemmas\<close>

text \<open>The number a list of bytes stands for, the first byte most significant.\<close>

definition ip_value :: "ip \<Rightarrow> int" where
  "ip_value a = foldl (\<lambda>n b. n * 256 + uint b) 0 a"

lemma uint8: "0 \<le> uint (b :: 8 word)" "uint (b :: 8 word) < 256"
  using uint_lt2p [of b] by simp_all

text \<open>The bit masks of the address predicates as intervals.\<close>

lemma slice_int: "(n :: int) AND (mask (m + k) AND NOT (mask k)) = n div 2 ^ k mod 2 ^ m * 2 ^ k"
  using slice_eq_mask [of k m n] by (simp add: push_bit_eq_mult take_bit_eq_mod drop_bit_eq_div and.assoc)

lemma byte_masks: "(mask (4 + 4) AND NOT (mask 4) :: int) = 0xF0" "(mask (7 + 1) AND NOT (mask 1) :: int) = 0xFE"
   "(mask (2 + 6) AND NOT (mask 6) :: int) = 0xC0"
  by code_simp+

lemma mask_iff:
  "(b :: 8 word) AND 0xF0 = 16 \<longleftrightarrow> 16 \<le> uint b \<and> uint b \<le> 31"
  "(b :: 8 word) AND 0xFE = 0xFC \<longleftrightarrow> 252 \<le> uint b \<and> uint b \<le> 253"
  "(b :: 8 word) AND 0xC0 = 0x80 \<longleftrightarrow> 128 \<le> uint b \<and> uint b \<le> 191"
proof -
  have w: "b AND c = d \<longleftrightarrow> uint b AND uint c = uint d" for c d
    by (simp add: word_uint_eq_iff uint_and)
  define n where "n = uint b"
  have n: "0 \<le> n" "n < 256" using uint8 [of b] by (simp_all add: n_def)
  have p: "(2 :: int) ^ 4 = 16" "(2 :: int) ^ 7 = 128" "(2 :: int) ^ 1 = 2" "(2 :: int) ^ 2 = 4" "(2 :: int) ^ 6 = 64" by simp_all
  have q: "n div 16 mod 16 = n div 16" "n div 2 mod 128 = n div 2" "n div 64 mod 4 = n div 64"
    using n by simp_all
  note e = slice_int [of n 4 4, unfolded byte_masks p q] slice_int [of n 7 1, unfolded byte_masks p q] slice_int [of n 2 6, unfolded byte_masks p q]
  have "uint (0xF0 :: 8 word) = 240" "uint (0xFE :: 8 word) = 254" "uint (0xC0 :: 8 word) = 192"
    "uint (16 :: 8 word) = 16" "uint (0xFC :: 8 word) = 252" "uint (0x80 :: 8 word) = 128" by simp_all
  note w' = w [of "0xF0" 16, unfolded this] w [of "0xFE" "0xFC", unfolded this] w [of "0xC0" "0x80", unfolded this]
  show "b AND 0xF0 = 16 \<longleftrightarrow> 16 \<le> uint b \<and> uint b \<le> 31" unfolding w' n_def [symmetric] e by presburger
  show "b AND 0xFE = 0xFC \<longleftrightarrow> 252 \<le> uint b \<and> uint b \<le> 253" unfolding w' n_def [symmetric] e by presburger
  show "b AND 0xC0 = 0x80 \<longleftrightarrow> 128 \<le> uint b \<and> uint b \<le> 191" unfolding w' n_def [symmetric] e by presburger
qed
lemma byte_eq:
  "uint (b :: 8 word) = 0 \<longleftrightarrow> b = 0" "uint b = 10 \<longleftrightarrow> b = 10" "uint b = 127 \<longleftrightarrow> b = 127" "uint b = 168 \<longleftrightarrow> b = 168"
  "uint b = 169 \<longleftrightarrow> b = 169" "uint b = 172 \<longleftrightarrow> b = 172" "uint b = 192 \<longleftrightarrow> b = 192" "uint b = 224 \<longleftrightarrow> b = 224"
  "uint b = 254 \<longleftrightarrow> b = 254"
  by (simp_all add: word_uint_eq_iff)

text \<open>A dotted quad lies in a network exactly when its number lies in the interval of the network.\<close>

lemma octets:
  fixes P Q R T A B C :: int
  assumes "0 \<le> Q" "Q < 256" "0 \<le> R" "R < 256" "0 \<le> T" "T < 256" "0 \<le> B" "B < 256" "0 \<le> C" "C < 256"
  defines "n \<equiv> ((P * 256 + Q) * 256 + R) * 256 + T"
  shows "P = A \<longleftrightarrow> A * 16777216 \<le> n \<and> n \<le> A * 16777216 + 16777215"
    and "P = A \<and> B \<le> Q \<and> Q \<le> C \<longleftrightarrow> A * 16777216 + B * 65536 \<le> n \<and> n \<le> A * 16777216 + C * 65536 + 65535"
    and "P = A \<and> Q = B \<and> R = C
      \<longleftrightarrow> A * 16777216 + B * 65536 + C * 256 \<le> n \<and> n \<le> A * 16777216 + B * 65536 + C * 256 + 255"
proof -
  have p: "P = A \<longleftrightarrow> A * 16777216 \<le> n \<and> n \<le> A * 16777216 + 16777215" for A
    using assms by auto
  then show "P = A \<longleftrightarrow> A * 16777216 \<le> n \<and> n \<le> A * 16777216 + 16777215" .
  have q: "P = A \<and> B \<le> Q \<and> Q \<le> C \<longleftrightarrow> A * 16777216 + B * 65536 \<le> n \<and> n \<le> A * 16777216 + C * 65536 + 65535"
    if "0 \<le> B" "C < 256" for B C
  proof (cases "P = A")
    case True
    with assms show ?thesis by auto
  next
    case False
    with p [of A] that show ?thesis by auto
  qed
  show "P = A \<and> B \<le> Q \<and> Q \<le> C \<longleftrightarrow> A * 16777216 + B * 65536 \<le> n \<and> n \<le> A * 16777216 + C * 65536 + 65535"
    using q assms(7,10) by blast
  show "P = A \<and> Q = B \<and> R = C
      \<longleftrightarrow> A * 16777216 + B * 65536 + C * 256 \<le> n \<and> n \<le> A * 16777216 + B * 65536 + C * 256 + 255"
  proof (cases "P = A \<and> Q = B")
    case True
    with assms show ?thesis by auto
  next
    case False
    with q [of B B] assms(7-10) show ?thesis by auto
  qed
qed
lemma isPublicIP_v4:
  assumes "a = [p, q, r, t]"
  shows "isPublicIP a \<longleftrightarrow> \<not> (let n = ip_value a in n = 0
      \<or> 167772160 \<le> n \<and> n \<le> 184549375 \<or> 2130706432 \<le> n \<and> n \<le> 2147483647
      \<or> 2886729728 \<le> n \<and> n \<le> 2887778303 \<or> 3232235520 \<le> n \<and> n \<le> 3232301055
      \<or> 2851995648 \<le> n \<and> n \<le> 2852061183 \<or> 3758096384 \<le> n \<and> n \<le> 3758096639)"
proof -
  define P Q R T where "P = uint p" "Q = uint q" "R = uint r" "T = uint t"
  have b: "0 \<le> P" "P < 256" "0 \<le> Q" "Q < 256" "0 \<le> R" "R < 256" "0 \<le> T" "T < 256"
    unfolding P_Q_R_T_def using uint8 by blast+
  have n: "ip_value a = ((P * 256 + Q) * 256 + R) * 256 + T"
    by (simp add: ip_value_def assms P_Q_R_T_def)
  have four: "ip_to4 a = Some a" by (simp add: ip_to4_def assms)
  have lst: "a \<noteq> replicate 16 0" "a ! 0 = p" "a ! 1 = q" "a ! 2 = r" "a = [0, 0, 0, 0] \<longleftrightarrow> p = 0 \<and> q = 0 \<and> r = 0 \<and> t = 0"
    by (simp_all add: assms eval_nat_numeral)
  have pub: "isPublicIP a \<longleftrightarrow> \<not> (P = 127 \<or> (P = 10 \<or> P = 172 \<and> 16 \<le> Q \<and> Q \<le> 31 \<or> P = 192 \<and> Q = 168)
      \<or> P = 169 \<and> Q = 254 \<or> P = 224 \<and> Q = 0 \<and> R = 0 \<or> P = 0 \<and> Q = 0 \<and> R = 0 \<and> T = 0)"
    unfolding isPublicIP_def IsLoopback_def IsPrivate_def IsLinkLocalUnicast_def IsLinkLocalMulticast_def
      IsUnspecified_def four option.case option.inject lst(2-5) mask_iff P_Q_R_T_def byte_eq
    using lst(1) by blast
  note net = octets [OF b(3-8), where P = P, folded n]
  have "P = 0 \<and> Q = 0 \<and> R = 0 \<and> T = 0 \<longleftrightarrow> ip_value a = 0"
    using net(3) [of 0 0 0] n b(7) by auto
  moreover have "P = 127 \<longleftrightarrow> 2130706432 \<le> ip_value a \<and> ip_value a \<le> 2147483647" using net(1) [of 0 0 127] by simp
  moreover have "P = 10 \<longleftrightarrow> 167772160 \<le> ip_value a \<and> ip_value a \<le> 184549375" using net(1) [of 0 0 10] by simp
  moreover have "P = 172 \<and> 16 \<le> Q \<and> Q \<le> 31 \<longleftrightarrow> 2886729728 \<le> ip_value a \<and> ip_value a \<le> 2887778303"
    using net(2) [of 16 31 172] by simp
  moreover have "P = 192 \<and> Q = 168 \<longleftrightarrow> 3232235520 \<le> ip_value a \<and> ip_value a \<le> 3232301055"
    using net(2) [of 168 168 192] by (simp add: eq_iff [of Q] conj_ac)
  moreover have "P = 169 \<and> Q = 254 \<longleftrightarrow> 2851995648 \<le> ip_value a \<and> ip_value a \<le> 2852061183"
    using net(2) [of 254 254 169] by (simp add: eq_iff [of Q] conj_ac)
  moreover have "P = 224 \<and> Q = 0 \<and> R = 0 \<longleftrightarrow> 3758096384 \<le> ip_value a \<and> ip_value a \<le> 3758096639"
    using net(3) [of 0 0 224] by simp
  ultimately show ?thesis unfolding pub Let_def by argo
qed

lemma low_nibble: "(b :: 8 word) AND 0x0F = 2 \<longleftrightarrow> uint b mod 16 = 2"
proof -
  have "uint b AND 15 = uint b mod 16"
    using take_bit_eq_mask [of 4 "uint b"] by (simp add: take_bit_eq_mod mask_numeral)
  then show ?thesis by (simp add: word_uint_eq_iff uint_and)
qed

text \<open>
  Claim C32. The bit masks of the address check are exactly these networks: an IPv4 address, also one mapped
  into IPv6, is public unless its number lies in 0.0.0.0, 10/8, 127/8, 172.16/12, 192.168/16,
  169.254/16 or 224.0.0/24; any other IPv6 address is public unless it is :: or ::1 or lies in
  fc00::/7 or fe80::/10 or is link-local multicast.
\<close>

theorem isPublicIP_networks:
  "(case ip_to4 a of
      Some b \<Rightarrow> isPublicIP a = (\<not> (let n = ip_value b in n = 0
        \<or> 167772160 \<le> n \<and> n \<le> 184549375 \<or> 2130706432 \<le> n \<and> n \<le> 2147483647
        \<or> 2886729728 \<le> n \<and> n \<le> 2887778303 \<or> 3232235520 \<le> n \<and> n \<le> 3232301055
        \<or> 2851995648 \<le> n \<and> n \<le> 2852061183 \<or> 3758096384 \<le> n \<and> n \<le> 3758096639))
    | None \<Rightarrow>
        isPublicIP a = (\<not> (length a = 16 \<and> (a = replicate 16 0 \<or> a = replicate 15 0 @ [1]
        \<or> 252 \<le> uint (a ! 0) \<and> uint (a ! 0) \<le> 253
        \<or> uint (a ! 0) = 254 \<and> 128 \<le> uint (a ! 1) \<and> uint (a ! 1) \<le> 191
        \<or> uint (a ! 0) = 255 \<and> uint (a ! 1) mod 16 = 2))))"
proof (cases "ip_to4 a")
  case (Some b)
  then have len: "length b = 4" by (auto simp: ip_to4_def split: if_splits)
  then obtain p q r t where b: "b = [p, q, r, t]" by (auto simp: length_Suc_conv eval_nat_numeral)
  have "ip_to4 b = Some b" using len by (simp add: ip_to4_def)
  moreover have "a \<noteq> replicate 16 0" "b \<noteq> replicate 16 0"
  proof -
    have "ip_to4 (replicate 16 0) = None" by code_simp
    with Some show "a \<noteq> replicate 16 0" by auto
    show "b \<noteq> replicate 16 0" using len by auto
  qed
  ultimately have "isPublicIP a = isPublicIP b"
    using Some unfolding isPublicIP_def IsLoopback_def IsPrivate_def IsLinkLocalUnicast_def
      IsLinkLocalMulticast_def IsUnspecified_def by simp
  with Some isPublicIP_v4 [OF b] show ?thesis by simp
next
  case None
  have "uint (a ! 0) = 254 \<longleftrightarrow> a ! 0 = 0xFE" "uint (a ! 0) = 255 \<longleftrightarrow> a ! 0 = 0xFF"
    by (simp_all add: word_uint_eq_iff)
  with None show ?thesis
    unfolding isPublicIP_def IsLoopback_def IsPrivate_def IsLinkLocalUnicast_def IsLinkLocalMulticast_def
      IsUnspecified_def mask_iff low_nibble by auto
qed

lemma check_ips_None:
  "check_ips insecureOK ips = None \<longleftrightarrow> (\<forall>a \<in> set ips. isPublicIP a \<or> IsLoopback a \<and> insecureOK)"
  by (induction ips) (auto simp: isPublicIP_def)

text \<open>What the policy asks of a URL that is sent, and of the addresses its host was looked up to.\<close>

definition url_allowed :: "(string \<Rightarrow> string) \<Rightarrow> parsed_url \<Rightarrow> bool" where
  "url_allowed env u \<longleftrightarrow> Hostname u \<noteq> [] \<and>
     (Scheme u = ''https'' \<and> List.member [''github.com'', ''objects.githubusercontent.com'',
        ''release-assets.githubusercontent.com''] (to_lower (Hostname u))
      \<or> Scheme u = ''http'' \<and> env ''ALLOW_INSECURE_MAPPING_URL'' = ''1''
        \<and> List.member [''127.0.0.1'', ''localhost'', ''::1''] (to_lower (Hostname u)))"

definition addresses_of :: "(string \<Rightarrow> ip option) \<Rightarrow> parsed_url \<Rightarrow> string + ip list \<Rightarrow> ip list option" where
  "addresses_of parse_ip u lookup =
     (case parse_ip (Hostname u) of Some a \<Rightarrow> Some [a]
      | None \<Rightarrow> (case lookup of Inl _ \<Rightarrow> None | Inr ips \<Rightarrow> Some ips))"

lemma validateRemoteURL_None:
  "validateRemoteURL env url_parse raw = None \<longleftrightarrow> (\<exists>u. url_parse raw = Some u \<and> url_allowed env u)"
  by (cases "url_parse raw")
    (auto simp: validateRemoteURL_def url_allowed_def InsecureLoopbackAllowed_def AllowedHost_def Let_def)

lemma RoundTrip_None:
  "RoundTrip env parse_ip lookup u = None \<longleftrightarrow> (\<exists>ips. addresses_of parse_ip u lookup = Some ips
    \<and> (\<forall>a \<in> set ips. isPublicIP a \<or> IsLoopback a \<and> InsecureLoopbackAllowed env u))"
  unfolding RoundTrip_def addresses_of_def check_ips_None
  by (cases "parse_ip (Hostname u)"; cases lookup) (simp_all only: option.case sum.case check_ips_None, simp_all)

text \<open>A request that may be sent: its URL is allowed and so is every address of its host.\<close>

definition request_allowed where
  "request_allowed env url_parse parse_ip req \<longleftrightarrow> (\<exists>u ips. url_parse (fst req) = Some u \<and> url_allowed env u
     \<and> addresses_of parse_ip u (snd req) = Some ips
     \<and> (\<forall>a \<in> set ips. isPublicIP a \<or> IsLoopback a \<and> Scheme u = ''http''
          \<and> env ''ALLOW_INSECURE_MAPPING_URL'' = ''1''))"

lemma client_do_allowed:
  assumes "validateRemoteURL env url_parse raw = None"
  shows "\<forall>req \<in> set (snd (client_do env url_parse parse_ip exs raw)). request_allowed env url_parse parse_ip req"
  using assms
proof (induction env url_parse parse_ip exs raw rule: client_do.induct)
  case (1 env url_parse parse_ip raw)
  then show ?case by simp
next
  case (2 env url_parse parse_ip lookup ans exs raw)
  obtain u where u: "url_parse raw = Some u" "url_allowed env u"
    using 2(2) validateRemoteURL_None by blast
  show ?case
  proof (cases "RoundTrip env parse_ip lookup u")
    case (Some e)
    with u show ?thesis by simp
  next
    case None
    then have this_one: "request_allowed env url_parse parse_ip (raw, lookup)"
      using u unfolding request_allowed_def RoundTrip_None
      by (auto simp: InsecureLoopbackAllowed_def split: if_splits)
    show ?thesis
    proof (cases ans)
      case (Redirected loc)
      show ?thesis
      proof (cases "validateRemoteURL env url_parse loc")
        case valid: None
        have "\<forall>req \<in> set (snd (client_do env url_parse parse_ip exs loc)). request_allowed env url_parse parse_ip req"
          using "2.IH" [OF u(1) None Redirected valid valid] .
        with u None Redirected valid this_one show ?thesis by (auto split: prod.splits)
      qed (use u None Redirected this_one in simp)
    qed (use u None this_one in simp_all)
  qed
qed

text \<open>
  Claim C33. Whatever the lookups and the network answer, every request of a HEAD or GET for the mapping, the
  redirected ones included, goes to an https URL of the three allowed hosts or, when opted in, to a
  plain loopback URL; and every address its host was looked up to is public, or loopback with the
  opt-in.
\<close>

theorem mapping_requests_allowed:
  "list_all (request_allowed (ne_env n) (ne_parse n) (ne_ip n)) (snd (doMappingRequest n url))"
proof (cases "validateRemoteURL (ne_env n) (ne_parse n) url = None \<and> ne_create n")
  case True
  obtain r sent where do: "client_do (ne_env n) (ne_parse n) (ne_ip n) (ne_exchanges n) url = (r, sent)"
    by fastforce
  have "snd (doMappingRequest n url) = sent"
    using True do by (auto simp: doMappingRequest_def split: sum.splits)
  with client_do_allowed [of "ne_env n" "ne_parse n" url "ne_ip n" "ne_exchanges n"] True do show ?thesis
    by (simp add: list_all_iff)
next
  case False
  then show ?thesis by (auto simp: doMappingRequest_def split: option.splits)
qed

lemma hex_digit_inj: "d < 16 \<Longrightarrow> e < 16 \<Longrightarrow> hex_digit d = hex_digit e \<Longrightarrow> d = e"
  by (auto simp: hex_digit_def split: if_splits dest!: arg_cong [where f = "of_char :: char \<Rightarrow> nat"])

lemma hex_digit_lower: "d < 16 \<Longrightarrow> lower_char (hex_digit d) = hex_digit d"
  by (auto simp: lower_char_def hex_digit_def)

lemma of_char_less: "(of_char c :: nat) < 256"
  by (metis of_char_of char_of_char mod_less_divisor zero_less_numeral)

lemma hex_encode_Cons: "hex_encode (c # s) = hex_digit (of_char c div 16) # hex_digit (of_char c mod 16) # hex_encode s"
  by (simp add: hex_encode_def)

lemma hex_encode_inj: "hex_encode s = hex_encode t \<Longrightarrow> s = t"
proof (induction s arbitrary: t)
  case Nil
  then show ?case by (cases t) (simp_all add: hex_encode_def)
next
  case (Cons c s)
  then obtain d t' where t: "t = d # t'" by (cases t) (simp_all add: hex_encode_def)
  have c: "(of_char c :: nat) div 16 < 16" "(of_char d :: nat) div 16 < 16"
    using of_char_less [of c] of_char_less [of d] by (simp_all add: div_less_iff_less_mult)
  have "(of_char c :: nat) div 16 = of_char d div 16" "(of_char c :: nat) mod 16 = of_char d mod 16"
    using Cons.prems c hex_digit_inj unfolding t hex_encode_Cons by simp_all
  then have "(of_char c :: nat) = of_char d" by (metis div_mult_mod_eq)
  then have "c = d" by simp
  with Cons t show ?case by (simp add: hex_encode_Cons)
qed

lemma hex_encode_lower: "to_lower (hex_encode s) = hex_encode s"
  using of_char_less by (induction s) (simp_all add: to_lower_def hex_encode_def hex_digit_lower less_mult_imp_div_less)

lemma hex_encode_fold: "equal_fold (hex_encode s) (hex_encode t) \<longleftrightarrow> s = t"
  by (auto simp: equal_fold_def hex_encode_lower dest: hex_encode_inj)

text \<open>
  Claim C34. A download is accepted exactly when a GET was answered with status 200, its whole body was read
  and has at most 50 MiB, and the checksum header, if present, decodes to the MD5 digest of the body; the
  metadata then carry the validators of that answer, the URL asked for and the checked digest.
\<close>

theorem fetch_mapping_verified:
  "fetch_mapping md5 n url = Inr (data, meta) \<longleftrightarrow>
    (\<exists>resp meta0. fst (doMappingRequest n url) = Inr (resp, meta0) \<and> rs_StatusCode resp = 200
      \<and> rs_body resp = (data, None) \<and> length data \<le> 50 * 2 ^ 20
      \<and> (rs_md5 resp = [] \<or> b64_decode (rs_md5 resp) = Some (md5 data))
      \<and> meta = zero_metadata\<lparr>ETag := rs_ETag resp, LastModified := rs_LastModified resp, URL := url,
          FetchedAt := ne_now n, MD5 := (if rs_md5 resp = [] then [] else hex_encode (md5 data))\<rparr>)"
proof (cases "fst (doMappingRequest n url)")
  case (Inl e)
  then show ?thesis by (simp add: fetch_mapping_def)
next
  case (Inr rm)
  obtain resp meta0 where rm: "rm = (resp, meta0)" by (cases rm)
  have meta0: "rs_StatusCode resp = 200" "meta0 = zero_metadata\<lparr>ETag := rs_ETag resp,
      LastModified := rs_LastModified resp, URL := url, FetchedAt := ne_now n\<rparr>"
    using Inr rm by (auto simp: doMappingRequest_def split: option.splits if_splits sum.splits prod.splits)
  obtain bytes err where body: "rs_body resp = (bytes, err)" by fastforce
  let ?max = "maxCompressedMappingBytes"
  have whole: "(read_limited (?max + 1) (bytes, err) = Inr data \<and> length data \<le> ?max)
      \<longleftrightarrow> bytes = data \<and> err = None \<and> length data \<le> ?max" for data
    by (auto simp: read_limited_def split: option.splits)
  have "fetch_mapping md5 n url = Inr (data, meta) \<longleftrightarrow>
      read_limited (?max + 1) (bytes, err) = Inr data \<and> length data \<le> ?max
      \<and> (if rs_md5 resp = [] then meta = meta0
         else b64_decode (rs_md5 resp) = Some (md5 data) \<and> meta = meta0\<lparr>MD5 := hex_encode (md5 data)\<rparr>)"
    by (auto simp: fetch_mapping_def Inr rm body Let_def hex_encode_fold split: sum.splits option.splits if_splits)
  then show ?thesis
    using whole [of data] unfolding Inr rm
    by (auto simp: body meta0 maxCompressedMappingBytes_def zero_metadata_def)
qed

text \<open>Whatever the wrapped reader gives within the buffer it gets, no more than the limit is read.\<close>

lemma limit_read_bound:
  assumes "limit_read give plen r = Some (n, r')" "\<And>p. 0 \<le> p \<Longrightarrow> 0 \<le> give p \<and> give p \<le> p" "0 \<le> plen"
  shows "lr_read r \<le> lr_read r' \<and> lr_read r' \<le> lr_limit r' \<and> lr_limit r' = lr_limit r"
  using assms(1,3) assms(2) [of plen] assms(2) [of "lr_limit r - lr_read r"]
  by (auto simp: limit_read_def Let_def split: if_splits)

end
