(* ===== verification/Byte_Readers.thy ===== *)
theory Byte_Readers
  imports Bridge_Prelude
begin

text \<open>
  Readers as the mapping loader stacks them: the file, download or decoder at the bottom, the \<open>contextReader\<close> of
  \<open>internal/mapping/loader.go\<close> and the \<open>limitReader\<close> of \<open>internal/mapping/anibridge.go\<close> around it, and the loop that
  reads one to its end (\<open>io.CopyBuffer\<close>, or the refills of a decoder). A read may give fewer bytes than asked for,
  none at all, or the last bytes together with the end.
\<close>

section \<open>Readers\<close>

datatype read_err = EndOfFile | Broken string | Ended ctx_err

text \<open>
  The bottom of the stack: the bytes to come, the sizes of the next reads where they are short, the bytes after which
  a read fails, if one does, and whether the last bytes come with the end.
\<close>

record source =
  sr_bytes :: string
  sr_sizes :: "nat list"
  sr_fault :: "(nat \<times> string) option"
  sr_together :: bool

text \<open>
  A context is how many looks at it find it alive, and what it gives then; \<open>None\<close> is one that does not end.
  A limit goes with the number of bytes read so far.
\<close>

datatype reader =
    Source source
  | Limited nat nat reader
  | WithCtx "(nat \<times> ctx_err) option" reader

fun read_size :: "nat \<Rightarrow> source \<Rightarrow> nat" where
  "read_size n s =
     min (case sr_sizes s of [] \<Rightarrow> n | k # _ \<Rightarrow> min k n)
       (case sr_fault s of None \<Rightarrow> n | Some (j, _) \<Rightarrow> j)"

definition source_read :: "nat \<Rightarrow> source \<Rightarrow> (string \<times> read_err option) \<times> source" where
  "source_read n s =
     (case sr_fault s of
        Some (0, x) \<Rightarrow> (([], Some (Broken x)), s)
      | _ \<Rightarrow>
          if sr_bytes s = [] then (([], Some EndOfFile), s)
          else
            (let bs = take (read_size n s) (sr_bytes s);
                 s' = s\<lparr>sr_bytes := drop (read_size n s) (sr_bytes s), sr_sizes := tl (sr_sizes s),
                   sr_fault := map_option (\<lambda>(j, x). (j - length bs, x)) (sr_fault s)\<rparr>
             in ((bs, if sr_bytes s' = [] \<and> sr_together s \<and> sr_fault s = None then Some EndOfFile else None), s')))"

fun read :: "nat \<Rightarrow> reader \<Rightarrow> (string \<times> read_err option) \<times> reader" where
  "read n (Source s) = (case source_read n s of (r, s') \<Rightarrow> (r, Source s'))"
| "read n (Limited limit got r) =
     (if limit \<le> got then (([], Some (Broken ''decoded anibridge mapping exceeds the limit'')), Limited limit got r)
      else (case read (if limit - got < n then limit - got else n) r of
              ((bs, e), r') \<Rightarrow> ((bs, e), Limited limit (got + length bs) r')))"
| "read n (WithCtx None r) = (case read n r of (res, r') \<Rightarrow> (res, WithCtx None r'))"
| "read n (WithCtx (Some (0, c)) r) = (([], Some (Ended c)), WithCtx (Some (0, c)) r)"
| "read n (WithCtx (Some (Suc 0, c)) r) =
     (case read n r of ((bs, _), r') \<Rightarrow> ((bs, Some (Ended c)), WithCtx (Some (0, c)) r'))"
| "read n (WithCtx (Some (Suc (Suc k), c)) r) = (case read n r of (res, r') \<Rightarrow> (res, WithCtx (Some (k, c)) r'))"

text \<open>All the bytes below a reader, those it can give, and the reads they can take.\<close>

fun whole :: "reader \<Rightarrow> string" where
  "whole (Source s) = sr_bytes s"
| "whole (Limited limit got r) = whole r"
| "whole (WithCtx c r) = whole r"

fun avail :: "reader \<Rightarrow> string" where
  "avail (Source s) = (case sr_fault s of None \<Rightarrow> sr_bytes s | Some (j, _) \<Rightarrow> take j (sr_bytes s))"
| "avail (Limited limit got r) = take (limit - got) (avail r)"
| "avail (WithCtx c r) = avail r"

fun pending :: "reader \<Rightarrow> nat" where
  "pending (Source s) = length (sr_bytes s) + length (sr_sizes s)"
| "pending (Limited limit got r) = pending r"
| "pending (WithCtx c r) = pending r"

text \<open>A reader whose context, if it has one, does not end.\<close>

fun lasting :: "reader \<Rightarrow> bool" where
  "lasting (Source s) = True"
| "lasting (Limited limit got r) = lasting r"
| "lasting (WithCtx c r) = (c = None \<and> lasting r)"

section \<open>What one read does\<close>

lemma source_read_whole: "source_read n s = ((bs, e), s') \<Longrightarrow> sr_bytes s = bs @ sr_bytes s'"
  by (auto simp: source_read_def Let_def split: option.splits nat.splits if_splits)

lemma take_apart: "n \<le> m \<Longrightarrow> take m xs = take n xs @ take (m - n) (drop n xs)"
  using take_add [of n "m - n" xs] by simp

lemma source_read_avail: "source_read n s = ((bs, e), s') \<Longrightarrow> avail (Source s) = bs @ avail (Source s')"
  by (auto simp: source_read_def Let_def min_def split: option.splits nat.splits if_splits list.splits)
    (rule take_apart, simp)+

lemma source_read_end:
  "source_read n s = ((bs, Some e), s') \<Longrightarrow> avail (Source s') = [] \<and> (e = EndOfFile \<longrightarrow> sr_bytes s' = [])"
  by (auto simp: source_read_def Let_def split: option.splits nat.splits if_splits)

lemma source_read_pending:
  "source_read n s = ((bs, None), s') \<Longrightarrow> 0 < n \<Longrightarrow> pending (Source s') < pending (Source s)"
  by (auto simp: source_read_def Let_def min_def split: option.splits nat.splits if_splits list.splits)

lemma source_read_length: "source_read n s = ((bs, e), s') \<Longrightarrow> length bs \<le> n"
  by (auto simp: source_read_def Let_def split: option.splits nat.splits if_splits list.splits)

lemma read_length: "read n r = ((bs, e), r') \<Longrightarrow> length bs \<le> n"
proof (induction n r arbitrary: bs e r' rule: read.induct)
  case (1 n s)
  then show ?case by (auto split: prod.splits dest: source_read_length)
qed (fastforce split: if_splits prod.splits)+

lemma read_whole: "read n r = ((bs, e), r') \<Longrightarrow> whole r = bs @ whole r'"
proof (induction n r arbitrary: bs e r' rule: read.induct)
  case (1 n s)
  then show ?case by (auto split: prod.splits dest: source_read_whole)
qed (auto split: if_splits prod.splits)

lemma read_avail: "read n r = ((bs, e), r') \<Longrightarrow> avail r = bs @ avail r'"
proof (induction n r arbitrary: bs e r' rule: read.induct)
  case (1 n s)
  then show ?case by (auto simp del: avail.simps split: prod.splits dest: source_read_avail)
next
  case (2 n limit got r)
  show ?case
  proof (cases "limit \<le> got")
    case False
    with "2.prems" obtain r1 where rd: "read (if limit - got < n then limit - got else n) r = ((bs, e), r1)"
      and r': "r' = Limited limit (got + length bs) r1" by (auto split: prod.splits)
    have "length bs \<le> limit - got" using read_length [OF rd] by (auto split: if_splits)
    then show ?thesis using "2.IH" [OF False rd] by (simp add: r')
  qed (use "2.prems" in auto)
qed (auto split: prod.splits)

lemma read_eof: "read n r = ((bs, Some EndOfFile), r') \<Longrightarrow> whole r' = []"
proof (induction n r arbitrary: bs r' rule: read.induct)
  case (1 n s)
  then show ?case by (auto split: prod.splits dest: source_read_end)
qed (auto split: if_splits prod.splits)

lemma read_lasting: "read n r = ((bs, e), r') \<Longrightarrow> lasting r \<Longrightarrow> lasting r'"
  by (induction n r arbitrary: bs e r' rule: read.induct) (auto split: if_splits prod.splits)

lemma read_end: "read n r = ((bs, Some e), r') \<Longrightarrow> lasting r \<Longrightarrow> avail r' = []"
proof (induction n r arbitrary: bs e r' rule: read.induct)
  case (1 n s)
  then show ?case by (auto simp del: avail.simps split: prod.splits dest: source_read_end)
qed (auto split: if_splits prod.splits)

lemma read_pending: "read n r = ((bs, None), r') \<Longrightarrow> 0 < n \<Longrightarrow> pending r' < pending r"
proof (induction n r arbitrary: bs r' rule: read.induct)
  case (1 n s)
  then show ?case by (auto simp del: pending.simps split: prod.splits dest: source_read_pending)
qed (auto split: if_splits prod.splits)

section \<open>Reading to the end\<close>

text \<open>
  The bytes read and the error that ended it; the buffer of the \<open>k\<close>th read has the given size, and an empty one
  is refused.
\<close>

function drain :: "(nat \<Rightarrow> nat) \<Rightarrow> nat \<Rightarrow> string \<Rightarrow> reader \<Rightarrow> string \<times> read_err" where
  "drain buf k acc r =
     (if buf k = 0 then (acc, Broken ''empty buffer'')
      else (case read (buf k) r of
              ((bs, None), r') \<Rightarrow> drain buf (Suc k) (acc @ bs) r'
            | ((bs, Some e), r') \<Rightarrow> (acc @ bs, e)))"
  by pat_completeness auto
termination
  by (relation "measure (\<lambda>(buf, k, acc, r). pending r)") (auto intro: read_pending [OF sym])

declare drain.simps [simp del]

lemma drain_more:
  assumes "0 < buf k" "read (buf k) r = ((bs, None), r')"
  shows "drain buf k acc r = drain buf (Suc k) (acc @ bs) r'"
  using assms by (simp add: drain.simps [of buf k acc r])

lemma drain_end:
  assumes "0 < buf k" "read (buf k) r = ((bs, Some e), r')"
  shows "drain buf k acc r = (acc @ bs, e)"
  using assms by (simp add: drain.simps [of buf k acc r])

lemma drain_induct [consumes 1, case_names more stop]:
  assumes "\<forall>k. 0 < buf k"
    and "\<And>k r bs r'. read (buf k) r = ((bs, None), r') \<Longrightarrow> P (Suc k) r' \<Longrightarrow> P k r"
    and "\<And>k r bs e r'. read (buf k) r = ((bs, Some e), r') \<Longrightarrow> P k r"
  shows "P k r"
proof (induction "pending r" arbitrary: k r rule: less_induct)
  case less
  obtain bs e r' where rd: "read (buf k) r = ((bs, e), r')" by (metis surj_pair)
  then show ?case
    using assms(2) [of k r bs r'] assms(3) [of k r bs] less [of r'] read_pending [of "buf k" r bs r'] spec [OF assms(1), of k]
    by (cases e) auto
qed

text \<open>Reading to the end gives a prefix of the bytes, and all of them when it ends with the end of the file.\<close>

lemma drain_whole:
  assumes "\<forall>k. 0 < buf k" "drain buf k acc r = (out, e)"
  shows "\<exists>rest. acc @ whole r = out @ rest \<and> (e = EndOfFile \<longrightarrow> rest = [])"
  using assms
proof (induction k r arbitrary: acc rule: drain_induct)
  case (more k r bs r')
  then show ?case
    using more(2) [of "acc @ bs"] drain_more [of buf k r bs r' acc] assms(1) read_whole [OF more(1)] by simp
next
  case (stop k r bs e' r')
  then show ?case using drain_end [of buf k r bs e' r' acc] stop(1) assms(1) read_whole [OF stop(1)] read_eof [of "buf k" r bs r'] by auto
qed

text \<open>Where no context ends, reading to the end gives all the bytes the reader can give.\<close>

lemma drain_avail:
  assumes "\<forall>k. 0 < buf k" "lasting r"
  shows "fst (drain buf k acc r) = acc @ avail r"
  using assms
proof (induction k r arbitrary: acc rule: drain_induct)
  case (more k r bs r')
  then show ?case
    using drain_more [of buf k r bs r' acc] more(1) assms(1) read_avail [OF more(1)] read_lasting [OF more(1)] by simp
next
  case (stop k r bs e r')
  then show ?case
    using drain_end [of buf k r bs e r' acc] stop(1) assms(1) read_avail [OF stop(1)] read_end [OF stop(1)] by simp
qed

text \<open>
  Behind a limit, with nothing cancelled: fewer bytes than the limit end as the source ends, and more of them end in an error.
\<close>

definition source_end :: "source \<Rightarrow> read_err" where
  "source_end s =
     (case sr_fault s of
        None \<Rightarrow> EndOfFile
      | Some (j, x) \<Rightarrow> if j \<le> length (sr_bytes s) then Broken x else EndOfFile)"

lemma source_read_source_end:
  "source_read n s = ((bs, None), s') \<Longrightarrow> source_end s' = source_end s"
  "source_read n s = ((bs, Some e), s') \<Longrightarrow> e = source_end s"
  by (auto simp: source_read_def source_end_def Let_def simp del: length_0_conv split: option.splits nat.splits if_splits)

lemma drain_limit:
  assumes "\<forall>k. 0 < buf k" "r = Limited limit got (Source s)" "got \<le> limit"
  shows "(length (avail (Source s)) < limit - got \<longrightarrow> snd (drain buf k acc r) = source_end s)
    \<and> (limit - got < length (avail (Source s)) \<longrightarrow> (\<exists>x. snd (drain buf k acc r) = Broken x))"
  using assms
proof (induction k r arbitrary: acc got s rule: drain_induct)
  case (more k r bs r')
  then obtain s' where rd: "source_read (if limit - got < buf k then limit - got else buf k) s = ((bs, None), s')"
    and r': "r' = Limited limit (got + length bs) (Source s')" and lt: "got < limit"
    by (auto split: prod.splits if_splits)
  have "length bs \<le> limit - got" using source_read_length [OF rd] by (auto split: if_splits)
  then show ?case
    using more(2) [OF r', of "acc @ bs"] drain_more [of buf k r bs r' acc] more(1) assms(1) lt
      source_read_avail [OF rd] source_read_source_end(1) [OF rd] by simp
next
  case (stop k r bs e r')
  show ?case
  proof (cases "limit \<le> got")
    case True
    then show ?thesis using stop drain_end [of buf k r bs e r' acc] stop(1) assms(1) by auto
  next
    case False
    with stop obtain s' where rd: "source_read (if limit - got < buf k then limit - got else buf k) s = ((bs, Some e), s')"
      by (auto split: prod.splits if_splits)
    have "length bs \<le> limit - got" using source_read_length [OF rd] by (auto split: if_splits)
    moreover have "avail (Source s) = bs" using source_read_avail [OF rd] source_read_end [OF rd] by simp
    ultimately show ?thesis
      using drain_end [of buf k r bs e r' acc] stop(1) assms(1) source_read_source_end(2) [OF rd] by simp
  qed
qed

lemma drain_limited:
  assumes "\<forall>k. 0 < buf k" "length (avail (Source s)) < limit"
  shows "drain buf k [] (Limited limit 0 (Source s)) = (avail (Source s), source_end s)"
  using drain_limit [OF assms(1) refl, of 0 limit s k "[]"] drain_avail [OF assms(1), of "Limited limit 0 (Source s)" k "[]"] assms(2)
  by (cases "drain buf k [] (Limited limit 0 (Source s))") simp

text \<open>A context that does not end changes nothing, and a source alone is read as far as it ends.\<close>

lemma drain_alive:
  assumes "\<forall>k. 0 < buf k"
  shows "drain buf k acc (WithCtx None r) = drain buf k acc r"
  using assms
proof (induction k r arbitrary: acc rule: drain_induct)
  case (more k r bs r')
  then show ?case
    using drain_more [of buf k r bs r' acc] drain_more [of buf k "WithCtx None r" bs "WithCtx None r'" acc] assms by simp
next
  case (stop k r bs e r')
  then show ?case
    using drain_end [of buf k r bs e r' acc] drain_end [of buf k "WithCtx None r" bs e "WithCtx None r'" acc] assms by simp
qed

lemma drain_source:
  assumes "\<forall>k. 0 < buf k"
  shows "drain buf k acc (Source s) = (acc @ avail (Source s), source_end s)"
proof -
  have "snd (drain buf k acc r) = source_end s" if "r = Source s" for r
    using assms that
  proof (induction k r arbitrary: acc s rule: drain_induct)
    case (more k r bs r')
    then obtain s' where rd: "source_read (buf k) s = ((bs, None), s')" and r': "r' = Source s'" by (auto split: prod.splits)
    then show ?case
      using more(2) [OF r', of "acc @ bs"] drain_more [of buf k r bs r' acc] more(1) assms source_read_source_end(1) [OF rd] by simp
  next
    case (stop k r bs e r')
    then obtain s' where rd: "source_read (buf k) s = ((bs, Some e), s')" by (auto split: prod.splits)
    then show ?case
      using drain_end [of buf k r bs e r' acc] stop(1) assms source_read_source_end(2) [OF rd] by simp
  qed
  from this [OF refl] drain_avail [OF assms, of "Source s" k acc] show ?thesis
    by (metis lasting.simps(1) prod.collapse)
qed

text \<open>A context that ends after a number of looks leaves room for half as many reads.\<close>

lemma drain_ended:
  assumes "\<forall>k. 0 < buf k \<and> buf k \<le> n" "r = WithCtx (Some (i, c)) r0"
  shows "length (fst (drain buf k acc r)) \<le> length acc + n * Suc (i div 2)"
proof -
  have pos: "\<forall>k. 0 < buf k" using assms(1) by simp
  then show ?thesis
    using assms(2)
  proof (induction k r arbitrary: acc i r0 rule: drain_induct)
    case (more k r bs r')
    obtain i' where i: "i = Suc (Suc i')"
      using more(1,3) by (cases "(k, WithCtx (Some (i, c)) r0)" rule: read.cases) (auto split: prod.splits)
    then obtain r1 where r': "r' = WithCtx (Some (i', c)) r1" using more(1,3) by (auto split: prod.splits)
    have "length bs \<le> n" using read_length [OF more(1)] assms(1) le_trans by blast
    then show ?case
      using more(2) [OF r', of "acc @ bs"] drain_more [of buf k r bs r' acc] more(1) pos i by simp
  next
    case (stop k r bs e r')
    have "length bs \<le> n" using read_length [OF stop(1)] assms(1) le_trans by blast
    then show ?case using drain_end [of buf k r bs e r' acc] stop(1) pos by (simp add: trans_le_add1)
  qed
qed

end
