(* ===== verification/Http_Writer.thy ===== *)
theory Http_Writer
  imports Config_Load
begin

text \<open>
  Responses and the middleware of \<open>cmd/server/main.go\<close>: the tracking writer \<open>statusResponseWriter\<close> over the
  writer of \<open>net/http\<close>, \<open>writeJSON\<close>, \<open>methodNotAllowed\<close>, \<open>debugHandler\<close>, \<open>recoveryMiddleware\<close> and
  \<open>loggingMiddleware\<close>, with what the bodies need of \<open>encoding/json\<close>. The log line of a request is part of
  the result; its duration is an input.
\<close>

section \<open>The writer\<close>

text \<open>
  The wrapped writer has sent a status with the headers of that moment, or nothing yet, and body
  bytes. \<open>rw_fails\<close> says how a write ends when the connection is gone: bytes still taken, and the error.
\<close>

record writer =
  rw_headers :: "(string, string) gomap"
  rw_sent :: "(int \<times> (string, string) gomap) option"
  rw_body :: string
  rw_fails :: "(nat \<times> string) option"
  rw_status :: int
  rw_wroteHeader :: bool
  rw_writeErr :: "string option"

text \<open>As \<open>loggingMiddleware\<close> makes it.\<close>

definition new_writer :: "(nat \<times> string) option \<Rightarrow> writer" where
  "new_writer fails = \<lparr>rw_headers = [], rw_sent = None, rw_body = [], rw_fails = fails, rw_status = 200,
     rw_wroteHeader = False, rw_writeErr = None\<rparr>"

definition send_header :: "int \<Rightarrow> writer \<Rightarrow> writer" where
  "send_header code w = (case rw_sent w of None \<Rightarrow> w\<lparr>rw_sent := Some (code, rw_headers w)\<rparr> | Some _ \<Rightarrow> w)"

definition WriteHeader :: "int \<Rightarrow> writer \<Rightarrow> writer" where
  "WriteHeader code w =
     (if rw_wroteHeader w then w else send_header code (w\<lparr>rw_status := code, rw_wroteHeader := True\<rparr>))"

definition Write :: "string \<Rightarrow> writer \<Rightarrow> writer" where
  "Write data w =
     (let w1 = (if \<not> rw_wroteHeader w then WriteHeader 200 w else w)
      in case rw_fails w1 of
           None \<Rightarrow> w1\<lparr>rw_body := rw_body w1 @ data\<rparr>
         | Some (n, e) \<Rightarrow> w1\<lparr>rw_body := rw_body w1 @ take n data, rw_writeErr := Some e\<rparr>)"

definition set_header :: "string \<Rightarrow> string \<Rightarrow> writer \<Rightarrow> writer" where
  "set_header k v w = w\<lparr>rw_headers := mput k v (rw_headers w)\<rparr>"

text \<open>\<open>http.Error\<close>\<close>

definition http_Error :: "string \<Rightarrow> int \<Rightarrow> writer \<Rightarrow> writer" where
  "http_Error msg code w =
     Write (msg @ [CHR 0x0A])
       (WriteHeader code (set_header ''X-Content-Type-Options'' ''nosniff''
          (set_header ''Content-Type'' ''text/plain; charset=utf-8'' w)))"

definition writeJSON :: "int \<Rightarrow> string \<Rightarrow> writer \<Rightarrow> writer" where
  "writeJSON status data w = Write data (WriteHeader status (set_header ''Content-Type'' ''application/json'' w))"

definition methodNotAllowed :: "string \<Rightarrow> writer \<Rightarrow> writer" where
  "methodNotAllowed allow w = http_Error ''method not allowed'' 405 (set_header ''Allow'' allow w)"

section \<open>JSON\<close>

text \<open>
  \<open>json.Marshal\<close> on a string: the escapes of ASCII bytes (HTML ones included), the line separators U+2028
  and U+2029, and the replacement of bytes that are not UTF-8.
\<close>

definition cont :: "nat \<Rightarrow> bool" where
  "cont b \<longleftrightarrow> 0x80 \<le> b \<and> b \<le> 0xBF"

fun utf8_size :: "nat list \<Rightarrow> nat" where
  "utf8_size (a # b # c # d # bs) =
     (if 0xC2 \<le> a \<and> a \<le> 0xDF \<and> cont b then 2
      else if (a = 0xE0 \<and> 0xA0 \<le> b \<and> b \<le> 0xBF \<or> a = 0xED \<and> 0x80 \<le> b \<and> b \<le> 0x9F
               \<or> (0xE1 \<le> a \<and> a \<le> 0xEF \<and> a \<noteq> 0xED) \<and> cont b) \<and> cont c then 3
      else if (a = 0xF0 \<and> 0x90 \<le> b \<and> b \<le> 0xBF \<or> a = 0xF4 \<and> 0x80 \<le> b \<and> b \<le> 0x8F
               \<or> (0xF1 \<le> a \<and> a \<le> 0xF3) \<and> cont b) \<and> cont c \<and> cont d then 4
      else 0)"
| "utf8_size [a, b, c] =
     (if 0xC2 \<le> a \<and> a \<le> 0xDF \<and> cont b then 2
      else if (a = 0xE0 \<and> 0xA0 \<le> b \<and> b \<le> 0xBF \<or> a = 0xED \<and> 0x80 \<le> b \<and> b \<le> 0x9F
               \<or> (0xE1 \<le> a \<and> a \<le> 0xEF \<and> a \<noteq> 0xED) \<and> cont b) \<and> cont c then 3
      else 0)"
| "utf8_size [a, b] = (if 0xC2 \<le> a \<and> a \<le> 0xDF \<and> cont b then 2 else 0)"
| "utf8_size _ = 0"

definition json_hex :: "nat \<Rightarrow> char" where
  "json_hex d = (if d < 10 then char_of (d + 48) else char_of (d + 87))"

definition json_ascii :: "char \<Rightarrow> string" where
  "json_ascii c =
     (let b = of_char c :: nat in
      if c = CHR 0x5C \<or> c = CHR 0x22 then [CHR 0x5C, c]
      else if b = 8 then CHR 0x5C # ''b''
      else if b = 12 then CHR 0x5C # ''f''
      else if b = 10 then CHR 0x5C # ''n''
      else if b = 13 then CHR 0x5C # ''r''
      else if b = 9 then CHR 0x5C # ''t''
      else if b < 32 \<or> c = CHR ''<'' \<or> c = CHR ''>'' \<or> c = CHR ''&'' then CHR 0x5C # ''u00'' @ [json_hex (b div 16), json_hex (b mod 16)]
      else [c])"

function json_chars :: "string \<Rightarrow> string" where
  "json_chars [] = []"
| "json_chars (c # cs) =
     (if (of_char c :: nat) < 128 then json_ascii c @ json_chars cs
      else (let n = utf8_size (map of_char (c # cs)) in
            if n = 0 then CHR 0x5C # ''ufffd'' @ json_chars cs
            else if take 3 (c # cs) = [CHR 0xE2, CHR 0x80, CHR 0xA8] then CHR 0x5C # ''u2028'' @ json_chars (drop 2 cs)
            else if take 3 (c # cs) = [CHR 0xE2, CHR 0x80, CHR 0xA9] then CHR 0x5C # ''u2029'' @ json_chars (drop 2 cs)
            else take n (c # cs) @ json_chars (drop (n - 1) cs)))"
  by pat_completeness auto
termination
  by (relation "measure length") auto

definition json_string :: "string \<Rightarrow> string" where
  "json_string s = CHR 0x22 # json_chars s @ [CHR 0x22]"

text \<open>An object of the given members, and an array.\<close>

definition json_object :: "(string \<times> string) list \<Rightarrow> string" where
  "json_object kvs = ''{'' @ join (CHR '','') (map (\<lambda>(k, v). json_string k @ CHR '':'' # v) kvs) @ ''}''"

definition json_array :: "string list \<Rightarrow> string" where
  "json_array vs = ''['' @ join (CHR '','') vs @ '']''"

section \<open>Requests and handlers\<close>

text \<open>What the handlers read of a request; the query as \<open>url.Values.Get\<close>.\<close>

record request =
  rq_Method :: string
  rq_Path :: string
  rq_Query :: "string \<Rightarrow> string"
  rq_Authorization :: string

record log_metadata =
  lm_season :: string
  lm_year :: int
  lm_category :: string
  lm_resultCount :: int
  lm_resultCountSet :: bool
  lm_cacheState :: string
  lm_outcome :: string
  lm_reason :: string
  lm_refreshScheduled :: bool
  lm_winterBackfill :: bool

definition no_metadata :: log_metadata where
  "no_metadata = \<lparr>lm_season = [], lm_year = 0, lm_category = [], lm_resultCount = 0, lm_resultCountSet = False,
     lm_cacheState = [], lm_outcome = [], lm_reason = [], lm_refreshScheduled = False, lm_winterBackfill = False\<rparr>"

text \<open>What a handler has done: whether it panicked, the writer, the metadata, and the rest of the state.\<close>

type_synonym 's handled = "bool \<times> writer \<times> log_metadata \<times> 's"
type_synonym 's handler = "request \<Rightarrow> writer \<Rightarrow> log_metadata \<Rightarrow> 's \<Rightarrow> 's handled"

definition authorizedDebugRequest :: "config option \<Rightarrow> request \<Rightarrow> bool" where
  "authorizedDebugRequest cfg rq =
     (case cfg of
        None \<Rightarrow> False
      | Some cf \<Rightarrow>
          if \<not> DebugEndpointsEnabled cf then False
          else if AdminToken cf = [] then True
          else rq_Authorization rq = ''Bearer '' @ AdminToken cf)"

text \<open>\<open>allow\<close> is the list the code writes with a comma and a blank between the methods.\<close>

definition allow_text :: "string list \<Rightarrow> string" where
  "allow_text ms = concat (case ms of [] \<Rightarrow> [] | m # rest \<Rightarrow> m # map (\<lambda>x. '', '' @ x) rest)"

definition debugHandler :: "config option \<Rightarrow> string list \<Rightarrow> 's handler \<Rightarrow> 's handler" where
  "debugHandler cfg allow nxt rq w m s =
     (if \<not> List.member allow (rq_Method rq) then (False, methodNotAllowed (allow_text allow) w, m, s)
      else if \<not> authorizedDebugRequest cfg rq then (False, http_Error ''not found'' 404 w, m, s)
      else nxt rq w m s)"

section \<open>Middleware\<close>

definition recoveryMiddleware :: "'s handler \<Rightarrow> 's handler" where
  "recoveryMiddleware nxt rq w m s =
     (case nxt rq w m s of
        (panicked, w1, m1, s1) \<Rightarrow>
          if panicked
          then (False, if \<not> rw_wroteHeader w1 then WriteHeader 500 w1 else w1,
                m1\<lparr>lm_outcome := ''failed'', lm_reason := ''panic''\<rparr>, s1)
          else (False, w1, m1, s1))"

datatype attr = AStr string | AInt int | ABool bool

datatype log_level = LevelDebug | LevelInfo | LevelWarn | LevelError

type_synonym log_line = "log_level \<times> string \<times> (string \<times> attr) list"

definition request_outcome :: "writer \<Rightarrow> log_metadata \<Rightarrow> string" where
  "request_outcome w m =
     (if 400 \<le> rw_status w \<or> rw_writeErr w \<noteq> None then ''failed''
      else if lm_outcome m = [] then ''succeeded'' else lm_outcome m)"

definition request_attrs :: "string \<Rightarrow> string \<Rightarrow> int \<Rightarrow> writer \<Rightarrow> log_metadata \<Rightarrow> (string \<times> attr) list" where
  "request_attrs meth route ms w m =
     [(''type'', AStr ''http''), (''task'', AStr ''request''), (''method'', AStr meth), (''route'', AStr route),
      (''status'', AInt (rw_status w)), (''duration_ms'', AInt ms), (''outcome'', AStr (request_outcome w m))]
     @ (case rw_writeErr w of
          Some e \<Rightarrow> [(''reason'', AStr ''response_write_failed''), (''error'', AStr e)]
        | None \<Rightarrow> if lm_reason m \<noteq> [] then [(''reason'', AStr (lm_reason m))] else [])
     @ (if lm_refreshScheduled m then [(''refresh_scheduled'', ABool True)] else [])
     @ (if lm_winterBackfill m then [(''winter_backfill_scheduled'', ABool True)] else [])
     @ (if lm_season m \<noteq> [] then [(''season'', AStr (lm_season m))] else [])
     @ (if lm_year m \<noteq> 0 then [(''year'', AInt (lm_year m))] else [])
     @ (if lm_category m \<noteq> [] then [(''category'', AStr (lm_category m))] else [])
     @ (if lm_resultCountSet m then [(''result_count'', AInt (lm_resultCount m))] else [])
     @ (if lm_cacheState m \<noteq> [] then [(''cache_state'', AStr (lm_cacheState m))] else [])"

text \<open>
  The mux: the pattern and handler of a path, or its 404 (paths it would redirect are not in the model). The
  result of a request: the writer, the log line if one is written, and the state; a panic that reaches
  \<open>net/http\<close> logs nothing here.
\<close>

definition mux :: "(string \<times> 's handler) list \<Rightarrow> 's handler" where
  "mux routes rq w m s =
     (case map_of routes (rq_Path rq) of
        None \<Rightarrow> (False, http_Error ''404 page not found'' 404 w, m, s)
      | Some h \<Rightarrow> h rq w m s)"

definition loggingMiddleware ::
    "(string \<Rightarrow> string) \<Rightarrow> int \<Rightarrow> (nat \<times> string) option \<Rightarrow> 's handler \<Rightarrow> request \<Rightarrow> 's \<Rightarrow>
     (writer \<times> log_line option \<times> 's) option" where
  "loggingMiddleware pattern ms fails nxt rq s =
     (case nxt rq (new_writer fails) no_metadata s of
        (True, _) \<Rightarrow> None
      | (False, w, m, s1) \<Rightarrow>
          (let route = (if pattern (rq_Path rq) = [] then ''unknown'' else pattern (rq_Path rq));
               attrs = request_attrs (rq_Method rq) route ms w m
           in Some (w,
                (if request_outcome w m \<noteq> ''succeeded'' then Some (LevelWarn, ''request completed'', attrs)
                 else if route \<noteq> ''/health'' then Some (LevelInfo, ''request completed'', attrs)
                 else None), s1)))"

definition serve ::
    "(string \<times> 's handler) list \<Rightarrow> int \<Rightarrow> (nat \<times> string) option \<Rightarrow> request \<Rightarrow> 's \<Rightarrow>
     (writer \<times> log_line option \<times> 's) option" where
  "serve routes ms fails =
     loggingMiddleware (\<lambda>p. if map_of routes p = None then [] else p) ms fails (recoveryMiddleware (mux routes))"

section \<open>The contract of a handler\<close>

text \<open>The tracked status is the one that was sent.\<close>

definition writer_ok :: "writer \<Rightarrow> bool" where
  "writer_ok w \<longleftrightarrow>
     (case rw_sent w of
        None \<Rightarrow> \<not> rw_wroteHeader w \<and> rw_status w = 200 \<and> rw_body w = [] \<and> rw_writeErr w = None
      | Some (code, hs) \<Rightarrow> rw_wroteHeader w \<and> rw_status w = code)"

definition untouched :: "writer \<Rightarrow> bool" where
  "untouched w \<longleftrightarrow> writer_ok w \<and> rw_sent w = None"

lemma new_writer_ok [simp, intro]: "untouched (new_writer fails)" "writer_ok (new_writer fails)"
  by (simp_all add: untouched_def writer_ok_def new_writer_def)

lemma WriteHeader_ok [simp]: "writer_ok w \<Longrightarrow> writer_ok (WriteHeader code w)"
  by (auto simp: writer_ok_def WriteHeader_def send_header_def split: option.splits)

lemma Write_ok [simp]: "writer_ok w \<Longrightarrow> writer_ok (Write data w)"
  by (auto simp: writer_ok_def Write_def WriteHeader_def send_header_def Let_def split: option.splits)

lemma set_header_ok [simp]: "writer_ok (set_header k v w) = writer_ok w" "untouched (set_header k v w) = untouched w"
  by (auto simp: writer_ok_def untouched_def set_header_def split: option.splits)

lemma set_header_fields [simp]:
  "rw_sent (set_header k v w) = rw_sent w" "rw_wroteHeader (set_header k v w) = rw_wroteHeader w"
  "rw_headers (set_header k v w) = mput k v (rw_headers w)" "rw_body (set_header k v w) = rw_body w"
  "rw_fails (set_header k v w) = rw_fails w"
  by (simp_all add: set_header_def)

lemma responses_ok [simp]:
  "writer_ok w \<Longrightarrow> writer_ok (http_Error msg code w)" "writer_ok w \<Longrightarrow> writer_ok (writeJSON code data w)"
  "writer_ok w \<Longrightarrow> writer_ok (methodNotAllowed allow w)"
  by (simp_all add: http_Error_def writeJSON_def methodNotAllowed_def)

text \<open>What a response on an untouched writer sends.\<close>

definition sent_status :: "writer \<Rightarrow> int option" where
  "sent_status w = map_option fst (rw_sent w)"

lemma write_response:
  assumes "untouched w"
  shows "rw_sent (Write data (WriteHeader code w)) = Some (code, rw_headers w)"
    and "rw_fails w = None \<Longrightarrow> rw_body (Write data (WriteHeader code w)) = data"
    and "rw_fails (Write data (WriteHeader code w)) = rw_fails w"
  using assms by (auto simp: untouched_def writer_ok_def Write_def WriteHeader_def send_header_def Let_def split: option.splits)

lemma response_status [simp]:
  assumes "untouched w"
  shows "sent_status (http_Error msg code w) = Some code" "sent_status (writeJSON code data w) = Some code"
    "sent_status (methodNotAllowed allow w) = Some 405" "sent_status (WriteHeader code w) = Some code"
    "sent_status w = None"
  using assms by (simp_all add: sent_status_def http_Error_def writeJSON_def methodNotAllowed_def write_response)
    (auto simp: untouched_def writer_ok_def WriteHeader_def send_header_def)

lemma response_body [simp]:
  assumes "untouched w" "rw_fails w = None"
  shows "rw_body (writeJSON code data w) = data" "rw_body (http_Error msg code w) = msg @ [CHR 0x0A]"
  using assms by (simp_all add: http_Error_def writeJSON_def write_response)

lemma response_fails [simp]:
  "rw_fails (WriteHeader code w) = rw_fails w" "rw_fails (Write data w) = rw_fails w"
  "rw_fails (writeJSON code data w) = rw_fails w" "rw_fails (http_Error msg code w) = rw_fails w"
  by (auto simp: http_Error_def writeJSON_def Write_def WriteHeader_def send_header_def Let_def split: option.splits)

text \<open>
  The contract of the routes: handlers write through the writer's methods and keep the invariant of the
  state, also when they panic.
\<close>

locale web_server =
  fixes routes :: "(string \<times> 's handler) list"
    and ok :: "'s \<Rightarrow> bool"
  assumes keeps: "(p, h) \<in> set routes \<Longrightarrow> ok s \<Longrightarrow> untouched w \<Longrightarrow> h rq w m s = (panicked, w', m', s') \<Longrightarrow>
    writer_ok w' \<and> ok s'"
begin

lemma mux_keeps: "ok s \<Longrightarrow> untouched w \<Longrightarrow> mux routes rq w m s = (panicked, w', m', s') \<Longrightarrow> writer_ok w' \<and> ok s'"
proof (cases "map_of routes (rq_Path rq)")
  case (Some h)
  assume "ok s" "untouched w" "mux routes rq w m s = (panicked, w', m', s')"
  moreover from this(3) have "h rq w m s = (panicked, w', m', s')" using Some by (simp add: mux_def)
  ultimately show ?thesis using keeps [OF map_of_SomeD [OF Some]] by blast
qed (auto simp: mux_def untouched_def)

text \<open>Every request is answered, logged with the status that was sent, and leaves the invariant.\<close>

lemma served:
  assumes "ok s"
  shows "\<exists>w log s'. serve routes ms fails rq s = Some (w, log, s') \<and> writer_ok w \<and> ok s'
    \<and> (log = None \<longrightarrow> rq_Path rq = ''/health'' \<and> rw_status w < 400 \<and> rw_writeErr w = None)
    \<and> (\<forall>level msg attrs. log = Some (level, msg, attrs) \<longrightarrow>
        map_of attrs ''status'' = Some (AInt (case sent_status w of None \<Rightarrow> 200 | Some code \<Rightarrow> code))
        \<and> (400 \<le> rw_status w \<or> rw_writeErr w \<noteq> None \<longrightarrow>
            level = LevelWarn \<and> map_of attrs ''outcome'' = Some (AStr ''failed'')))"
proof -
  obtain p w m s1 where run: "mux routes rq (new_writer fails) no_metadata s = (p, w, m, s1)"
    by (metis prod.exhaust)
  have k: "writer_ok w" "ok s1" using mux_keeps [OF assms new_writer_ok(1) run] by auto
  obtain w2 m2 where rec: "recoveryMiddleware (mux routes) rq (new_writer fails) no_metadata s = (False, w2, m2, s1)"
    and w2: "w2 = w \<or> w2 = WriteHeader 500 w"
    by (cases p) (auto simp: recoveryMiddleware_def run)
  have ok: "writer_ok w2" using k(1) w2 by auto
  then have status: "rw_status w2 = (case sent_status w2 of None \<Rightarrow> 200 | Some code \<Rightarrow> code)"
    by (auto simp: writer_ok_def sent_status_def split: option.splits)
  define route where "route = (if map_of routes (rq_Path rq) = None then [] else rq_Path rq)"
  have srv: "serve routes ms fails rq s = Some (w2,
      (if request_outcome w2 m2 \<noteq> ''succeeded'' then Some (LevelWarn, ''request completed'',
          request_attrs (rq_Method rq) (if route = [] then ''unknown'' else route) ms w2 m2)
       else if (if route = [] then ''unknown'' else route) \<noteq> ''/health'' then Some (LevelInfo, ''request completed'',
          request_attrs (rq_Method rq) (if route = [] then ''unknown'' else route) ms w2 m2)
       else None), s1)"
    unfolding serve_def loggingMiddleware_def rec by (simp add: Let_def route_def)
  have attrs: "map_of (request_attrs meth rt ms w2 m2) ''status'' = Some (AInt (rw_status w2))"
    "map_of (request_attrs meth rt ms w2 m2) ''outcome'' = Some (AStr (request_outcome w2 m2))" for meth rt
    by (simp_all add: request_attrs_def)
  have failed: "400 \<le> rw_status w2 \<or> rw_writeErr w2 \<noteq> None \<Longrightarrow> request_outcome w2 m2 = ''failed''"
    by (simp add: request_outcome_def)
  have fine: "request_outcome w2 m2 = ''succeeded'' \<Longrightarrow> rw_status w2 < 400 \<and> rw_writeErr w2 = None"
    by (simp add: request_outcome_def split: if_splits)
  have health: "route = ''/health'' \<Longrightarrow> rq_Path rq = ''/health''" by (auto simp: route_def split: if_splits)
  show ?thesis
  proof (intro exI conjI impI allI)
    show "serve routes ms fails rq s = Some (w2, (if request_outcome w2 m2 \<noteq> ''succeeded'' then Some (LevelWarn, ''request completed'',
          request_attrs (rq_Method rq) (if route = [] then ''unknown'' else route) ms w2 m2)
       else if (if route = [] then ''unknown'' else route) \<noteq> ''/health'' then Some (LevelInfo, ''request completed'',
          request_attrs (rq_Method rq) (if route = [] then ''unknown'' else route) ms w2 m2)
       else None), s1)" by (rule srv)
  qed (use ok k(2) attrs failed fine health status in \<open>auto split: if_splits\<close>)
qed

end

end
