(* ===== verification/Json_Codec.thy ===== *)
theory Json_Codec
  imports Http_Writer Json_Tokens
begin

text \<open>
  The JSON text of \<open>encoding/json\<close>: the compact text \<open>json.Marshal\<close> writes for a value and the reading of a whole
  text as \<open>json.Unmarshal\<close> scans it, with its limit of 10000 open containers. The strings are those of
  the theory of the response writer; what is read back is the string with its invalid bytes replaced.
\<close>

section \<open>Writing\<close>

fun json_text :: "json \<Rightarrow> string" where
  "json_text JNull = ''null''"
| "json_text (JBool b) = (if b then ''true'' else ''false'')"
| "json_text (JNum n) = n"
| "json_text (JStr s) = json_string s"
| "json_text (JArr vs) = json_array (map json_text vs)"
| "json_text (JObj kvs) = json_object (map (\<lambda>kv. (fst kv, json_text (snd kv))) kvs)"

section \<open>Reading strings\<close>

definition hex_digit_value :: "char \<Rightarrow> nat option" where
  "hex_digit_value c = (let b = of_char c in
     if 48 \<le> b \<and> b \<le> 57 then Some (b - 48)
     else if 65 \<le> b \<and> b \<le> 70 then Some (b - 55)
     else if 97 \<le> b \<and> b \<le> 102 then Some (b - 87)
     else None)"

text \<open>\<open>getu4\<close>: the code unit of an escape at the start of the text.\<close>

fun getu4 :: "string \<Rightarrow> (nat \<times> string) option" where
  "getu4 (s # u # a # b # c # d # r) =
     (if s \<noteq> CHR 0x5C \<or> u \<noteq> CHR ''u'' then None
      else (case (hex_digit_value a, hex_digit_value b, hex_digit_value c, hex_digit_value d) of
              (Some w, Some x, Some y, Some z) \<Rightarrow> Some (((w * 16 + x) * 16 + y) * 16 + z, r)
            | _ \<Rightarrow> None))"
| "getu4 _ = None"

definition utf8_encode :: "nat \<Rightarrow> string" where
  "utf8_encode n =
     (if n < 0x80 then [char_of n]
      else if n < 0x800 then [char_of (0xC0 + n div 64), char_of (0x80 + n mod 64)]
      else if n < 0x10000 then [char_of (0xE0 + n div 4096), char_of (0x80 + n div 64 mod 64), char_of (0x80 + n mod 64)]
      else [char_of (0xF0 + n div 262144), char_of (0x80 + n div 4096 mod 64), char_of (0x80 + n div 64 mod 64),
            char_of (0x80 + n mod 64)])"

definition replacement :: string where
  "replacement = [CHR 0xEF, CHR 0xBF, CHR 0xBD]"

text \<open>An escaped code unit; a surrogate that is not followed by its other half is replaced.\<close>

definition read_unit :: "string \<Rightarrow> (string \<times> string) option" where
  "read_unit s =
     (case getu4 s of
        None \<Rightarrow> None
      | Some (rr, r1) \<Rightarrow>
          if 0xD800 \<le> rr \<and> rr \<le> 0xDFFF
          then (case getu4 r1 of
                  Some (rr1, r2) \<Rightarrow>
                    if rr \<le> 0xDBFF \<and> 0xDC00 \<le> rr1 \<and> rr1 \<le> 0xDFFF
                    then Some (utf8_encode (0x10000 + (rr - 0xD800) * 1024 + (rr1 - 0xDC00)), r2)
                    else Some (replacement, r1)
                | None \<Rightarrow> Some (replacement, r1))
          else Some (utf8_encode rr, r1))"

definition escapes :: "(char \<times> char) list" where
  "escapes = [(CHR 0x22, CHR 0x22), (CHR 0x5C, CHR 0x5C), (CHR ''/'', CHR ''/''), (CHR ''b'', CHR 0x08),
     (CHR ''f'', CHR 0x0C), (CHR ''n'', CHR 0x0A), (CHR ''r'', CHR 0x0D), (CHR ''t'', CHR 0x09)]"

text \<open>The escape that starts with a backslash and the next character.\<close>

definition read_escape :: "char \<Rightarrow> char \<Rightarrow> string \<Rightarrow> (string \<times> string) option" where
  "read_escape c e r =
     (if e = CHR ''u'' then read_unit (c # e # r)
      else map_option (\<lambda>x. ([x], r)) (map_of escapes e))"

lemma getu4_shorter: "getu4 s = Some (n, r) \<Longrightarrow> length r < length s"
  by (cases s rule: getu4.cases) (auto split: if_splits option.splits)

lemma read_unit_shorter:
  assumes "read_unit s = Some (t, r)"
  shows "length r < length s"
proof -
  obtain rr r1 where g: "getu4 s = Some (rr, r1)" using assms by (auto simp: read_unit_def split: option.splits)
  have "r = r1 \<or> (\<exists>rr1. getu4 r1 = Some (rr1, r))"
    using assms g by (auto simp: read_unit_def split: option.splits if_splits)
  then show ?thesis using getu4_shorter [OF g] getu4_shorter [of r1] by fastforce
qed

lemma read_escape_shorter: "read_escape c e r = Some (t, r') \<Longrightarrow> length r' < Suc (Suc (length r))"
  using read_unit_shorter [of "c # e # r" t r'] by (auto simp: read_escape_def split: if_splits)

text \<open>What follows the opening quote: the string and the rest.\<close>

definition prepend :: "string \<Rightarrow> (string \<times> string) option \<Rightarrow> (string \<times> string) option" where
  "prepend t x = map_option (\<lambda>(u, r). (t @ u, r)) x"

function read_string :: "string \<Rightarrow> (string \<times> string) option" where
  "read_string [] = None"
| "read_string (c # cs) =
     (if c = CHR 0x22 then Some ([], cs)
      else if c = CHR 0x5C then
        (case cs of
           [] \<Rightarrow> None
         | e # r \<Rightarrow>
             (case read_escape c e r of
                None \<Rightarrow> None
              | Some (t, r') \<Rightarrow> prepend t (read_string r')))
      else if (of_char c :: nat) < 32 then None
      else if (of_char c :: nat) < 128 then prepend [c] (read_string cs)
      else (let n = utf8_size (map of_char (c # cs)) in
            if n = 0 then prepend replacement (read_string cs)
            else prepend (take n (c # cs)) (read_string (drop (n - 1) cs))))"
  by pat_completeness auto
termination
  by (relation "measure length") (auto dest: read_escape_shorter)

declare read_string.simps(2) [simp del]

lemma prepend_eq_Some: "prepend t x = Some (u, r) \<longleftrightarrow> (\<exists>v. x = Some (v, r) \<and> u = t @ v)"
  by (auto simp: prepend_def)

lemma read_string_shorter: "read_string s = Some (t, r) \<Longrightarrow> length r < length s"
proof (induction s arbitrary: t r rule: read_string.induct)
  case (2 c cs)
  note run = "2.prems" [unfolded read_string.simps(2) Let_def]
  consider "c = CHR 0x22" | e r' where "c = CHR 0x5C" "cs = e # r'"
    | "c \<noteq> CHR 0x22" "c \<noteq> CHR 0x5C" using run by (cases cs) (auto split: if_splits)
  then show ?case
  proof cases
    case 1
    then show ?thesis using run by simp
  next
    case 2
    then obtain u r1 v where "read_escape c e r' = Some (u, r1)" "read_string r1 = Some (v, r)"
      using run by (auto simp: prepend_eq_Some split: option.splits)
    then show ?thesis using "2.IH"(1) [of e r' "(u, r1)" u r1] 2 read_escape_shorter [of c e r' u r1] by force
  next
    case 3
    then show ?thesis using run "2.IH"(2-4)
      by (fastforce simp: prepend_eq_Some split: if_splits)
  qed
qed simp

section \<open>Strings read back\<close>

text \<open>A string with each byte that does not belong to a valid encoding replaced.\<close>

function utf8_clean :: "string \<Rightarrow> string" where
  "utf8_clean [] = []"
| "utf8_clean (c # cs) =
     (if (of_char c :: nat) < 128 then c # utf8_clean cs
      else (let n = utf8_size (map of_char (c # cs)) in
            if n = 0 then replacement @ utf8_clean cs
            else take n (c # cs) @ utf8_clean (drop (n - 1) cs)))"
  by pat_completeness auto
termination
  by (relation "measure length") auto

declare utf8_clean.simps(2) [simp del] json_chars.simps(2) [simp del]

lemma utf8_clean_ascii: "\<forall>c \<in> set s. (of_char c :: nat) < 128 \<Longrightarrow> utf8_clean s = s"
  by (induction s) (auto simp: utf8_clean.simps(2))

lemma utf8_size_range: "utf8_size bs \<in> {0, 2, 3, 4} \<and> utf8_size bs \<le> length bs"
  by (cases bs rule: utf8_size.cases) simp_all

lemma utf8_size_two:
  "utf8_size (a # b # bs) = 2 \<longleftrightarrow> 0xC2 \<le> a \<and> a \<le> 0xDF \<and> cont b"
  by (cases bs; cases "tl bs") auto

lemma utf8_size_append:
  assumes "utf8_size bs \<noteq> 0"
  shows "utf8_size (take (utf8_size bs) bs @ ys) = utf8_size bs"
proof (cases bs rule: utf8_size.cases)
  case (1 a b c d bs')
  then show ?thesis using assms by (cases ys; cases "tl ys") (simp_all split: if_splits, blast+)
next
  case (2 a b c)
  then show ?thesis using assms by (cases ys; cases "tl ys") (simp_all split: if_splits, blast+)
next
  case (3 a b)
  then show ?thesis using assms by (cases ys; cases "tl ys") (simp_all split: if_splits)
qed (use assms in simp_all)

lemma hex_ok: "d < 16 \<Longrightarrow> hex_digit_value (json_hex d) = Some d"
  by (auto simp: hex_digit_value_def json_hex_def Let_def)

lemma hex_letters:
  "hex_digit_value CHR ''0'' = Some 0" "hex_digit_value CHR ''2'' = Some 2" "hex_digit_value CHR ''8'' = Some 8"
  "hex_digit_value CHR ''9'' = Some 9" "hex_digit_value CHR ''d'' = Some 13" "hex_digit_value CHR ''f'' = Some 15"
  by (simp_all add: hex_digit_value_def)

lemma char_below_128:
  assumes "(of_char c :: nat) < 128"
  shows "of_char c div 16 < (16 :: nat)" "of_char c mod 16 < (16 :: nat)"
    "utf8_encode (of_char c div 16 * 16 + of_char c mod 16) = [c]"
  using assms by (simp_all add: utf8_encode_def)

lemma read_escaped_units:
  "read_unit (CHR 0x5C # ''ufffd'' @ r) = Some (replacement, r)"
  "read_unit (CHR 0x5C # ''u2028'' @ r) = Some ([CHR 0xE2, CHR 0x80, CHR 0xA8], r)"
  "read_unit (CHR 0x5C # ''u2029'' @ r) = Some ([CHR 0xE2, CHR 0x80, CHR 0xA9], r)"
  by (simp_all add: read_unit_def hex_letters utf8_encode_def replacement_def) code_simp+

lemma read_u00:
  assumes "(of_char c :: nat) < 128"
  shows "read_unit (CHR 0x5C # ''u00'' @ [json_hex (of_char c div 16), json_hex (of_char c mod 16)] @ r) = Some ([c], r)"
  using char_below_128 [OF assms] hex_ok assms by (simp add: read_unit_def hex_letters)

lemma read_string_unit:
  "read_unit (CHR 0x5C # CHR ''u'' # r) = Some (t, r') \<Longrightarrow> read_string (CHR 0x5C # CHR ''u'' # r) = prepend t (read_string r')"
  by (simp add: read_string.simps(2) read_escape_def)

lemma read_json_ascii:
  assumes "(of_char c :: nat) < 128"
  shows "read_string (json_ascii c @ r) = prepend [c] (read_string r)"
proof -
  note named = of_char_eq_iff [of c, where 'a = nat]
  consider "c = CHR 0x5C \<or> c = CHR 0x22" | "of_char c \<in> {8 :: nat, 12, 10, 13, 9}"
    | "c \<noteq> CHR 0x5C" "c \<noteq> CHR 0x22" "of_char c \<notin> {8 :: nat, 12, 10, 13, 9}"
        "(of_char c :: nat) < 32 \<or> c = CHR ''<'' \<or> c = CHR ''>'' \<or> c = CHR ''&''"
    | "c \<noteq> CHR 0x5C" "c \<noteq> CHR 0x22" "of_char c \<notin> {8 :: nat, 12, 10, 13, 9}" "\<not> (of_char c :: nat) < 32"
        "\<not> (c = CHR ''<'' \<or> c = CHR ''>'' \<or> c = CHR ''&'')"
    by blast
  then show ?thesis
  proof cases
    case 1
    then show ?thesis by (auto simp: json_ascii_def read_string.simps(2) read_escape_def escapes_def)
  next
    case 2
    then have "c \<in> {CHR 0x08, CHR 0x0C, CHR 0x0A, CHR 0x0D, CHR 0x09}"
      using named [of "CHR 0x08"] named [of "CHR 0x0C"] named [of "CHR 0x0A"] named [of "CHR 0x0D"] named [of "CHR 0x09"]
      by auto
    then show ?thesis by (auto simp: json_ascii_def read_string.simps(2) read_escape_def escapes_def)
  next
    case 3
    have "read_string (CHR 0x5C # CHR ''u'' # ''00'' @ [json_hex (of_char c div 16), json_hex (of_char c mod 16)] @ r)
        = prepend [c] (read_string r)"
      using read_u00 [OF assms, of r] by (intro read_string_unit) simp
    moreover have "json_ascii c = CHR 0x5C # CHR ''u'' # ''00'' @ [json_hex (of_char c div 16), json_hex (of_char c mod 16)]"
      using 3 by (simp add: json_ascii_def Let_def)
    ultimately show ?thesis by simp
  next
    case 4
    then have "json_ascii c = [c]" by (simp add: json_ascii_def Let_def)
    with 4 assms show ?thesis by (simp add: read_string.simps(2))
  qed
qed

lemma read_json_chars: "read_string (json_chars s @ CHR 0x22 # r) = Some (utf8_clean s, r)"
proof (induction s rule: json_chars.induct)
  case 1
  show ?case by (simp add: read_string.simps(2))
next
  case (2 c cs)
  note IH = "2.IH"
  let ?n = "utf8_size (map of_char (c # cs))"
  show ?case
  proof (cases "(of_char c :: nat) < 128")
    case True
    then show ?thesis using 2 by (simp add: json_chars.simps(2) utf8_clean.simps(2) read_json_ascii prepend_def)
  next
    case False
    consider "?n = 0" | x where "?n \<noteq> 0" "x \<in> {CHR 0xA8, CHR 0xA9}" "take 3 (c # cs) = [CHR 0xE2, CHR 0x80, x]"
      | "?n \<noteq> 0" "take 3 (c # cs) \<noteq> [CHR 0xE2, CHR 0x80, CHR 0xA8]" "take 3 (c # cs) \<noteq> [CHR 0xE2, CHR 0x80, CHR 0xA9]"
      by blast
    then show ?thesis
    proof cases
      case 1
      have "read_string (CHR 0x5C # CHR ''u'' # ''fffd'' @ json_chars cs @ CHR 0x22 # r)
          = prepend replacement (read_string (json_chars cs @ CHR 0x22 # r))"
        using read_escaped_units(1) by (intro read_string_unit) simp
      then show ?thesis using 1 False 2 by (simp add: json_chars.simps(2) utf8_clean.simps(2) prepend_def)
    next
      case (2 x)
      then obtain cs' where cs: "c = CHR 0xE2" "cs = CHR 0x80 # x # cs'" by (cases cs; cases "tl cs") auto
      have n: "?n = 3" using 2(2) unfolding cs by (cases cs') (auto simp: cont_def)
      obtain u where u: "json_chars (c # cs) = CHR 0x5C # CHR ''u'' # u @ json_chars cs'"
        "\<And>t. read_unit (CHR 0x5C # CHR ''u'' # u @ t) = Some (take 3 (c # cs), t)"
        using 2 read_escaped_units(2,3) n False by (auto simp: cs json_chars.simps(2))
      have "read_string (CHR 0x5C # CHR ''u'' # u @ json_chars cs' @ CHR 0x22 # r)
          = prepend (take 3 (c # cs)) (read_string (json_chars cs' @ CHR 0x22 # r))"
        using u(2) by (rule read_string_unit)
      moreover have "read_string (json_chars cs' @ CHR 0x22 # r) = Some (utf8_clean cs', r)"
        using IH(3,4) False n 2 by (auto simp: cs)
      ultimately show ?thesis using n False by (simp add: u(1) utf8_clean.simps(2) prepend_def) (simp add: cs)
    next
      case 3
      let ?t = "take ?n (c # cs)" and ?d = "drop (?n - 1) cs"
      have out: "json_chars (c # cs) = ?t @ json_chars ?d" using 3 False by (auto simp: json_chars.simps(2) Let_def)
      have "utf8_size (map of_char (c # tl ?t @ json_chars ?d @ CHR 0x22 # r)) = ?n"
        using utf8_size_append [OF 3(1), of "map of_char (json_chars ?d @ CHR 0x22 # r)"] 3(1)
        by (cases ?n) (simp_all add: take_map)
      moreover have "length ?t = ?n" using utf8_size_range [of "map of_char (c # cs)"] by simp
      moreover have "c \<noteq> CHR 0x22" "c \<noteq> CHR 0x5C" using False by auto
      ultimately have "read_string (c # tl ?t @ json_chars ?d @ CHR 0x22 # r) = prepend ?t (read_string (json_chars ?d @ CHR 0x22 # r))"
        using 3(1) False by (cases ?n) (simp_all add: read_string.simps(2) Let_def)
      moreover have "read_string (json_chars ?d @ CHR 0x22 # r) = Some (utf8_clean ?d, r)" using IH(5) False 3 by auto
      moreover have "c # tl ?t = ?t" using 3(1) by (cases ?n) simp_all
      ultimately show ?thesis using 3(1) False out by (cases ?n) (simp_all add: utf8_clean.simps(2) Let_def prepend_def)
    qed
  qed
qed

section \<open>Reading values\<close>

definition is_ws :: "char \<Rightarrow> bool" where
  "is_ws c \<longleftrightarrow> c = CHR '' '' \<or> c = CHR 0x09 \<or> c = CHR 0x0A \<or> c = CHR 0x0D"

definition skip_ws :: "string \<Rightarrow> string" where
  "skip_ws s = dropWhile is_ws s"

definition digits :: "string \<Rightarrow> string \<times> string" where
  "digits s = (takeWhile is_digit s, dropWhile is_digit s)"

text \<open>The parts of a number literal after its integer part, each with the rest of the text.\<close>

definition read_fraction :: "string \<Rightarrow> (string \<times> string) option" where
  "read_fraction s =
     (case s of
        c # r \<Rightarrow> if c = CHR ''.'' then (case digits r of (ds, r') \<Rightarrow> if ds = [] then None else Some (c # ds, r'))
                  else Some ([], s)
      | [] \<Rightarrow> Some ([], s))"

definition read_exponent :: "string \<Rightarrow> (string \<times> string) option" where
  "read_exponent s =
     (case s of
        c # r \<Rightarrow>
          if c = CHR ''e'' \<or> c = CHR ''E''
          then (let (sign, r1) = (case r of d # r' \<Rightarrow> if d = CHR ''+'' \<or> d = CHR ''-'' then ([d], r') else ([], r) | [] \<Rightarrow> ([], r))
                in (case digits r1 of (ds, r') \<Rightarrow> if ds = [] then None else Some (c # sign @ ds, r')))
          else Some ([], s)
      | [] \<Rightarrow> Some ([], s))"

definition read_integer :: "string \<Rightarrow> (string \<times> string) option" where
  "read_integer s =
     (case digits s of
        (d # ds, r) \<Rightarrow> if d = CHR ''0'' then Some ([d], ds @ r) else Some (d # ds, r)
      | ([], r) \<Rightarrow> None)"

definition read_sign :: "string \<Rightarrow> string \<times> string" where
  "read_sign s = (case s of c # r \<Rightarrow> if c = CHR ''-'' then ([c], r) else ([], s) | [] \<Rightarrow> ([], s))"

definition read_number :: "string \<Rightarrow> (string \<times> string) option" where
  "read_number s =
     (case read_sign s of
        (sign, s1) \<Rightarrow>
          (case read_integer s1 of
             None \<Rightarrow> None
           | Some (i, s2) \<Rightarrow>
               (case read_fraction s2 of
                  None \<Rightarrow> None
                | Some (f, s3) \<Rightarrow>
                    (case read_exponent s3 of
                       None \<Rightarrow> None
                     | Some (e, s4) \<Rightarrow> Some (sign @ i @ f @ e, s4)))))"

lemma digits_shorter: "digits s = (ds, r) \<Longrightarrow> length r \<le> length s \<and> (ds \<noteq> [] \<longrightarrow> length r < length s)"
proof -
  assume "digits s = (ds, r)"
  then have "s = ds @ r" by (auto simp: digits_def)
  then show ?thesis by (cases ds) auto
qed

lemma read_number_shorter:
  assumes "read_number s = Some (t, r)"
  shows "length r < length s"
proof -
  obtain sg s1 where sign: "read_sign s = (sg, s1)" by fastforce
  obtain i s2 f s3 e where parts: "read_integer s1 = Some (i, s2)" "read_fraction s2 = Some (f, s3)"
    "read_exponent s3 = Some (e, r)"
    using assms by (auto simp: read_number_def sign split: option.splits)
  have "length s1 \<le> length s" using sign by (auto simp: read_sign_def split: list.splits if_splits)
  moreover have "length s2 < length s1"
  proof (cases "takeWhile is_digit s1")
    case (Cons d ds)
    have "length s1 = length (takeWhile is_digit s1) + length (dropWhile is_digit s1)"
      by (metis length_append takeWhile_dropWhile_id)
    then show ?thesis using parts(1) Cons by (auto simp: read_integer_def digits_def split: if_splits)
  qed (use parts(1) in \<open>simp add: read_integer_def digits_def\<close>)
  moreover have "length s3 \<le> length s2"
    using parts(2) digits_shorter [of "tl s2"] by (auto simp: read_fraction_def split: list.splits if_splits prod.splits)
  moreover have "length r \<le> length s3"
    using parts(3) digits_shorter [of "tl s3"] digits_shorter [of "tl (tl s3)"]
    by (auto simp: read_exponent_def split: list.splits if_splits prod.splits)
  ultimately show ?thesis by linarith
qed

definition literal :: "string \<Rightarrow> json \<Rightarrow> string \<Rightarrow> (json \<times> string) option" where
  "literal word v s = (case cut_prefix s word of None \<Rightarrow> None | Some r \<Rightarrow> Some (v, r))"

text \<open>
  A value, the elements of an array after its opening bracket, the members of an object after its opening brace; \<open>d\<close>
  containers may still be opened. The tests on lengths never fail; they say that reading goes forward.
\<close>

lemma skip_ws_shorter: "length (skip_ws s) \<le> length s"
  by (simp add: skip_ws_def length_dropWhile_le)

function (sequential) read_value :: "nat \<Rightarrow> string \<Rightarrow> (json \<times> string) option"
  and read_elements :: "nat \<Rightarrow> string \<Rightarrow> (json list \<times> string) option"
  and read_members :: "nat \<Rightarrow> string \<Rightarrow> ((string \<times> json) list \<times> string) option" where
  "read_value d s =
     (case skip_ws s of
        [] \<Rightarrow> None
      | c # r \<Rightarrow>
          if c = CHR 0x22 then map_option (\<lambda>(t, r'). (JStr t, r')) (read_string r)
          else if c = CHR ''['' then
            (if d = 0 then None
             else (case skip_ws r of
                     [] \<Rightarrow> None
                   | e # r' \<Rightarrow> if e = CHR '']'' then Some (JArr [], r')
                               else map_option (\<lambda>(vs, r''). (JArr vs, r'')) (read_elements (d - 1) r)))
          else if c = CHR ''{'' then
            (if d = 0 then None
             else (case skip_ws r of
                     [] \<Rightarrow> None
                   | e # r' \<Rightarrow> if e = CHR ''}'' then Some (JObj [], r')
                               else map_option (\<lambda>(kvs, r''). (JObj kvs, r'')) (read_members (d - 1) r)))
          else if c = CHR ''n'' then literal ''null'' JNull (c # r)
          else if c = CHR ''t'' then literal ''true'' (JBool True) (c # r)
          else if c = CHR ''f'' then literal ''false'' (JBool False) (c # r)
          else map_option (\<lambda>(t, r'). (JNum t, r')) (read_number (c # r)))"
| "read_elements d s =
     (case read_value d s of
        None \<Rightarrow> None
      | Some (v, r) \<Rightarrow>
          (case skip_ws r of
             [] \<Rightarrow> None
           | c # r' \<Rightarrow>
               if c = CHR '']'' then Some ([v], r')
               else if c = CHR '','' \<and> length r' < length s
               then map_option (\<lambda>(vs, r''). (v # vs, r'')) (read_elements d r')
               else None))"
| "read_members d s =
     (case skip_ws s of
        [] \<Rightarrow> None
      | q # r0 \<Rightarrow>
          if q \<noteq> CHR 0x22 then None
          else (case read_string r0 of
                  None \<Rightarrow> None
                | Some (k, r1) \<Rightarrow>
                    (case skip_ws r1 of
                       [] \<Rightarrow> None
                     | c # r2 \<Rightarrow>
                         if c \<noteq> CHR '':'' \<or> length s \<le> length r2 then None
                         else (case read_value d r2 of
                                 None \<Rightarrow> None
                               | Some (v, r3) \<Rightarrow>
                                   (case skip_ws r3 of
                                      [] \<Rightarrow> None
                                    | e # r4 \<Rightarrow>
                                        if e = CHR ''}'' then Some ([(k, v)], r4)
                                        else if e = CHR '','' \<and> length r4 < length s
                                        then map_option (\<lambda>(kvs, r5). ((k, v) # kvs, r5)) (read_members d r4)
                                        else None)))))"
  by pat_completeness auto
termination
proof (relation "measure (case_sum (\<lambda>(d, s). 2 * length s) (case_sum (\<lambda>(d, s). 2 * length s + 1) (\<lambda>(d, s). 2 * length s + 1)))",
    goal_cases)
  case (2 d s c r e r')
  then show ?case using skip_ws_shorter [of s] by simp
next
  case (3 d s c r e r')
  then show ?case using skip_ws_shorter [of s] by simp
qed auto

declare read_value.simps [simp del] read_elements.simps [simp del] read_members.simps [simp del]

definition maxNesting :: nat where
  "maxNesting = 10000"

text \<open>A whole text: one value with white space around it.\<close>

definition read_json :: "string \<Rightarrow> json option" where
  "read_json s =
     (case read_value maxNesting s of
        Some (v, r) \<Rightarrow> if skip_ws r = [] then Some v else None
      | None \<Rightarrow> None)"

section \<open>Values read back\<close>

fun json_clean :: "json \<Rightarrow> json" where
  "json_clean (JStr s) = JStr (utf8_clean s)"
| "json_clean (JArr vs) = JArr (map json_clean vs)"
| "json_clean (JObj kvs) = JObj (map (\<lambda>kv. (utf8_clean (fst kv), json_clean (snd kv))) kvs)"
| "json_clean v = v"

text \<open>What follows a value in a text written without white space.\<close>

definition plain_end :: "string \<Rightarrow> bool" where
  "plain_end r \<longleftrightarrow> r = [] \<or> hd r \<in> set '',]}''"

definition number_ok :: "string \<Rightarrow> bool" where
  "number_ok n \<longleftrightarrow> n \<noteq> [] \<and> (hd n = CHR ''-'' \<or> is_digit (hd n)) \<and> (\<forall>r. plain_end r \<longrightarrow> read_number (n @ r) = Some (n, r))"

fun numbers_ok :: "json \<Rightarrow> bool" where
  "numbers_ok (JNum n) = number_ok n"
| "numbers_ok (JArr vs) = list_all numbers_ok vs"
| "numbers_ok (JObj kvs) = list_all (\<lambda>kv. numbers_ok (snd kv)) kvs"
| "numbers_ok _ = True"

lemma plain_end_simps [simp]:
  "plain_end []" "plain_end (CHR '','' # r)" "plain_end (CHR '']'' # r)" "plain_end (CHR ''}'' # r)"
  by (simp_all add: plain_end_def)

lemma skip_ws_other [simp]: "\<not> is_ws c \<Longrightarrow> skip_ws (c # r) = c # r"
  by (simp add: skip_ws_def)

lemma not_ws [simp]:
  "\<not> is_ws CHR 0x22" "\<not> is_ws CHR ''[''" "\<not> is_ws CHR '']''" "\<not> is_ws CHR ''{''" "\<not> is_ws CHR ''}''"
  "\<not> is_ws CHR '',''" "\<not> is_ws CHR '':''" "\<not> is_ws CHR ''n''" "\<not> is_ws CHR ''t''" "\<not> is_ws CHR ''f''"
  "\<not> is_ws CHR ''-''"
  by (simp_all add: is_ws_def)

lemma digit_not_ws: "is_digit c \<Longrightarrow> \<not> is_ws c \<and> c \<notin> set [CHR 0x22, CHR ''['', CHR '']'', CHR ''{'', CHR ''n'', CHR ''t'', CHR ''f'']"
  by (auto simp: is_digit_def is_ws_def)

lemma read_value_number:
  assumes "number_ok n" "plain_end r"
  shows "read_value d (n @ r) = Some (JNum n, r)"
proof -
  obtain c t where n: "n = c # t" "c = CHR ''-'' \<or> is_digit c" using assms(1) by (cases n) (auto simp: number_ok_def)
  then have c: "\<not> is_ws c \<and> c \<notin> set [CHR 0x22, CHR ''['', CHR '']'', CHR ''{'', CHR ''n'', CHR ''t'', CHR ''f'']"
    using digit_not_ws [of c] by auto
  have "read_number (c # t @ r) = Some (c # t, r)" using assms n(1) by (simp add: number_ok_def)
  with c show ?thesis unfolding n(1) by (subst read_value.simps) simp
qed

lemma read_value_string: "read_value d (json_string s @ r) = Some (JStr (utf8_clean s), r)"
  using read_json_chars [of s r] by (subst read_value.simps) (simp add: json_string_def)

lemma read_value_words:
  "read_value d (''null'' @ r) = Some (JNull, r)" "read_value d (''true'' @ r) = Some (JBool True, r)"
  "read_value d (''false'' @ r) = Some (JBool False, r)"
  by (subst read_value.simps, simp add: literal_def)+

text \<open>A value read back at every depth that allows it.\<close>

definition reads_back :: "json \<Rightarrow> bool" where
  "reads_back v \<longleftrightarrow> (\<forall>d r. depth v \<le> d \<longrightarrow> plain_end r \<longrightarrow> read_value d (json_text v @ r) = Some (json_clean v, r))"

lemma reads_backD: "reads_back v \<Longrightarrow> depth v \<le> d \<Longrightarrow> plain_end r \<Longrightarrow> read_value d (json_text v @ r) = Some (json_clean v, r)"
  by (simp add: reads_back_def)

lemma elements_read_back:
  assumes "vs \<noteq> []" "\<forall>v \<in> set vs. reads_back v \<and> depth v \<le> d"
  shows "read_elements d (join CHR '','' (map json_text vs) @ CHR '']'' # r) = Some (map json_clean vs, r)"
  using assms
proof (induction vs rule: induct_list012)
  case (2 v)
  then show ?case using reads_backD [of v d "CHR '']'' # r"] by (subst read_elements.simps) simp
next
  case (3 v w vs)
  let ?rest = "join CHR '','' (map json_text (w # vs)) @ CHR '']'' # r"
  have "read_value d (json_text v @ CHR '','' # ?rest) = Some (json_clean v, CHR '','' # ?rest)"
    using 3 by (intro reads_backD) auto
  then show ?case using 3 by (subst read_elements.simps) simp
qed simp

lemma members_read_back:
  assumes "kvs \<noteq> []" "\<forall>kv \<in> set kvs. reads_back (snd kv) \<and> depth (snd kv) \<le> d"
  shows "read_members d (join CHR '','' (map (\<lambda>kv. json_string (fst kv) @ CHR '':'' # json_text (snd kv)) kvs) @ CHR ''}'' # r)
    = Some (map (\<lambda>kv. (utf8_clean (fst kv), json_clean (snd kv))) kvs, r)"
  using assms
proof (induction kvs rule: induct_list012)
  case (2 kv)
  have "read_value d (json_text (snd kv) @ CHR ''}'' # r) = Some (json_clean (snd kv), CHR ''}'' # r)"
    using 2 by (intro reads_backD) auto
  then show ?case using read_json_chars by (subst read_members.simps) (simp add: json_string_def)
next
  case (3 kv kw kvs)
  let ?rest = "join CHR '','' (map (\<lambda>kv. json_string (fst kv) @ CHR '':'' # json_text (snd kv)) (kw # kvs)) @ CHR ''}'' # r"
  have "read_value d (json_text (snd kv) @ CHR '','' # ?rest) = Some (json_clean (snd kv), CHR '','' # ?rest)"
    using 3 by (intro reads_backD) auto
  then show ?case using 3 read_json_chars by (subst read_members.simps) (simp add: json_string_def)
qed simp

lemma json_text_head:
  assumes "numbers_ok v"
  obtains c t where "json_text v = c # t" "\<not> is_ws c" "c \<noteq> CHR '']''"
proof (cases v)
  case (JNum n)
  then have "number_ok n" using assms by simp
  then obtain c t where "n = c # t" "c = CHR ''-'' \<or> is_digit c" by (cases n) (auto simp: number_ok_def)
  then show ?thesis using that JNum digit_not_ws [of c] by auto
next
  case (JBool b)
  then show ?thesis using that by (cases b) auto
qed (use that in \<open>auto simp: json_string_def json_array_def json_object_def\<close>)

lemma depth_elements: "v \<in> set vs \<Longrightarrow> depth (JArr vs) \<le> d \<Longrightarrow> depth v \<le> d - 1"
proof -
  have "v \<in> set vs \<Longrightarrow> depth v \<le> foldr max (map depth vs) 0" by (induction vs) auto
  then show "v \<in> set vs \<Longrightarrow> depth (JArr vs) \<le> d \<Longrightarrow> depth v \<le> d - 1" by simp
qed

lemma depth_members: "kv \<in> set kvs \<Longrightarrow> depth (JObj kvs) \<le> d \<Longrightarrow> depth (snd kv) \<le> d - 1"
proof -
  have "kv \<in> set kvs \<Longrightarrow> depth (snd kv) \<le> members_depth kvs" by (induction kvs) auto
  then show "kv \<in> set kvs \<Longrightarrow> depth (JObj kvs) \<le> d \<Longrightarrow> depth (snd kv) \<le> d - 1" by (simp add: depth_JObj del: depth.simps)
qed

lemma join_first: "vs \<noteq> [] \<Longrightarrow> hd vs = c # t \<Longrightarrow> \<exists>t'. join sep vs = c # t'"
  by (cases "(sep, vs)" rule: join.cases) auto

lemma array_reads_back:
  assumes "\<forall>v \<in> set vs. reads_back v" "\<forall>v \<in> set vs. numbers_ok v"
  shows "reads_back (JArr vs)"
  unfolding reads_back_def
proof (intro allI impI)
  fix d r assume d: "depth (JArr vs) \<le> d" and r: "plain_end r"
  then have pos: "d \<noteq> 0" by (cases d) auto
  show "read_value d (json_text (JArr vs) @ r) = Some (json_clean (JArr vs), r)"
  proof (cases vs)
    case Nil
    then show ?thesis using pos by (subst read_value.simps) (simp add: json_array_def)
  next
    case (Cons v ws)
    have el: "read_elements (d - 1) (join CHR '','' (map json_text vs) @ CHR '']'' # r) = Some (map json_clean vs, r)"
      using assms(1) depth_elements [OF _ d] Cons by (intro elements_read_back) auto
    obtain c t where head: "json_text v = c # t" "\<not> is_ws c" "c \<noteq> CHR '']''"
      using json_text_head [of v] assms(2) Cons by auto
    then obtain t' where "join CHR '','' (map json_text vs) = c # t'" using join_first [of "map json_text vs" c t] Cons by auto
    then show ?thesis using el head(2,3) pos by (subst read_value.simps) (simp add: json_array_def)
  qed
qed

lemma object_reads_back:
  assumes "\<forall>kv \<in> set kvs. reads_back (snd kv)"
  shows "reads_back (JObj kvs)"
  unfolding reads_back_def
proof (intro allI impI)
  fix d r assume d: "depth (JObj kvs) \<le> d" and r: "plain_end r"
  then have pos: "d \<noteq> 0" by (cases d) auto
  let ?m = "map (\<lambda>kv. json_string (fst kv) @ CHR '':'' # json_text (snd kv)) kvs"
  have out: "json_text (JObj kvs) @ r = CHR ''{'' # join CHR '','' ?m @ CHR ''}'' # r"
    by (simp add: json_object_def comp_def)
  show "read_value d (json_text (JObj kvs) @ r) = Some (json_clean (JObj kvs), r)"
  proof (cases kvs)
    case Nil
    then show ?thesis using pos unfolding out by (subst read_value.simps) simp
  next
    case (Cons kv kws)
    have mem: "read_members (d - 1) (join CHR '','' ?m @ CHR ''}'' # r)
        = Some (map (\<lambda>kv. (utf8_clean (fst kv), json_clean (snd kv))) kvs, r)"
      using assms depth_members [OF _ d] Cons by (intro members_read_back) auto
    have "\<exists>t'. join CHR '','' ?m = CHR 0x22 # t'" using Cons by (intro join_first) (auto simp: json_string_def)
    then obtain t' where "join CHR '','' ?m = CHR 0x22 # t'" by blast
    then show ?thesis using mem pos unfolding out by (subst read_value.simps) simp
  qed
qed

lemma text_reads_back: "numbers_ok v \<Longrightarrow> reads_back v"
proof (induction v)
  case (JArr vs)
  then show ?case by (intro array_reads_back) (auto simp: list_all_iff)
next
  case (JObj kvs)
  have "reads_back (snd kv)" if "kv \<in> set kvs" for kv
    using that JObj.IH [of kv "snd kv"] JObj.prems by (cases kv) (auto simp: list_all_iff snds.simps)
  then show ?case by (intro object_reads_back) blast
qed (auto simp: reads_back_def read_value_words [simplified] read_value_string read_value_number)

lemma read_json_text:
  assumes "numbers_ok v" "depth v \<le> maxNesting"
  shows "read_json (json_text v) = Some (json_clean v)"
  using reads_backD [OF text_reads_back [OF assms(1)] assms(2), of "[]"] by (simp add: read_json_def skip_ws_def)

text \<open>The integers Go prints are number literals.\<close>

lemma nat_str_head: "0 < n \<Longrightarrow> hd (nat_str n) \<noteq> CHR ''0''"
proof (induction n rule: nat_str.induct)
  case (1 n)
  have "char_of (n + 48) \<noteq> CHR ''0''" if "n < 10"
    using that 1 of_char_eq_iff [of "char_of (n + 48)" "CHR ''0''", where 'a = nat] by auto
  with 1 nat_str_not_Nil [of "n div 10"] show ?case by (subst nat_str.simps) auto
qed

lemma read_plain_natural:
  assumes "plain_end r"
  shows "read_integer (nat_str k @ r) = Some (nat_str k, r)"
proof -
  have end_r: "takeWhile is_digit r = []" "dropWhile is_digit r = r"
    using assms by (cases r; auto simp: plain_end_def is_digit_def)+
  have "takeWhile is_digit (nat_str k @ r) = nat_str k" "dropWhile is_digit (nat_str k @ r) = r"
    using nat_str_digits [of _ k] end_r by (simp_all add: takeWhile_append2 dropWhile_append2)
  moreover have "nat_str 0 = ''0''" by (subst nat_str.simps) (simp, code_simp)
  ultimately show ?thesis
    using nat_str_not_Nil [of k] nat_str_head [of k]
    by (cases "nat_str k"; cases "k = 0") (auto simp: read_integer_def digits_def)
qed

lemma read_plain_end:
  assumes "plain_end r"
  shows "read_fraction r = Some ([], r)" "read_exponent r = Some ([], r)"
  using assms by (cases r; auto simp: plain_end_def read_fraction_def read_exponent_def)+

lemma integer_number: "number_ok (fmt_d n)"
proof -
  obtain c cs where k: "nat_str (nat n) = c # cs" "is_digit c"
    using nat_str_not_Nil [of "nat n"] nat_str_digits [of _ "nat n"] by (cases "nat_str (nat n)") auto
  then have c: "c \<noteq> CHR ''-''" using is_digit_sign(1) by auto
  have "read_number (fmt_d n @ r) = Some (fmt_d n, r)" if "plain_end r" for r
    using read_plain_natural [OF that, of "nat (- n)"] read_plain_natural [OF that, of "nat n"] read_plain_end [OF that] k c
    by (auto simp: read_number_def read_sign_def fmt_d_def)
  then show ?thesis using k by (auto simp: number_ok_def fmt_d_def)
qed

end
