(* ===== verification/Json_Reader.thy ===== *)
theory Json_Reader
  imports Json_Codec
begin

text \<open>
  Reading JSON from the front of a longer text: what a value, a string or a number gives does not depend on what comes
  after it, except that a number goes on as long as it can; so a text that ends before its value does is never read. The
  strings of what is read are valid UTF-8.
\<close>

section \<open>Strings\<close>

lemma utf8_size_more:
  assumes "utf8_size bs \<noteq> 0"
  shows "utf8_size (bs @ ys) = utf8_size bs"
proof -
  have "bs @ ys = take (utf8_size bs) bs @ drop (utf8_size bs) bs @ ys" by simp
  then show ?thesis using utf8_size_append [OF assms, of "drop (utf8_size bs) bs @ ys"] by metis
qed

lemma utf8_size_ascii_after:
  assumes "utf8_size bs = 0" "\<exists>b \<in> set (tl bs). b < 128"
  shows "utf8_size (bs @ ys) = 0"
proof (cases bs rule: utf8_size.cases)
  case (2 a b c)
  consider "b < 128" | "\<not> b < 128" "c < 128" using assms(2) 2 by auto
  then show ?thesis
  proof cases
    case 1
    then have "\<not> cont b" "\<not> 0xA0 \<le> b" "\<not> 0x80 \<le> b" "\<not> 0x90 \<le> b" by (simp_all add: cont_def)
    then show ?thesis unfolding 2 by (cases ys) simp_all
  next
    case c: 2
    then have "\<not> cont c" by (simp add: cont_def)
    moreover have "\<not> (0xC2 \<le> a \<and> a \<le> 0xDF \<and> cont b)" using assms(1) 2 by (auto split: if_splits)
    ultimately show ?thesis unfolding 2 by (cases ys) simp_all
  qed
next
  case (3 a b)
  then have "\<not> cont b" "\<not> 0xA0 \<le> b" "\<not> 0x80 \<le> b" "\<not> 0x90 \<le> b" using assms(2) by (simp_all add: cont_def)
  then show ?thesis unfolding 3 by (cases ys; cases "tl ys") simp_all
next
  case (1 a b c d bs')
  then show ?thesis using assms(1) by simp
qed (use assms in auto)

lemma getu4_more: "getu4 s = Some (n, r) \<Longrightarrow> getu4 (s @ t) = Some (n, r @ t)"
  by (cases s rule: getu4.cases) (auto split: if_splits option.splits)

lemma getu4_not_escape: "getu4 (c # s) = None" if "c \<noteq> CHR 0x5C"
  using that by (cases "c # s" rule: getu4.cases) auto

lemma getu4_other: "getu4 (c # e # s) = None" if "e \<noteq> CHR ''u''"
  using that by (cases "c # e # s" rule: getu4.cases) auto

lemma getu4_within_string:
  assumes "read_string s = Some (u, r)" "getu4 s = None"
  shows "getu4 (s @ t) = None"
proof (cases s)
  case (Cons c cs)
  show ?thesis
  proof (cases "c = CHR 0x5C")
    case True
    then obtain e r' where cs: "cs = e # r'" using assms(1) Cons by (cases cs) (auto simp: read_string.simps(2))
    then have "e \<noteq> CHR ''u''"
      using assms Cons True by (auto simp: read_string.simps(2) read_escape_def read_unit_def split: option.splits)
    then show ?thesis using Cons cs getu4_other by simp
  next
    case False
    then show ?thesis using Cons getu4_not_escape by simp
  qed
qed (use assms in simp)

lemma read_unit_more:
  assumes "read_unit s = Some (u, r)" "read_string r = Some (w, r')"
  shows "read_unit (s @ t) = Some (u, r @ t)"
proof -
  obtain rr r1 where g: "getu4 s = Some (rr, r1)" using assms(1) by (auto simp: read_unit_def split: option.splits)
  show ?thesis
  proof (cases "getu4 r1")
    case None
    then have "r1 = r" using assms(1) g by (auto simp: read_unit_def split: if_splits)
    then show ?thesis
      using assms(1) g None getu4_more [OF g, of t] getu4_within_string [OF assms(2), of t]
      by (auto simp: read_unit_def split: if_splits)
  next
    case (Some p)
    then show ?thesis
      using assms(1) g getu4_more [OF g, of t] getu4_more [of r1 "fst p" "snd p" t]
      by (cases p) (auto simp: read_unit_def split: if_splits)
  qed
qed

lemma read_escape_more:
  "read_escape c e s = Some (u, r) \<Longrightarrow> read_string r = Some (w, r') \<Longrightarrow> read_escape c e (s @ t) = Some (u, r @ t)"
  using read_unit_more [of "c # e # s" u r w r' t] by (auto simp: read_escape_def split: if_splits)

lemma getu4_suffix: "getu4 s = Some (n, r) \<Longrightarrow> \<exists>a b p. s = a # b # p @ r"
  by (cases s rule: getu4.cases) (auto split: if_splits option.splits)

lemma read_escape_suffix:
  assumes "read_escape c e s = Some (u, r)"
  shows "\<exists>p. s = p @ r"
proof (cases "e = CHR ''u''")
  case True
  then obtain rr r1 where g: "getu4 (c # e # s) = Some (rr, r1)"
    and r: "r = r1 \<or> (\<exists>rr1. getu4 r1 = Some (rr1, r))"
    using assms by (auto simp: read_escape_def read_unit_def split: option.splits if_splits)
  from getu4_suffix [OF g] obtain p where "s = p @ r1" by auto
  moreover have "\<exists>q. r1 = q @ r" using r getu4_suffix [of r1] by fastforce
  ultimately show ?thesis by (auto intro: exI [of _ "p @ q" for q])
qed (use assms in \<open>auto simp: read_escape_def\<close>)

lemma read_string_quote: "read_string s = Some (u, r) \<Longrightarrow> CHR 0x22 \<in> set s"
proof (induction s arbitrary: u r rule: read_string.induct)
  case (2 c cs)
  note run = "2.prems" [unfolded read_string.simps(2) Let_def]
  consider "c = CHR 0x22" | e r' where "c = CHR 0x5C" "cs = e # r'"
    | "c \<noteq> CHR 0x22" "c \<noteq> CHR 0x5C" using run by (cases cs) (auto split: if_splits)
  then show ?case
  proof cases
    case 2
    then obtain u' r1 v where esc: "read_escape c e r' = Some (u', r1)" "read_string r1 = Some (v, r)"
      using run by (auto simp: prepend_eq_Some split: option.splits)
    then show ?thesis using "2.IH"(1) [of e r' "(u', r1)" u' r1] 2 read_escape_suffix [OF esc(1)] by force
  next
    case 3
    then show ?thesis using run "2.IH"(2-4) set_drop_subset [of _ cs]
      by (fastforce simp: prepend_eq_Some split: if_splits)
  qed simp
qed simp

lemma read_string_more: "read_string s = Some (u, r) \<Longrightarrow> read_string (s @ t) = Some (u, r @ t)"
proof (induction s arbitrary: u r rule: read_string.induct)
  case (2 c cs)
  note run = "2.prems" [unfolded read_string.simps(2) Let_def]
  let ?n = "utf8_size (map of_char (c # cs))"
  consider "c = CHR 0x22" | e r' where "c = CHR 0x5C" "cs = e # r'"
    | "c \<noteq> CHR 0x22" "c \<noteq> CHR 0x5C" "(of_char c :: nat) < 128"
    | "c \<noteq> CHR 0x22" "c \<noteq> CHR 0x5C" "\<not> (of_char c :: nat) < 128" "?n = 0"
    | "c \<noteq> CHR 0x22" "c \<noteq> CHR 0x5C" "\<not> (of_char c :: nat) < 128" "?n \<noteq> 0"
    using run by (cases cs) (auto split: if_splits)
  then show ?case
  proof cases
    case 1
    then show ?thesis using run by (simp add: read_string.simps(2))
  next
    case 2
    then obtain u' r1 v where esc: "read_escape c e r' = Some (u', r1)" "read_string r1 = Some (v, r)" "u = u' @ v"
      using run by (auto simp: prepend_eq_Some split: option.splits)
    then show ?thesis using "2.IH"(1) [of e r' "(u', r1)" u' r1] 2 read_escape_more [OF esc(1,2), of t]
      by (simp add: read_string.simps(2) prepend_def)
  next
    case 3
    then obtain v where v: "read_string cs = Some (v, r)" "u = c # v" "\<not> (of_char c :: nat) < 32"
      using run by (auto simp: prepend_eq_Some split: if_splits)
    then have "read_string (cs @ t) = Some (v, r @ t)" using 3 "2.IH"(2) by simp
    then show ?thesis using 3 v by (simp add: read_string.simps(2) prepend_def)
  next
    case 4
    then obtain v where v: "read_string cs = Some (v, r)" "u = replacement @ v"
      using run by (auto simp: prepend_eq_Some)
    then have IH: "read_string (cs @ t) = Some (v, r @ t)" using 4 "2.IH"(3) by simp
    have "\<exists>b \<in> set (tl (map of_char (c # cs))). b < (128 :: nat)"
      using read_string_quote [OF v(1)] by (auto intro!: bexI [of _ "CHR 0x22"])
    then have "utf8_size (map of_char (c # cs) @ map of_char t) = 0" by (rule utf8_size_ascii_after [OF 4(4)])
    then show ?thesis using 4 v IH by (simp add: read_string.simps(2) prepend_def)
  next
    case 5
    then obtain v where v: "read_string (drop (?n - 1) cs) = Some (v, r)" "u = take ?n (c # cs) @ v"
      using run by (auto simp: prepend_eq_Some)
    then have IH: "read_string (drop (?n - 1) cs @ t) = Some (v, r @ t)" using 5 "2.IH"(4) by simp
    have len: "?n \<le> length (c # cs)" using utf8_size_range [of "map of_char (c # cs)"] by simp
    have "utf8_size (map of_char (c # cs) @ map of_char t) = ?n" by (rule utf8_size_more [OF 5(4)])
    then have "utf8_size (map of_char (c # cs @ t)) = ?n" by simp
    moreover have "take ?n (c # cs @ t) = take ?n (c # cs)" "drop (?n - 1) (cs @ t) = drop (?n - 1) cs @ t"
      using len take_append [of ?n "c # cs" t] by simp_all
    ultimately show ?thesis using 5 v IH by (simp add: read_string.simps(2) prepend_def)
  qed
qed simp

section \<open>Numbers\<close>

lemma digits_more: "digits s = (ds, r) \<Longrightarrow> r \<noteq> [] \<Longrightarrow> digits (s @ t) = (ds, r @ t)"
proof -
  assume "digits s = (ds, r)" "r \<noteq> []"
  then have "\<exists>c \<in> set s. \<not> is_digit c" by (auto simp: digits_def dropWhile_eq_Nil_conv)
  with \<open>digits s = (ds, r)\<close> show ?thesis
    by (auto simp: digits_def takeWhile_append1 dropWhile_append1)
qed

lemma read_integer_more:
  assumes "read_integer s = Some (i, r)" "r \<noteq> []"
  shows "read_integer (s @ t) = Some (i, r @ t)"
proof -
  obtain ds r0 where d: "digits s = (ds, r0)" by fastforce
  then have s: "s = ds @ r0" "ds = takeWhile is_digit s" by (auto simp: digits_def)
  from d assms(1) obtain e es where ds: "ds = e # es" by (cases ds) (auto simp: read_integer_def)
  show ?thesis
  proof (cases "r0 = []")
    case False
    then show ?thesis using assms(1) d digits_more [OF d False, of t] ds by (auto simp: read_integer_def split: if_splits)
  next
    case True
    then have e: "e = CHR ''0''" "i = [e]" "r = es" using assms d ds by (auto simp: read_integer_def split: if_splits)
    have "is_digit e" using s(2) unfolding ds by (metis list.set_intros(1) set_takeWhileD)
    have "digits (s @ t) = (e # takeWhile is_digit (es @ t), dropWhile is_digit (es @ t))"
      using s(1) ds True \<open>is_digit e\<close> by (simp add: digits_def)
    then show ?thesis using e by (simp add: read_integer_def)
  qed
qed

lemma read_fraction_more:
  assumes "read_fraction s = Some (f, r)" "r \<noteq> []"
  shows "read_fraction (s @ t) = Some (f, r @ t)"
proof (cases s)
  case (Cons c s')
  obtain ds r0 where d: "digits s' = (ds, r0)" by fastforce
  show ?thesis using assms Cons d digits_more [OF d, of t] by (auto simp: read_fraction_def split: if_splits)
qed (use assms in \<open>simp add: read_fraction_def\<close>)

lemma read_exponent_more:
  assumes "read_exponent s = Some (e, r)" "r \<noteq> []"
  shows "read_exponent (s @ t) = Some (e, r @ t)"
proof (cases s)
  case (Cons c s')
  show ?thesis
  proof (cases "c = CHR ''e'' \<or> c = CHR ''E''")
    case True
    show ?thesis
    proof (cases s')
      case Nil
      then show ?thesis using assms Cons True by (auto simp: read_exponent_def digits_def)
    next
      case s': (Cons d s'')
      obtain ds r0 where d: "digits s'' = (ds, r0)" by fastforce
      obtain es r1 where e: "digits (d # s'') = (es, r1)" by fastforce
      show ?thesis
        using assms Cons True s' d digits_more [OF d, of t] e digits_more [OF e, of t]
        by (auto simp: read_exponent_def split: if_splits)
    qed
  next
    case False
    then show ?thesis using assms Cons by (auto simp: read_exponent_def)
  qed
qed (use assms in \<open>simp add: read_exponent_def\<close>)

lemma read_number_more:
  assumes "read_number s = Some (n, r)" "r \<noteq> []"
  shows "read_number (s @ t) = Some (n, r @ t)"
proof -
  obtain sg s1 where sign: "read_sign s = (sg, s1)" by fastforce
  obtain i s2 f s3 e where parts: "read_integer s1 = Some (i, s2)" "read_fraction s2 = Some (f, s3)"
    "read_exponent s3 = Some (e, r)" "n = sg @ i @ f @ e"
    using assms by (auto simp: read_number_def sign split: option.splits)
  have s3: "s3 \<noteq> []" using parts(3) assms(2) by (auto simp: read_exponent_def)
  have s2: "s2 \<noteq> []" using parts(2) s3 by (auto simp: read_fraction_def)
  have "s \<noteq> []" using sign parts(1) by (auto simp: read_sign_def read_integer_def digits_def)
  then have "read_sign (s @ t) = (sg, s1 @ t)" using sign by (cases s) (auto simp: read_sign_def split: if_splits)
  then show ?thesis
    using read_integer_more [OF parts(1) s2] read_fraction_more [OF parts(2) s3] read_exponent_more [OF parts(3) assms(2)]
      parts(4) by (simp add: read_number_def)
qed

section \<open>Values\<close>

lemma skip_ws_more: "skip_ws s = c # r \<Longrightarrow> skip_ws (s @ t) = c # r @ t"
proof -
  assume s: "skip_ws s = c # r"
  then have "\<exists>x \<in> set s. \<not> is_ws x" by (metis dropWhile_eq_Nil_conv list.distinct(1) skip_ws_def)
  then show ?thesis using s by (auto simp: skip_ws_def dropWhile_append1)
qed

lemma literal_more: "literal w v s = Some (x, r) \<Longrightarrow> literal w v (s @ t) = Some (x, r @ t)"
  by (auto simp: literal_def cut_prefix_iff split: option.splits)

text \<open>Whether the end of a value needs the next character to be seen: it does after a number.\<close>

fun is_number :: "json \<Rightarrow> bool" where
  "is_number (JNum n) = True"
| "is_number _ = False"

lemma read_more:
  "read_value d s = Some (v, r) \<Longrightarrow> r \<noteq> [] \<or> \<not> is_number v \<Longrightarrow> read_value d (s @ t) = Some (v, r @ t)"
  "read_elements d s = Some (vs, r) \<Longrightarrow> read_elements d (s @ t) = Some (vs, r @ t)"
  "read_members d s = Some (kvs, r) \<Longrightarrow> read_members d (s @ t) = Some (kvs, r @ t)"
proof (induction d s and d s and d s arbitrary: v r and vs r and kvs r
    rule: read_value_read_elements_read_members.induct)
  case (1 d s)
  note run = "1.prems"(1) [unfolded read_value.simps [of d s]]
  obtain c s' where s: "skip_ws s = c # s'" using run by (cases "skip_ws s") auto
  note more = read_value.simps [of d "s @ t"] skip_ws_more [OF s, of t]
  consider "c = CHR 0x22" | "c = CHR ''[''" | "c = CHR ''{''" | "c \<in> {CHR ''n'', CHR ''t'', CHR ''f''}"
    | "c \<notin> {CHR 0x22, CHR ''['', CHR ''{'', CHR ''n'', CHR ''t'', CHR ''f''}" by blast
  then show ?case
  proof cases
    case 1
    then show ?thesis using run s more read_string_more by fastforce
  next
    case 2
    then obtain e s'' where s'': "skip_ws s' = e # s''" "d \<noteq> 0"
      using run s by (cases "skip_ws s'") (auto split: if_splits)
    then show ?thesis using run s more 2 "1.IH"(1) [OF s] skip_ws_more [OF s''(1), of t] by (auto split: if_splits)
  next
    case 3
    then obtain e s'' where s'': "skip_ws s' = e # s''" "d \<noteq> 0"
      using run s by (cases "skip_ws s'") (auto split: if_splits)
    then show ?thesis using run s more 3 "1.IH"(2) [OF s] skip_ws_more [OF s''(1), of t] by (auto split: if_splits)
  next
    case 4
    then show ?thesis using run s more literal_more [of _ _ "c # s'" v r t] by auto
  next
    case 5
    then obtain n where n: "read_number (c # s') = Some (n, r)" "v = JNum n" using run s by auto
    then have "r \<noteq> []" using "1.prems"(2) by simp
    with n read_number_more [OF n(1), of t] 5 show ?thesis using more by simp
  qed
next
  case (2 d s)
  note run = "2.prems" [unfolded read_elements.simps [of d s]]
  obtain v r1 where v: "read_value d s = Some (v, r1)" using run by (cases "read_value d s") auto
  then obtain c r' where r1: "skip_ws r1 = c # r'" using run by (cases "skip_ws r1") auto
  then have "r1 \<noteq> []" by (auto simp: skip_ws_def)
  then have "read_value d (s @ t) = Some (v, r1 @ t)" using "2.IH"(1) [OF v] by simp
  moreover note skip_ws_more [OF r1, of t]
  ultimately show ?case
    using run v r1 "2.IH"(2) [OF v] read_elements.simps [of d "s @ t"] by (auto split: if_splits)
next
  case (3 d s)
  note run = "3.prems" [unfolded read_members.simps [of d s]]
  obtain r0 where s: "skip_ws s = CHR 0x22 # r0" using run by (cases "skip_ws s") (auto split: if_splits)
  obtain k r1 where k: "read_string r0 = Some (k, r1)" using run s by (cases "read_string r0") auto
  obtain c r2 where c: "skip_ws r1 = c # r2" using run s k by (cases "skip_ws r1") auto
  then have colon: "c = CHR '':''" "\<not> length s \<le> length r2" using run s k by (auto split: if_splits)
  obtain v r3 where v: "read_value d r2 = Some (v, r3)" using run s k c colon by (cases "read_value d r2") auto
  obtain e r4 where e: "skip_ws r3 = e # r4" using run s k c colon v by (cases "skip_ws r3") auto
  then have "r3 \<noteq> []" by (auto simp: skip_ws_def)
  then have "read_value d (r2 @ t) = Some (v, r3 @ t)" using "3.IH"(1) [OF s _ k _ c _ v] colon by auto
  moreover have "e = CHR ''}'' \<or> e = CHR '','' \<and> length r4 < length s" using run s k c colon v e by (auto split: if_splits)
  moreover have "read_members d (r4 @ t) = Some (kvs', r @ t)"
    if "e \<noteq> CHR ''}''" "e = CHR '','' \<and> length r4 < length s" "read_members d r4 = Some (kvs', r)" for kvs'
    using "3.IH"(2) [OF s _ k _ c _ v _ e that] colon by auto
  ultimately show ?case
    using run s k c colon v e skip_ws_more [OF s, of t] read_string_more [OF k, of t] skip_ws_more [OF c, of t]
      skip_ws_more [OF e, of t] read_members.simps [of d "s @ t"]
    by (auto split: if_splits)
qed

section \<open>What is read is valid UTF-8\<close>

text \<open>One encoded character.\<close>

definition utf8_piece :: "string \<Rightarrow> bool" where
  "utf8_piece p \<longleftrightarrow> (\<exists>c. p = [c] \<and> (of_char c :: nat) < 128)
     \<or> (p \<noteq> [] \<and> \<not> (of_char (hd p) :: nat) < 128 \<and> utf8_size (map of_char p) = length p)"

lemma utf8_clean_piece: "utf8_piece p \<Longrightarrow> utf8_clean (p @ s) = p @ utf8_clean s"
proof -
  assume p: "utf8_piece p"
  then consider c where "p = [c]" "(of_char c :: nat) < 128"
    | "p \<noteq> []" "\<not> (of_char (hd p) :: nat) < 128" "utf8_size (map of_char p) = length p"
    by (auto simp: utf8_piece_def)
  then show ?thesis
  proof cases
    case 2
    then obtain c cs where cs: "p = c # cs" by (cases p) auto
    have "utf8_size (map of_char p @ map of_char s) = length p" using 2 utf8_size_more [of "map of_char p"] by simp
    then have "utf8_size (map of_char (c # cs @ s)) = Suc (length cs)" by (simp add: cs)
    then show ?thesis using 2 by (simp add: cs utf8_clean.simps(2))
  qed (simp add: utf8_clean.simps(2))
qed

lemma replacement_piece: "utf8_piece replacement"
  by (simp add: utf8_piece_def replacement_def cont_def)

lemma char_below_256: "n < 256 \<Longrightarrow> (of_char (char_of n :: char) :: nat) = n"
  by simp

lemma pieces:
  fixes a b c d :: nat
  assumes "b < 64" "c < 64" "d < 64"
  shows "2 \<le> a \<Longrightarrow> a < 32 \<Longrightarrow> utf8_piece [char_of (0xC0 + a), char_of (0x80 + b)]"
    "a < 16 \<Longrightarrow> a = 0 \<longrightarrow> 32 \<le> b \<Longrightarrow> a = 13 \<longrightarrow> b < 32 \<Longrightarrow>
      utf8_piece [char_of (0xE0 + a), char_of (0x80 + b), char_of (0x80 + c)]"
    "a \<le> 4 \<Longrightarrow> a = 0 \<longrightarrow> 16 \<le> b \<Longrightarrow> a = 4 \<longrightarrow> b < 16 \<Longrightarrow>
      utf8_piece [char_of (0xF0 + a), char_of (0x80 + b), char_of (0x80 + c), char_of (0x80 + d)]"
proof -
  have "cont (0x80 + b)" "cont (0x80 + c)" "cont (0x80 + d)" using assms by (simp_all add: cont_def)
  note conts = this char_below_256 [of "0x80 + b"] char_below_256 [of "0x80 + c"] char_below_256 [of "0x80 + d"]
  show "utf8_piece [char_of (0xC0 + a), char_of (0x80 + b)]" if "2 \<le> a" "a < 32"
    unfolding utf8_piece_def using that conts assms char_below_256 [of "0xC0 + a"] by simp
  show "utf8_piece [char_of (0xE0 + a), char_of (0x80 + b), char_of (0x80 + c)]"
    if "a < 16" "a = 0 \<longrightarrow> 32 \<le> b" "a = 13 \<longrightarrow> b < 32"
  proof -
    have "a = 0 \<or> a = 13 \<or> 1 \<le> a \<and> a \<noteq> 13" by linarith
    then show ?thesis
      unfolding utf8_piece_def using that conts assms char_below_256 [of "0xE0 + a"] by (elim disjE) simp_all
  qed
  show "utf8_piece [char_of (0xF0 + a), char_of (0x80 + b), char_of (0x80 + c), char_of (0x80 + d)]"
    if "a \<le> 4" "a = 0 \<longrightarrow> 16 \<le> b" "a = 4 \<longrightarrow> b < 16"
  proof -
    have "a = 0 \<or> a = 4 \<or> 1 \<le> a \<and> a \<le> 3" using that(1) by linarith
    then show ?thesis
      unfolding utf8_piece_def using that conts assms char_below_256 [of "0xF0 + a"] by (elim disjE) simp_all
  qed
qed

lemma utf8_encode_piece:
  assumes "n < 0x110000" "\<not> (0xD800 \<le> n \<and> n \<le> 0xDFFF)"
  shows "utf8_piece (utf8_encode n)"
proof -
  note m = pieces [where b = "n div 4096 mod 64" and c = "n div 64 mod 64" and d = "n mod 64"]
    pieces [where b = "n div 64 mod 64" and c = "n mod 64" and d = 0] pieces [where b = "n mod 64" and c = 0 and d = 0]
  consider "n < 0x80" | "0x80 \<le> n" "n < 0x800" | "0x800 \<le> n" "n < 0x10000" | "0x10000 \<le> n" by linarith
  then show ?thesis
  proof cases
    case 1
    then show ?thesis by (simp add: utf8_piece_def utf8_encode_def)
  next
    case 2
    then have "2 \<le> n div 64" "n div 64 < 32" by linarith+
    with 2 show ?thesis unfolding utf8_encode_def using m(7) [of "n div 64"] by simp
  next
    case 3
    define k where "k = n div 64"
    have "32 \<le> k" "k < 1024" "k < 864 \<or> 896 \<le> k" using 3 assms(2) unfolding k_def by linarith+
    moreover have "k = 64 * (k div 64) + k mod 64" "k mod 64 < 64" by simp_all
    ultimately have "k div 64 < 16" "k div 64 = 0 \<longrightarrow> 32 \<le> k mod 64" "k div 64 = 13 \<longrightarrow> k mod 64 < 32" by linarith+
    moreover have "n div 4096 = k div 64" by (simp add: k_def flip: div_mult2_eq)
    ultimately have "n div 4096 < 16" "n div 4096 = 0 \<longrightarrow> 32 \<le> n div 64 mod 64" "n div 4096 = 13 \<longrightarrow> n div 64 mod 64 < 32"
      by (simp_all add: k_def)
    with 3 show ?thesis unfolding utf8_encode_def using m(5) [of "n div 4096"] by simp
  next
    case 4
    define k where "k = n div 4096"
    have "16 \<le> k" "k < 272" using 4 assms(1) unfolding k_def by linarith+
    moreover have "k = 64 * (k div 64) + k mod 64" "k mod 64 < 64" by simp_all
    ultimately have "k div 64 \<le> 4" "k div 64 = 0 \<longrightarrow> 16 \<le> k mod 64" "k div 64 = 4 \<longrightarrow> k mod 64 < 16" by linarith+
    moreover have "n div 262144 = k div 64" by (simp add: k_def flip: div_mult2_eq)
    ultimately have "n div 262144 \<le> 4" "n div 262144 = 0 \<longrightarrow> 16 \<le> n div 4096 mod 64" "n div 262144 = 4 \<longrightarrow> n div 4096 mod 64 < 16"
      by (simp_all add: k_def)
    with 4 show ?thesis unfolding utf8_encode_def using m(3) [of "n div 262144"] by simp
  qed
qed

lemma hex_digit_16: "hex_digit_value c = Some n \<Longrightarrow> n < 16"
  by (auto simp: hex_digit_value_def Let_def split: if_splits)

lemma getu4_16_bits: "getu4 s = Some (n, r) \<Longrightarrow> n < 0x10000"
proof (cases s rule: getu4.cases)
  case (1 c u a b d e r')
  assume "getu4 s = Some (n, r)"
  then obtain w x y z where "hex_digit_value a = Some w" "hex_digit_value b = Some x" "hex_digit_value d = Some y"
    "hex_digit_value e = Some z" "n = ((w * 16 + x) * 16 + y) * 16 + z"
    using 1 by (auto split: if_splits option.splits)
  moreover from this have "w < 16" "x < 16" "y < 16" "z < 16" using hex_digit_16 by blast+
  then have "w * 16 + x \<le> 255" and low: "y * 16 + z < 256" by linarith+
  then have "(w * 16 + x) * 256 \<le> 255 * 256" by (intro mult_right_mono) simp_all
  with low have "(w * 16 + x) * 256 + (y * 16 + z) < 65536" by linarith
  moreover have "n = (w * 16 + x) * 256 + (y * 16 + z)" using calculation by simp
  ultimately show ?thesis by simp
qed simp_all

lemma read_unit_piece:
  assumes "read_unit s = Some (t, r)"
  shows "utf8_piece t"
proof -
  obtain rr r1 where g: "getu4 s = Some (rr, r1)" using assms by (auto simp: read_unit_def split: option.splits)
  consider "t = replacement" | "t = utf8_encode rr" "\<not> (0xD800 \<le> rr \<and> rr \<le> 0xDFFF)"
    | rr1 where "t = utf8_encode (0x10000 + (rr - 0xD800) * 1024 + (rr1 - 0xDC00))" "rr \<le> 0xDBFF" "rr1 \<le> 0xDFFF"
  proof (cases "0xD800 \<le> rr \<and> rr \<le> 0xDFFF")
    case True
    show ?thesis
    proof (cases "getu4 r1")
      case None
      then show ?thesis using that(1) assms g True by (simp add: read_unit_def)
    next
      case (Some p)
      obtain rr1 r2 where p: "p = (rr1, r2)" by fastforce
      show ?thesis
      proof (cases "rr \<le> 0xDBFF \<and> 0xDC00 \<le> rr1 \<and> rr1 \<le> 0xDFFF")
        case True
        then show ?thesis using that(3) [of rr1] assms g Some p \<open>0xD800 \<le> rr \<and> _\<close> by (simp add: read_unit_def)
      next
        case False
        then show ?thesis using that(1) assms g Some p True by (simp add: read_unit_def split: if_splits)
      qed
    qed
  next
    case False
    then show ?thesis using that(2) assms g by (auto simp: read_unit_def split: if_splits)
  qed
  then show ?thesis
  proof cases
    case 2
    then show ?thesis using getu4_16_bits [OF g] by (simp add: utf8_encode_piece)
  next
    case 3
    have "rr - 0xD800 \<le> 0x3FF" "rr1 - 0xDC00 \<le> 0x3FF" using 3 by linarith+
    then show ?thesis unfolding 3(1) by (intro utf8_encode_piece) linarith+
  qed (simp add: replacement_piece)
qed

lemma read_escape_piece:
  assumes "read_escape c e r = Some (t, r')"
  shows "utf8_piece t"
proof (cases "e = CHR ''u''")
  case True
  then show ?thesis using assms read_unit_piece by (simp add: read_escape_def)
next
  case False
  then obtain x where x: "(e, x) \<in> set escapes" "t = [x]" using assms by (auto simp: read_escape_def dest: map_of_SomeD)
  have "\<forall>(e, x) \<in> set escapes. (of_char x :: nat) < 128" by (simp add: escapes_def)
  then show ?thesis using x by (auto simp: utf8_piece_def)
qed

lemma utf8_take_piece:
  assumes "\<not> (of_char c :: nat) < 128" "utf8_size (map of_char (c # cs)) = n" "n \<noteq> 0"
  shows "utf8_piece (take n (c # cs))"
proof -
  have "n \<le> length (c # cs)" using utf8_size_range [of "map of_char (c # cs)"] assms(2) by simp
  moreover have "utf8_size (map of_char (take n (c # cs))) = n"
    using utf8_size_append [of "map of_char (c # cs)" "[]"] assms(2,3) by (simp only: take_map) simp
  ultimately show ?thesis using assms(1,3) by (cases n) (auto simp: utf8_piece_def)
qed

lemma read_string_clean: "read_string s = Some (u, r) \<Longrightarrow> utf8_clean u = u"
proof (induction s arbitrary: u r rule: read_string.induct)
  case (2 c cs)
  note run = "2.prems" [unfolded read_string.simps(2) Let_def]
  let ?n = "utf8_size (map of_char (c # cs))"
  have done_by: "utf8_clean u = u" if "utf8_piece p" "u = p @ v" "utf8_clean v = v" for p v
    using that utf8_clean_piece by metis
  consider "c = CHR 0x22" | e r' where "c = CHR 0x5C" "cs = e # r'"
    | "c \<noteq> CHR 0x22" "c \<noteq> CHR 0x5C" "(of_char c :: nat) < 128"
    | "c \<noteq> CHR 0x22" "c \<noteq> CHR 0x5C" "\<not> (of_char c :: nat) < 128" "?n = 0"
    | "c \<noteq> CHR 0x22" "c \<noteq> CHR 0x5C" "\<not> (of_char c :: nat) < 128" "?n \<noteq> 0"
    using run by (cases cs) (auto split: if_splits)
  then show ?case
  proof cases
    case 1
    then show ?thesis using run by simp
  next
    case 2
    then obtain u' r1 v where esc: "read_escape c e r' = Some (u', r1)" "read_string r1 = Some (v, r)" "u = u' @ v"
      using run by (auto simp: prepend_eq_Some split: option.splits)
    then show ?thesis using "2.IH"(1) [of e r' "(u', r1)" u' r1] 2 done_by [OF read_escape_piece [OF esc(1)] esc(3)] by simp
  next
    case 3
    then obtain v where v: "read_string cs = Some (v, r)" "u = [c] @ v" "\<not> (of_char c :: nat) < 32"
      using run by (auto simp: prepend_eq_Some split: if_splits)
    then have "utf8_clean v = v" using 3 "2.IH"(2) by simp
    then show ?thesis using 3 by (intro done_by [OF _ v(2)]) (auto simp: utf8_piece_def)
  next
    case 4
    then obtain v where v: "read_string cs = Some (v, r)" "u = replacement @ v" using run by (auto simp: prepend_eq_Some)
    then have "utf8_clean v = v" using 4 "2.IH"(3) by simp
    then show ?thesis by (rule done_by [OF replacement_piece v(2)])
  next
    case 5
    then obtain v where v: "read_string (drop (?n - 1) cs) = Some (v, r)" "u = take ?n (c # cs) @ v"
      using run by (auto simp: prepend_eq_Some)
    then have "utf8_clean v = v" using 5 "2.IH"(4) by simp
    then show ?thesis using done_by [OF utf8_take_piece [OF 5(3) refl 5(4)] v(2)] by simp
  qed
qed simp

lemma read_clean:
  "read_value d s = Some (v, r) \<Longrightarrow> json_clean v = v"
  "read_elements d s = Some (vs, r) \<Longrightarrow> list_all (\<lambda>v. json_clean v = v) vs"
  "read_members d s = Some (kvs, r) \<Longrightarrow> list_all (\<lambda>kv. utf8_clean (fst kv) = fst kv \<and> json_clean (snd kv) = snd kv) kvs"
proof (induction d s and d s and d s arbitrary: v r and vs r and kvs r
    rule: read_value_read_elements_read_members.induct)
  case (1 d s)
  note run = "1.prems"(1) [unfolded read_value.simps [of d s]]
  obtain c s' where s: "skip_ws s = c # s'" using run by (cases "skip_ws s") auto
  have arr: "json_clean v = v" if "read_elements (d - 1) s' = Some (vs, r)" "v = JArr vs" "c = CHR ''[''" "d \<noteq> 0"
    "skip_ws s' = e # s''" "e \<noteq> CHR '']''" for vs e s''
    using "1.IH"(1) [OF s _ that(3,4,5,6) that(1)] that by (auto simp: list_all_iff intro: map_idI)
  have obj: "json_clean v = v" if "read_members (d - 1) s' = Some (kvs, r)" "v = JObj kvs" "c = CHR ''{''" "d \<noteq> 0"
    "skip_ws s' = e # s''" "e \<noteq> CHR ''}''" for kvs e s''
    using "1.IH"(2) [OF s _ _ that(3,4,5,6) that(1)] that by (auto simp: list_all_iff intro!: map_idI)
  consider "c = CHR 0x22" | "c = CHR ''[''" | "c = CHR ''{''" | "c \<notin> {CHR 0x22, CHR ''['', CHR ''{''}" by blast
  then show ?case
  proof cases
    case 1
    then show ?thesis using run s read_string_clean by auto
  next
    case 2
    then show ?thesis using run s arr by (cases "skip_ws s'") (auto split: if_splits)
  next
    case 3
    then show ?thesis using run s obj by (cases "skip_ws s'") (auto split: if_splits)
  next
    case 4
    then show ?thesis using run s by (auto simp: literal_def split: if_splits option.splits)
  qed
next
  case (2 d s)
  note run = "2.prems" [unfolded read_elements.simps [of d s]]
  obtain v r1 where v: "read_value d s = Some (v, r1)" using run by (cases "read_value d s") auto
  then obtain c r' where r1: "skip_ws r1 = c # r'" using run by (cases "skip_ws r1") auto
  show ?case
    using run v r1 "2.IH"(1) [OF v] "2.IH"(2) [OF v refl r1] by (auto split: if_splits)
next
  case (3 d s)
  note run = "3.prems" [unfolded read_members.simps [of d s]]
  obtain r0 where s: "skip_ws s = CHR 0x22 # r0" using run by (cases "skip_ws s") (auto split: if_splits)
  obtain k r1 where k: "read_string r0 = Some (k, r1)" using run s by (cases "read_string r0") auto
  obtain c r2 where c: "skip_ws r1 = c # r2" using run s k by (cases "skip_ws r1") auto
  then have colon: "c = CHR '':''" "\<not> length s \<le> length r2" using run s k by (auto split: if_splits)
  obtain v r3 where v: "read_value d r2 = Some (v, r3)" using run s k c colon by (cases "read_value d r2") auto
  obtain e r4 where e: "skip_ws r3 = e # r4" using run s k c colon v by (cases "skip_ws r3") auto
  have "json_clean v = v" using "3.IH"(1) [OF s _ k _ c _ v] colon by auto
  moreover have "list_all (\<lambda>kv. utf8_clean (fst kv) = fst kv \<and> json_clean (snd kv) = snd kv) kvs'"
    if "e \<noteq> CHR ''}''" "e = CHR '','' \<and> length r4 < length s" "read_members d r4 = Some (kvs', r)" for kvs'
    using "3.IH"(2) [OF s _ k _ c _ v _ e that] colon by auto
  ultimately show ?case
    using run s k c colon v e read_string_clean [OF k] by (auto split: if_splits)
qed

end
