(* ===== verification/Json_Scanner.thy ===== *)
theory Json_Scanner
  imports Json_Reader
begin

text \<open>
  \<open>Decoder.Token\<close> of \<open>encoding/json\<close> on the bytes of a text: the state machine that yields the tokens of
  \<open>Json_Tokens\<close>, and that on a text which reads as a value it yields exactly the tokens of that value. A token that is
  cut off counts as invalid syntax, and a string, number or word at the very end of the bytes is only yielded if they end
  the input, since the decoder looks at the byte after it.
\<close>

datatype token_state =
    TopValue
  | ArrayStart
  | ArrayValue
  | ArrayComma
  | ObjectStart
  | ObjectKey
  | ObjectColon
  | ObjectValue
  | ObjectComma

fun tokenValueAllowed :: "token_state \<Rightarrow> bool" where
  "tokenValueAllowed TopValue = True"
| "tokenValueAllowed ArrayStart = True"
| "tokenValueAllowed ArrayValue = True"
| "tokenValueAllowed ObjectValue = True"
| "tokenValueAllowed _ = False"

fun tokenValueEnd :: "token_state \<Rightarrow> token_state" where
  "tokenValueEnd ArrayStart = ArrayComma"
| "tokenValueEnd ArrayValue = ArrayComma"
| "tokenValueEnd ObjectValue = ObjectComma"
| "tokenValueEnd st = st"

definition read_scalar :: "string \<Rightarrow> (token \<times> string) option" where
  "read_scalar s =
     (case s of
        [] \<Rightarrow> None
      | c # r \<Rightarrow>
          if c = CHR 0x22 then map_option (\<lambda>(t, r'). (Str t, r')) (read_string r)
          else if c = CHR ''n'' then map_option (\<lambda>(_, r'). (Null, r')) (literal ''null'' JNull s)
          else if c = CHR ''t'' then map_option (\<lambda>(_, r'). (Boolean True, r')) (literal ''true'' JNull s)
          else if c = CHR ''f'' then map_option (\<lambda>(_, r'). (Boolean False, r')) (literal ''false'' JNull s)
          else map_option (\<lambda>(n, r'). (Num n, r')) (read_number s))"

lemma literal_shorter: "w \<noteq> [] \<Longrightarrow> literal w v s = Some (x, r) \<Longrightarrow> length r < length s"
  by (auto simp: literal_def cut_prefix_iff split: option.splits)

lemma read_scalar_shorter: "read_scalar s = Some (t, r) \<Longrightarrow> length r < length s"
  by (auto simp: read_scalar_def split: list.splits if_splits dest: read_string_shorter read_number_shorter
      dest!: literal_shorter [rotated])

lemma skip_ws_Cons: "skip_ws s = c # r \<Longrightarrow> length r < length s"
  using skip_ws_shorter [of s] by simp

definition emit :: "token list \<Rightarrow> token list \<times> dec_end \<Rightarrow> token list \<times> dec_end" where
  "emit ts x = (ts @ fst x, snd x)"

lemma emit_emit [simp]: "emit ts (emit us x) = emit (ts @ us) x"
  by (simp add: emit_def)

function scan :: "dec_end \<Rightarrow> token_state \<Rightarrow> token_state list \<Rightarrow> string \<Rightarrow> token list \<times> dec_end" where
  "scan e st stack s =
     (case skip_ws s of
        [] \<Rightarrow> ([], e)
      | c # r \<Rightarrow>
          if c = CHR ''['' then
            (if tokenValueAllowed st then emit [Delim LBrack] (scan e ArrayStart (st # stack) r) else ([], EndSyntax))
          else if c = CHR '']'' then
            (if (st = ArrayStart \<or> st = ArrayComma) \<and> stack \<noteq> []
             then emit [Delim RBrack] (scan e (tokenValueEnd (hd stack)) (tl stack) r) else ([], EndSyntax))
          else if c = CHR ''{'' then
            (if tokenValueAllowed st then emit [Delim LBrace] (scan e ObjectStart (st # stack) r) else ([], EndSyntax))
          else if c = CHR ''}'' then
            (if (st = ObjectStart \<or> st = ObjectComma) \<and> stack \<noteq> []
             then emit [Delim RBrace] (scan e (tokenValueEnd (hd stack)) (tl stack) r) else ([], EndSyntax))
          else if c = CHR '':'' then
            (if st = ObjectColon then scan e ObjectValue stack r else ([], EndSyntax))
          else if c = CHR '','' then
            (if st = ArrayComma then scan e ArrayValue stack r
             else if st = ObjectComma then scan e ObjectKey stack r else ([], EndSyntax))
          else
            (let key = c = CHR 0x22 \<and> (st = ObjectStart \<or> st = ObjectKey) in
             if \<not> key \<and> \<not> tokenValueAllowed st then ([], EndSyntax)
             else (case read_scalar (c # r) of
                     None \<Rightarrow> ([], EndSyntax)
                   | Some (t, r') \<Rightarrow>
                       if r' = [] \<and> e \<noteq> EndEOF then ([], e)
                       else emit [t] (scan e (if key then ObjectColon else tokenValueEnd st) stack r'))))"
  by pat_completeness auto
termination
proof (relation "measure (\<lambda>(e, st, stack, s). length s)", goal_cases)
  case (9 e st stack s c r key p t r')
  then have "length r' < length (c # r)" using read_scalar_shorter [of "c # r" t r'] by simp
  then show ?case using skip_ws_Cons [OF 9(1)] by simp
qed (simp_all only: in_measure prod.case wf_measure skip_ws_Cons)

declare scan.simps [simp del]

section \<open>The tokens of a text that reads as a value\<close>

lemma emit_fst [simp]: "emit [] x = x"
  by (simp add: emit_def)

lemma scan_container:
  assumes "skip_ws s = c # r"
  shows "c = CHR ''['' \<Longrightarrow> tokenValueAllowed st \<Longrightarrow> scan e st stack s = emit [Delim LBrack] (scan e ArrayStart (st # stack) r)"
    "c = CHR ''{'' \<Longrightarrow> tokenValueAllowed st \<Longrightarrow> scan e st stack s = emit [Delim LBrace] (scan e ObjectStart (st # stack) r)"
    "c = CHR '']'' \<Longrightarrow> st = ArrayStart \<or> st = ArrayComma \<Longrightarrow> scan e st (p # stack) s = emit [Delim RBrack] (scan e (tokenValueEnd p) stack r)"
    "c = CHR ''}'' \<Longrightarrow> st = ObjectStart \<or> st = ObjectComma \<Longrightarrow> scan e st (p # stack) s = emit [Delim RBrace] (scan e (tokenValueEnd p) stack r)"
    "c = CHR '':'' \<Longrightarrow> scan e ObjectColon stack s = scan e ObjectValue stack r"
    "c = CHR '','' \<Longrightarrow> scan e ArrayComma stack s = scan e ArrayValue stack r"
    "c = CHR '','' \<Longrightarrow> scan e ObjectComma stack s = scan e ObjectKey stack r"
  using assms by (subst scan.simps, simp)+

lemma scan_scalar:
  assumes "skip_ws s = c # r" "c \<notin> set ''[]{}:,''" "read_scalar (c # r) = Some (t, r')" "r' \<noteq> [] \<or> e = EndEOF"
    and "tokenValueAllowed st" "c \<noteq> CHR 0x22 \<or> st \<noteq> ObjectStart"
  shows "scan e st stack s = emit [t] (scan e (tokenValueEnd st) stack r')"
proof -
  have "\<not> (c = CHR 0x22 \<and> (st = ObjectStart \<or> st = ObjectKey))" using assms(5,6) by (cases st) auto
  moreover have "\<not> (r' = [] \<and> e \<noteq> EndEOF)" using assms(4) by blast
  ultimately show ?thesis using assms(1,2,3,5) by (subst scan.simps) (simp add: Let_def, blast)
qed

lemma scan_key:
  assumes "skip_ws s = CHR 0x22 # r" "read_string r = Some (k, r')" "r' \<noteq> []" "st = ObjectStart \<or> st = ObjectKey"
  shows "scan e st stack s = emit [Str k] (scan e ObjectColon stack r')"
  using assms by (subst scan.simps) (auto simp: Let_def read_scalar_def)

lemma read_value_heads:
  assumes "read_value d s = Some (v, r)" "skip_ws s = c # s'"
  shows "c \<notin> set '']}:,''"
proof
  assume "c \<in> set '']}:,''"
  then have "read_number (c # s') = None"
    by (auto simp: read_number_def read_sign_def read_integer_def digits_def is_digit_def)
  then show False using assms \<open>c \<in> set _\<close> by (subst (asm) read_value.simps) auto
qed

text \<open>Whether the decoder looks at the byte after a value.\<close>

fun is_container :: "json \<Rightarrow> bool" where
  "is_container (JArr vs) = True"
| "is_container (JObj kvs) = True"
| "is_container _ = False"

lemma scan_value:
  "read_value d s = Some (v, r) \<Longrightarrow> tokenValueAllowed st \<Longrightarrow> r \<noteq> [] \<or> e = EndEOF \<or> is_container v
    \<Longrightarrow> scan e st stack s = emit (toks v) (scan e (tokenValueEnd st) stack r)"
  "read_elements d s = Some (vs, r) \<Longrightarrow> st = ArrayStart \<or> st = ArrayValue
    \<Longrightarrow> scan e st (p # stack) s = emit (concat (map toks vs) @ [Delim RBrack]) (scan e (tokenValueEnd p) stack r)"
  "read_members d s = Some (kvs, r) \<Longrightarrow> st = ObjectStart \<or> st = ObjectKey
    \<Longrightarrow> scan e st (p # stack) s = emit (member_toks kvs @ [Delim RBrace]) (scan e (tokenValueEnd p) stack r)"
proof (induction d s and d s and d s arbitrary: v r st stack and vs r st p stack and kvs r st p stack
    rule: read_value_read_elements_read_members.induct)
  case (1 d s)
  note run = "1.prems"(1) [unfolded read_value.simps [of d s]]
  obtain c s' where s: "skip_ws s = c # s'" using run by (cases "skip_ws s") auto
  have no: "c \<notin> set '']}:,''" by (rule read_value_heads [OF "1.prems"(1) s])
  consider "c = CHR ''[''" | "c = CHR ''{''" | "c \<notin> set ''[]{}:,''" using no by auto
  then show ?case
  proof cases
    case 1
    then obtain e' s'' where s'': "skip_ws s' = e' # s''" "d \<noteq> 0"
      using run s by (cases "skip_ws s'") (auto split: if_splits)
    show ?thesis
    proof (cases "e' = CHR '']''")
      case True
      then have "v = JArr []" "r = s''" using run s 1 s'' by auto
      then show ?thesis using scan_container(1) [OF s 1 "1.prems"(2)] scan_container(3) [OF s''(1) True] by simp
    next
      case False
      then obtain vs where "read_elements (d - 1) s' = Some (vs, r)" "v = JArr vs" using run s 1 s'' by auto
      then show ?thesis
        using scan_container(1) [OF s 1 "1.prems"(2)] "1.IH"(1) [OF s _ 1 s''(2,1) False] 1 by simp
    qed
  next
    case 2
    then obtain e' s'' where s'': "skip_ws s' = e' # s''" "d \<noteq> 0"
      using run s by (cases "skip_ws s'") (auto split: if_splits)
    show ?thesis
    proof (cases "e' = CHR ''}''")
      case True
      then have "v = JObj []" "r = s''" using run s 2 s'' by auto
      then show ?thesis using scan_container(2) [OF s 2 "1.prems"(2)] scan_container(4) [OF s''(1) True] by simp
    next
      case False
      then obtain kvs where "read_members (d - 1) s' = Some (kvs, r)" "v = JObj kvs" using run s 2 s'' by auto
      then show ?thesis
        using scan_container(2) [OF s 2 "1.prems"(2)] "1.IH"(2) [OF s _ _ 2 s''(2,1) False] 2
        by (simp add: toks_JObj del: toks.simps)
    qed
  next
    case 3
    then obtain t where t: "read_scalar (c # s') = Some (t, r)" "toks v = [t]" "\<not> is_container v"
      using run s by (auto simp: read_scalar_def literal_def split: if_splits option.splits)
    have "c \<noteq> CHR 0x22 \<or> st \<noteq> ObjectStart" using "1.prems"(2) by auto
    then show ?thesis using scan_scalar [OF s 3 t(1) _ "1.prems"(2)] t "1.prems"(3) by simp
  qed
next
  case (2 d s)
  note run = "2.prems"(1) [unfolded read_elements.simps [of d s]]
  obtain v r1 where v: "read_value d s = Some (v, r1)" using run by (cases "read_value d s") auto
  then obtain c r' where r1: "skip_ws r1 = c # r'" using run by (cases "skip_ws r1") auto
  then have "r1 \<noteq> []" by (auto simp: skip_ws_def)
  then have first: "scan e st (p # stack) s = emit (toks v) (scan e ArrayComma (p # stack) r1)"
    using "2.IH"(1) [of v r1 st "p # stack"] v "2.prems"(2) by auto
  show ?case
  proof (cases "c = CHR '']''")
    case True
    then show ?thesis using run v r1 first scan_container(3) [OF r1 True, of ArrayComma] by auto
  next
    case False
    then obtain vs' where "c = CHR '',''" "length r' < length s" "read_elements d r' = Some (vs', r)" "vs = v # vs'"
      using run v r1 by (auto split: if_splits)
    then show ?thesis
      using first scan_container(6) [OF r1] "2.IH"(2) [OF v refl r1 False _ , of vs' r ArrayValue p stack] by simp
  qed
next
  case (3 d s)
  note run = "3.prems"(1) [unfolded read_members.simps [of d s]]
  obtain r0 where s: "skip_ws s = CHR 0x22 # r0" using run by (cases "skip_ws s") (auto split: if_splits)
  obtain k r1 where k: "read_string r0 = Some (k, r1)" using run s by (cases "read_string r0") auto
  obtain c r2 where c: "skip_ws r1 = c # r2" using run s k by (cases "skip_ws r1") auto
  then have colon: "c = CHR '':''" "\<not> length s \<le> length r2" using run s k by (auto split: if_splits)
  obtain v r3 where v: "read_value d r2 = Some (v, r3)" using run s k c colon by (cases "read_value d r2") auto
  obtain x r4 where x: "skip_ws r3 = x # r4" using run s k c colon v by (cases "skip_ws r3") auto
  then have "r3 \<noteq> []" by (auto simp: skip_ws_def)
  then have val: "scan e ObjectValue (p # stack) r2 = emit (toks v) (scan e ObjectComma (p # stack) r3)"
    using "3.IH"(1) [OF s _ k _ c _ v, where st = ObjectValue and stack = "p # stack"] colon by auto
  have "r1 \<noteq> []" using c by (auto simp: skip_ws_def)
  then have first: "scan e st (p # stack) s = emit (Str k # toks v) (scan e ObjectComma (p # stack) r3)"
    using scan_key [OF s k _ "3.prems"(2)] scan_container(5) [OF c colon(1)] val by simp
  show ?case
  proof (cases "x = CHR ''}''")
    case True
    then show ?thesis using run s k c colon v x first scan_container(4) [OF x True, of ObjectComma] by auto
  next
    case False
    then obtain kvs' where rest: "x = CHR '',''" "length r4 < length s" "read_members d r4 = Some (kvs', r)" "kvs = (k, v) # kvs'"
      using run s k c colon v x by (auto split: if_splits)
    then have "scan e ObjectKey (p # stack) r4 = emit (member_toks kvs' @ [Delim RBrace]) (scan e (tokenValueEnd p) stack r)"
      using "3.IH"(2) [OF s _ k _ c _ v _ x False, where st = ObjectKey and p = p and stack = stack and kvs = kvs' and r = r] colon by auto
    then show ?thesis using first scan_container(7) [OF x] rest by simp
  qed
qed

lemma scan_text:
  assumes "read_json s = Some v"
  shows "scan EndEOF TopValue [] s = (toks v, EndEOF)"
proof -
  obtain r where r: "read_value maxNesting s = Some (v, r)" "skip_ws r = []"
    using assms by (auto simp: read_json_def split: option.splits if_splits)
  have "scan EndEOF TopValue [] r = ([], EndEOF)" using r(2) by (subst scan.simps) simp
  then show ?thesis using scan_value(1) [OF r(1), of TopValue EndEOF "[]"] by (simp add: emit_def)
qed

end
