(* ===== verification/Mapping_Loader.thy ===== *)
theory Mapping_Loader
  imports Mapping_Download Mapping_Reference Config_Load Json_Scanner Byte_Readers
begin

text \<open>
  Loading the mapping (\<open>internal/mapping/loader.go\<close>, with \<open>parseAnibridge\<close> of \<open>anibridge.go\<close>): the cached file
  with its sidecar, the freshness check, the download and the fallback, and the one parsed source that
  is kept in memory. The admission gate serializes the loads, so a load is a function of the
  loader's state and the disk. What the requests, the reads and the context give are inputs; other
  processes may change the disk while a request is out, and the opened file between the two passes over it.
\<close>

section \<open>State\<close>

datatype disposition = Loaded | Reused | Fallback

record load_result =
  ld_Mapping :: anibridge_mapping
  ld_Metadata :: metadata
  ld_Disposition :: disposition

record parsed_source =
  ps_path :: string
  ps_url :: string
  ps_digest :: string
  ps_mapping :: anibridge_mapping
  ps_metadata :: metadata

record selected_source =
  ss_result :: load_result
  ss_digest :: string

datatype load_err =
    LoadCtx ctx_err
  | BadMappingPath path_err
  | BadURL http_err
  | OpenFailed string
  | HashFailed read_err
  | RewindFailed string
  | ZstdFailed string
  | ParseFailed parse_err
  | FinishFailed string
  | ChangedDuringInspection
  | DownloadFailed http_err
  | CacheUnreadable load_err
  | InvalidDownload load_err
  | CacheWriteFailed io_err

section \<open>Inputs\<close>

text \<open>
  The functions of other packages: SHA-256, MD5, the zstd decoder (what can be read from it), by how much the JSON
  decoder's buffer exceeds 512 bytes at each of its reads, and the encoding of the sidecar; and the temporary directory.
\<close>

record codecs =
  cd_sha :: "string \<Rightarrow> string"
  cd_md5 :: "string \<Rightarrow> string"
  cd_unzstd :: "string \<Rightarrow> string + source"
  cd_refill :: "nat \<Rightarrow> nat"
  cd_marshal :: "metadata \<Rightarrow> string + string"
  cd_unmarshal :: "string \<Rightarrow> string + metadata"
  cd_tmpdir :: string

text \<open>How a file arrives: the sizes of short reads, a read that fails, and the looks that find the context alive.\<close>

record file_reads =
  fr_sizes :: "nat list"
  fr_fault :: "(nat \<times> string) option"
  fr_ctx :: "(nat \<times> ctx_err) option"

text \<open>
  One reading of the cached file: the errors of its calls, the reads of the first pass, the bytes the second pass finds in place of
  those the first one found, and the token after which a read of that pass ends, if one does.
\<close>

record local_env =
  lc_open :: "string option"
  lc_hash :: file_reads
  lc_seek :: "string option"
  lc_reread :: "string \<Rightarrow> string"
  lc_cut :: "(nat \<times> dec_end) option"
  lc_finish :: "string option"

text \<open>The places where a load looks at its context.\<close>

datatype ctx_check =
    AtGate | AtEntry | BeforeFetch | AfterFetchError | AfterFetch | AfterHash | BeforeParse
  | AfterParseError | AfterParse | AtEnd

record load_env =
  le_ctx :: "ctx_check \<Rightarrow> ctx_err option"
  le_readable :: "string option"
  le_stat :: bool
  le_head :: net_env
  le_head_others :: "disk \<Rightarrow> disk"
  le_fetch :: net_env
  le_fetch_others :: "disk \<Rightarrow> disk"
  le_etag :: local_env
  le_fallback :: local_env
  le_md5 :: local_env
  le_invalid :: local_env
  le_rehash :: file_reads
  le_cut :: "(nat \<times> dec_end) option"
  le_write :: write_env
  le_save :: write_env

section \<open>Reading the cached file\<close>

definition maxDecodedMappingBytes :: nat where
  "maxDecodedMappingBytes = 250 * 2 ^ 20"

text \<open>The tokens that the decoder makes of what it reads behind the \<open>limitReader\<close>.\<close>

definition mapping_tokens :: "codecs \<Rightarrow> source \<Rightarrow> token list \<times> dec_end" where
  "mapping_tokens cd u =
     (case drain (\<lambda>k. 512 + cd_refill cd k) 0 [] (Limited maxDecodedMappingBytes 0 (Source u)) of
        (bs, e) \<Rightarrow> scan (if e = EndOfFile then EndEOF else EndRead) TopValue [] bs)"

text \<open>What it reads is what the source can give, up to the limit.\<close>

definition mapping_bytes :: "source \<Rightarrow> string" where
  "mapping_bytes u = take maxDecodedMappingBytes (avail (Source u))"

definition parseAnibridge :: "codecs \<Rightarrow> (nat \<times> dec_end) option \<Rightarrow> string \<Rightarrow> load_err + anibridge_mapping" where
  "parseAnibridge cd cutoff data =
     (case cd_unzstd cd data of
        Inl e \<Rightarrow> Inl (ZstdFailed e)
      | Inr u \<Rightarrow>
          (case mapping_tokens cd u of
             (ts, e) \<Rightarrow>
               (case (case cutoff of None \<Rightarrow> parseAnibridgeJSON e ts
                      | Some (n, e') \<Rightarrow> parseAnibridgeJSON e' (take n ts)) of
                  Inl err \<Rightarrow> Inl (ParseFailed err)
                | Inr m \<Rightarrow> Inr m)))"

definition mappingHashBufferSize :: nat where
  "mappingHashBufferSize = 32 * 1024"

text \<open>Only the last read of a file, with nothing left, gives its end.\<close>

definition file_source :: "file_reads \<Rightarrow> string \<Rightarrow> source" where
  "file_source fr data =
     \<lparr>sr_bytes = data, sr_sizes = fr_sizes fr, sr_fault = fr_fault fr, sr_together = False\<rparr>"

definition hashMapping :: "codecs \<Rightarrow> file_reads \<Rightarrow> node \<Rightarrow> load_err + string" where
  "hashMapping cd fr f =
     (case f of
        Directory \<Rightarrow> Inl (HashFailed (Broken ''is a directory''))
      | File data \<Rightarrow>
          (case drain (\<lambda>_. mappingHashBufferSize) 0 [] (WithCtx (fr_ctx fr) (Source (file_source fr data))) of
             (bs, EndOfFile) \<Rightarrow> Inr (cd_sha cd bs)
           | (_, e) \<Rightarrow> Inl (HashFailed e)))"

definition hashMappingFile :: "codecs \<Rightarrow> file_reads \<Rightarrow> string \<Rightarrow> disk \<Rightarrow> load_err + string" where
  "hashMappingFile cd fr path d =
     (case mget d path of
        None \<Rightarrow> Inl (OpenFailed ''no such file'')
      | Some f \<Rightarrow> hashMapping cd fr f)"

definition source_matches :: "parsed_source option \<Rightarrow> string \<Rightarrow> string \<Rightarrow> string \<Rightarrow> parsed_source option" where
  "source_matches st path url digest =
     (case st of
        None \<Rightarrow> None
      | Some s \<Rightarrow> if ps_path s = path \<and> ps_url s = url \<and> ps_digest s = digest then Some s else None)"

text \<open>
  \<open>Loader.local\<close>. The bytes left after the parser stopped are hashed too, so the second digest is that of
  all the bytes of the second pass.
\<close>

definition local_source ::
    "codecs \<Rightarrow> local_env \<Rightarrow> parsed_source option \<Rightarrow> string \<Rightarrow> string \<Rightarrow> metadata \<Rightarrow> disposition \<Rightarrow> disk \<Rightarrow>
     load_err + selected_source" where
  "local_source cd lc st path url meta disp d =
     (case mget d path of
        None \<Rightarrow> Inl (OpenFailed ''no such file'')
      | Some f \<Rightarrow>
          (case lc_open lc of
             Some e \<Rightarrow> Inl (OpenFailed e)
           | None \<Rightarrow>
               bindE (hashMapping cd (lc_hash lc) f) (\<lambda>digest.
                 case source_matches st path url digest of
                   Some s \<Rightarrow>
                     Inr \<lparr>ss_result = \<lparr>ld_Mapping = ps_mapping s, ld_Metadata = meta,
                            ld_Disposition = (if disp \<noteq> Fallback then Reused else disp)\<rparr>,
                          ss_digest = digest\<rparr>
                 | None \<Rightarrow>
                     (case lc_seek lc of
                        Some e \<Rightarrow> Inl (RewindFailed e)
                      | None \<Rightarrow>
                          (let data = lc_reread lc (case f of File b \<Rightarrow> b | Directory \<Rightarrow> [])
                           in bindE (parseAnibridge cd (lc_cut lc) data) (\<lambda>m.
                                case lc_finish lc of
                                  Some e \<Rightarrow> Inl (FinishFailed e)
                                | None \<Rightarrow>
                                    if digest \<noteq> cd_sha cd data then Inl ChangedDuringInspection
                                    else Inr \<lparr>ss_result = \<lparr>ld_Mapping = m, ld_Metadata = meta,
                                                ld_Disposition = disp\<rparr>,
                                              ss_digest = digest\<rparr>))))))"

section \<open>The load\<close>

text \<open>The freshness check: a source when the cached file is known to be current and can be read.\<close>

definition etag_source ::
    "codecs \<Rightarrow> load_env \<Rightarrow> parsed_source option \<Rightarrow> string \<Rightarrow> string \<Rightarrow> metadata \<Rightarrow> bool \<Rightarrow> disk \<Rightarrow>
     selected_source option \<times> disk" where
  "etag_source cd le st path url meta canUseCache d =
     (if canUseCache \<and> ETag meta \<noteq> [] then
        (let d1 = le_head_others le d
         in case mapping_head (le_head le) url of
              Inl _ \<Rightarrow> (None, d1)
            | Inr upstream \<Rightarrow>
                if trim_space (ETag upstream) = trim_space (ETag meta) then
                  (case local_source cd (le_etag le) st path url meta Loaded d1 of
                     Inl _ \<Rightarrow> (None, d1)
                   | Inr source \<Rightarrow> (Some source, d1))
                else (None, d1))
      else (None, d))"

text \<open>A download that is the source in memory: only the file on disk may need repair.\<close>

definition reuse_download ::
    "codecs \<Rightarrow> load_env \<Rightarrow> parsed_source \<Rightarrow> string \<Rightarrow> string \<Rightarrow> string \<Rightarrow> metadata \<Rightarrow> disk \<Rightarrow>
     (load_err + selected_source) \<times> disk" where
  "reuse_download cd le s path data digest newMeta d =
     (let localDigest = hashMappingFile cd (le_rehash le) path d
      in case le_ctx le AfterHash of
           Some e \<Rightarrow> (Inl (LoadCtx e), d)
         | None \<Rightarrow>
             (case (if localDigest = Inr digest then (None, [d])
                    else writeFileAtomic (cd_tmpdir cd) (le_write le) path data d) of
                (Some e, trace) \<Rightarrow> (Inl (CacheWriteFailed e), last trace)
              | (None, trace) \<Rightarrow>
                  (case saveKeySnapshot (cd_marshal cd) (cd_tmpdir cd) (le_save le) (metaPath path)
                          (ps_mapping s) newMeta (last trace) of
                     (meta1, d2) \<Rightarrow>
                       (Inr \<lparr>ss_result = \<lparr>ld_Mapping = ps_mapping s, ld_Metadata = meta1, ld_Disposition = Reused\<rparr>,
                             ss_digest = digest\<rparr>, d2))))"

text \<open>A new download: parsed before the old file is replaced.\<close>

definition parse_download ::
    "codecs \<Rightarrow> load_env \<Rightarrow> parsed_source option \<Rightarrow> string \<Rightarrow> string \<Rightarrow> metadata \<Rightarrow> bool \<Rightarrow> string \<Rightarrow> string \<Rightarrow>
     metadata \<Rightarrow> disk \<Rightarrow> (load_err + selected_source) \<times> disk" where
  "parse_download cd le st path url meta canUseCache data digest newMeta d =
     (case le_ctx le BeforeParse of
        Some e \<Rightarrow> (Inl (LoadCtx e), d)
      | None \<Rightarrow>
          (case parseAnibridge cd (le_cut le) data of
             Inl err \<Rightarrow>
               (case le_ctx le AfterParseError of
                  Some e \<Rightarrow> (Inl (LoadCtx e), d)
                | None \<Rightarrow>
                    (case (if canUseCache then local_source cd (le_invalid le) st path url meta Fallback d
                           else Inl err) of
                       Inr cached \<Rightarrow> (Inr cached, d)
                     | Inl _ \<Rightarrow> (Inl (InvalidDownload err), d)))
           | Inr m \<Rightarrow>
               (case le_ctx le AfterParse of
                  Some e \<Rightarrow> (Inl (LoadCtx e), d)
                | None \<Rightarrow>
                    (case writeFileAtomic (cd_tmpdir cd) (le_write le) path data d of
                       (Some e, trace) \<Rightarrow> (Inl (CacheWriteFailed e), last trace)
                     | (None, trace) \<Rightarrow>
                         (case saveKeySnapshot (cd_marshal cd) (cd_tmpdir cd) (le_save le) (metaPath path)
                                 m newMeta (last trace) of
                            (meta1, d2) \<Rightarrow>
                              (Inr \<lparr>ss_result = \<lparr>ld_Mapping = m, ld_Metadata = meta1, ld_Disposition = Loaded\<rparr>,
                                    ss_digest = digest\<rparr>, d2))))))"

text \<open>From the download on.\<close>

definition download_source ::
    "codecs \<Rightarrow> load_env \<Rightarrow> parsed_source option \<Rightarrow> string \<Rightarrow> string \<Rightarrow> metadata \<Rightarrow> bool \<Rightarrow> disk \<Rightarrow>
     (load_err + selected_source) \<times> disk" where
  "download_source cd le st path url meta canUseCache d =
     (case le_ctx le BeforeFetch of
        Some e \<Rightarrow> (Inl (LoadCtx e), d)
      | None \<Rightarrow>
          (let d1 = le_fetch_others le d
           in case fetch_mapping (cd_md5 cd) (le_fetch le) url of
                Inl err \<Rightarrow>
                  (case le_ctx le AfterFetchError of
                     Some e \<Rightarrow> (Inl (LoadCtx e), d1)
                   | None \<Rightarrow>
                       if canUseCache then
                         (case local_source cd (le_fallback le) st path url meta Fallback d1 of
                            Inl parseErr \<Rightarrow> (Inl (CacheUnreadable parseErr), d1)
                          | Inr source \<Rightarrow> (Inr source, d1))
                       else (Inl (DownloadFailed err), d1))
              | Inr (data, newMeta) \<Rightarrow>
                  (case le_ctx le AfterFetch of
                     Some e \<Rightarrow> (Inl (LoadCtx e), d1)
                   | None \<Rightarrow>
                       (let digest = cd_sha cd data
                        in case source_matches st path url digest of
                             Some s \<Rightarrow> reuse_download cd le s path data digest newMeta d1
                           | None \<Rightarrow>
                               (case (if canUseCache \<and> MD5 meta \<noteq> [] \<and> MD5 meta = MD5 newMeta
                                      then local_source cd (le_md5 le) st path url newMeta Loaded d1
                                      else Inl (OpenFailed ''not tried'')) of
                                  Inr source \<Rightarrow>
                                    (case saveKeySnapshot (cd_marshal cd) (cd_tmpdir cd) (le_save le) (metaPath path)
                                            (ld_Mapping (ss_result source)) (ld_Metadata (ss_result source)) d1 of
                                       (meta1, d2) \<Rightarrow>
                                         (Inr (source\<lparr>ss_result := ss_result source\<lparr>ld_Metadata := meta1\<rparr>\<rparr>), d2))
                                | Inl _ \<Rightarrow>
                                    parse_download cd le st path url meta canUseCache data digest newMeta d1)))))"

text \<open>The metadata a load starts from, and whether the cached file may be used for this URL.\<close>

definition cache_state ::
    "codecs \<Rightarrow> load_env \<Rightarrow> parsed_source option \<Rightarrow> string \<Rightarrow> string \<Rightarrow> disk \<Rightarrow> metadata \<times> bool" where
  "cache_state cd le st path url d =
     (let meta = (case ReadMetadata (le_readable le) (cd_unmarshal cd) (metaPath path) d of
                    Inl _ \<Rightarrow> zero_metadata | Inr m \<Rightarrow> m);
          haveCache = (le_stat le \<and> (case mget d path of Some (File _) \<Rightarrow> True | _ \<Rightarrow> False));
          urlChanged = (haveCache \<and> (URL meta \<noteq> [] \<and> URL meta \<noteq> url
                          \<or> (case st of None \<Rightarrow> False | Some s \<Rightarrow> ps_path s = path \<and> ps_url s \<noteq> url)))
      in (if urlChanged then zero_metadata else meta, haveCache \<and> \<not> urlChanged))"

definition load_source ::
    "codecs \<Rightarrow> load_env \<Rightarrow> parsed_source option \<Rightarrow> string \<Rightarrow> string \<Rightarrow> disk \<Rightarrow>
     (load_err + selected_source) \<times> disk" where
  "load_source cd le st path url d =
     (case cache_state cd le st path url d of
        (meta, canUseCache) \<Rightarrow>
          (case etag_source cd le st path url meta canUseCache d of
             (Some source, d1) \<Rightarrow> (Inr source, d1)
           | (None, d1) \<Rightarrow> download_source cd le st path url meta canUseCache d1))"

definition Load ::
    "codecs \<Rightarrow> load_env \<Rightarrow> string \<Rightarrow> string \<Rightarrow> parsed_source option \<times> disk \<Rightarrow>
     (load_err + load_result) \<times> (parsed_source option \<times> disk)" where
  "Load cd le path url s =
     (case le_ctx le AtGate of
        Some e \<Rightarrow> (Inl (LoadCtx e), s)
      | None \<Rightarrow>
      case le_ctx le AtEntry of
        Some e \<Rightarrow> (Inl (LoadCtx e), s)
      | None \<Rightarrow>
          (let path1 = (if path = [] then DefaultAnibridgeMappingPath else path);
               url1 = (if url = [] then DefaultAnibridgeURL else url)
           in case Validate (cd_tmpdir cd) path1 of
                Inl e \<Rightarrow> (Inl (BadMappingPath e), s)
              | Inr p \<Rightarrow>
                  (case validateRemoteURL (ne_env (le_fetch le)) (ne_parse (le_fetch le)) url1 of
                     Some e \<Rightarrow> (Inl (BadURL e), s)
                   | None \<Rightarrow>
                       (case load_source cd le (fst s) p url1 (snd s) of
                          (Inl e, d) \<Rightarrow> (Inl e, (fst s, d))
                        | (Inr source, d) \<Rightarrow>
                            (case le_ctx le AtEnd of
                               Some e \<Rightarrow> (Inl (LoadCtx e), (fst s, d))
                             | None \<Rightarrow>
                                 (Inr (ss_result source),
                                  (Some \<lparr>ps_path = p, ps_url = url1, ps_digest = ss_digest source,
                                         ps_mapping = ld_Mapping (ss_result source),
                                         ps_metadata = ld_Metadata (ss_result source)\<rparr>, d)))))))"

definition LoadOrFetch ::
    "codecs \<Rightarrow> load_env \<Rightarrow> string \<Rightarrow> string \<Rightarrow> disk \<Rightarrow> (load_err + load_result) \<times> disk" where
  "LoadOrFetch cd le path url d = (case Load cd le path url (None, d) of (r, s) \<Rightarrow> (r, snd s))"

section \<open>What a load promises\<close>

text \<open>
  \<open>B\<close> stands for the byte strings that ever reach the loader, on which SHA-256 is taken to have no
  collision. The source in memory is then the parse of the bytes its digest names.
\<close>

abbreviation parses_to :: "codecs \<Rightarrow> string \<Rightarrow> anibridge_mapping \<Rightarrow> bool" where
  "parses_to cd data m \<equiv> parseAnibridge cd None data = Inr m"

definition loader_ok :: "codecs \<Rightarrow> string set \<Rightarrow> parsed_source option \<Rightarrow> bool" where
  "loader_ok cd B st \<longleftrightarrow>
     (case st of
        None \<Rightarrow> True
      | Some s \<Rightarrow> \<exists>data \<in> B. ps_digest s = cd_sha cd data \<and> parses_to cd data (ps_mapping s))"

definition bytes_in :: "string set \<Rightarrow> string \<Rightarrow> disk \<Rightarrow> bool" where
  "bytes_in B p d \<longleftrightarrow> (\<forall>data. mget d p = Some (File data) \<longrightarrow> data \<in> B)"

definition local_in :: "string set \<Rightarrow> local_env \<Rightarrow> bool" where
  "local_in B lc \<longleftrightarrow> (\<forall>data \<in> B. lc_reread lc data \<in> B)"

definition load_in :: "string set \<Rightarrow> codecs \<Rightarrow> load_env \<Rightarrow> bool" where
  "load_in B cd le \<longleftrightarrow> inj_on (cd_sha cd) B
     \<and> local_in B (le_etag le) \<and> local_in B (le_fallback le) \<and> local_in B (le_md5 le) \<and> local_in B (le_invalid le)
     \<and> (\<forall>p d. bytes_in B p d \<longrightarrow> bytes_in B p (le_head_others le d) \<and> bytes_in B p (le_fetch_others le d))
     \<and> (\<forall>url data meta. fetch_mapping (cd_md5 cd) (le_fetch le) url = Inr (data, meta) \<longrightarrow> data \<in> B)
     \<and> CHR ''/'' \<notin> set (we_random (le_write le)) \<and> CHR ''/'' \<notin> set (we_random (le_save le))"

lemma load_inD:
  assumes "load_in B cd le"
  shows "inj_on (cd_sha cd) B" "local_in B (le_etag le)" "local_in B (le_fallback le)" "local_in B (le_md5 le)"
    "local_in B (le_invalid le)" "bytes_in B p d \<Longrightarrow> bytes_in B p (le_head_others le d)"
    "bytes_in B p d \<Longrightarrow> bytes_in B p (le_fetch_others le d)"
    "fetch_mapping (cd_md5 cd) (le_fetch le) url = Inr (data, meta) \<Longrightarrow> data \<in> B"
    "CHR ''/'' \<notin> set (we_random (le_write le))" "CHR ''/'' \<notin> set (we_random (le_save le))"
  using assms unfolding load_in_def by blast+

lemma bytes_inD: "bytes_in B p d \<Longrightarrow> mget d p = Some (File data) \<Longrightarrow> data \<in> B"
  by (simp add: bytes_in_def)

lemma parses_to_cut: "parseAnibridge cd cutoff data = Inr m \<Longrightarrow> parses_to cd data m"
proof (cases cutoff)
  case (Some c)
  obtain n e' where c: "c = (n, e')" by (cases c)
  assume "parseAnibridge cd cutoff data = Inr m"
  then obtain u e ts where z: "cd_unzstd cd data = Inr u" "mapping_tokens cd u = (ts, e)" and p: "parseAnibridgeJSON e' (take n ts) = Inr m"
    by (auto simp: parseAnibridge_def Some c split: sum.splits prod.splits)
  from parse_extend [OF p, of e "drop n ts"] z show ?thesis by (simp add: parseAnibridge_def)
qed simp

lemma source_matches_Some:
  "source_matches st path url digest = Some s \<longleftrightarrow>
    st = Some s \<and> ps_path s = path \<and> ps_url s = url \<and> ps_digest s = digest"
  by (auto simp: source_matches_def split: option.splits if_splits)

text \<open>What a source selected for \<open>path\<close> and \<open>url\<close> is, on the disk it leaves.\<close>

definition selected ::
    "codecs \<Rightarrow> parsed_source option \<Rightarrow> string \<Rightarrow> string \<Rightarrow> disk \<Rightarrow> selected_source \<Rightarrow> bool" where
  "selected cd st path url d source \<longleftrightarrow>
     (\<exists>data. mget d path = Some (File data) \<and> ss_digest source = cd_sha cd data
        \<and> parses_to cd data (ld_Mapping (ss_result source)))
     \<and> (ld_Disposition (ss_result source) = Reused \<longrightarrow>
          (\<exists>s. source_matches st path url (ss_digest source) = Some s \<and> ps_mapping s = ld_Mapping (ss_result source)))"

lemma mapping_tokens_bytes:
  "mapping_tokens cd u =
     scan (if snd (drain (\<lambda>k. 512 + cd_refill cd k) 0 [] (Limited maxDecodedMappingBytes 0 (Source u))) = EndOfFile
           then EndEOF else EndRead) TopValue [] (mapping_bytes u)"
  using drain_avail [of "\<lambda>k. 512 + cd_refill cd k" "Limited maxDecodedMappingBytes 0 (Source u)" 0 "[]"]
  by (auto simp: mapping_tokens_def mapping_bytes_def split: prod.splits)

text \<open>A digest is that of all the bytes of the file, however they arrived.\<close>

lemma hashMapping_Inr:
  assumes "hashMapping cd fr f = Inr digest"
  obtains data where "f = File data" "digest = cd_sha cd data"
proof (cases f)
  case (File data)
  have pos: "0 < mappingHashBufferSize" by (simp add: mappingHashBufferSize_def)
  with assms File obtain bs where "digest = cd_sha cd bs"
    "drain (\<lambda>_. mappingHashBufferSize) 0 [] (WithCtx (fr_ctx fr) (Source (file_source fr data))) = (bs, EndOfFile)"
    by (auto simp: hashMapping_def split: prod.splits read_err.splits)
  with drain_whole [OF _ this(2)] pos that File show ?thesis by (auto simp: file_source_def)
qed (use assms in \<open>simp add: hashMapping_def\<close>)

lemma hash_drained:
  "fst (drain (\<lambda>_. mappingHashBufferSize) 0 [] r) = bs \<Longrightarrow> snd (drain (\<lambda>_. mappingHashBufferSize) 0 [] r) = e \<Longrightarrow>
    r = WithCtx (fr_ctx fr) (Source (file_source fr data)) \<Longrightarrow>
    hashMapping cd fr (File data) = (if e = EndOfFile then Inr (cd_sha cd bs) else Inl (HashFailed e))"
  by (auto simp: hashMapping_def split: prod.splits read_err.splits)

lemma hashMapping_ended:
  assumes "fr_ctx fr = Some (i, c)" "hashMapping cd fr (File data) = Inr digest"
  shows "length data \<le> mappingHashBufferSize * Suc (i div 2)"
proof -
  let ?r = "WithCtx (fr_ctx fr) (Source (file_source fr data))" and ?buf = "\<lambda>_::nat. mappingHashBufferSize"
  have pos: "\<forall>k. 0 < ?buf k" "\<forall>k. 0 < ?buf k \<and> ?buf k \<le> mappingHashBufferSize" by (simp_all add: mappingHashBufferSize_def)
  have "snd (drain ?buf 0 [] ?r) = EndOfFile"
    using assms(2) hash_drained [OF refl refl refl, where fr = fr and data = data and cd = cd] by (auto split: if_splits)
  with drain_whole [OF pos(1), of 0 "[]" ?r] have "fst (drain ?buf 0 [] ?r) = data"
    by (cases "drain ?buf 0 [] ?r") (auto simp: file_source_def)
  with drain_ended [OF pos(2), of ?r i c _ 0 "[]"] assms(1) show ?thesis by simp
qed

lemma hashMapping_alive:
  assumes "fr_ctx fr = None"
  shows "hashMapping cd fr (File data) =
    (case source_end (file_source fr data) of EndOfFile \<Rightarrow> Inr (cd_sha cd data) | e \<Rightarrow> Inl (HashFailed e))"
proof -
  have "drain (\<lambda>_. mappingHashBufferSize) 0 [] (Source (file_source fr data)) = (avail (Source (file_source fr data)), source_end (file_source fr data))"
    using drain_source [of "\<lambda>_. mappingHashBufferSize" 0 "[]" "file_source fr data"] by (simp add: mappingHashBufferSize_def)
  moreover have "avail (Source (file_source fr data)) = data" if "source_end (file_source fr data) = EndOfFile"
    using that by (auto simp: source_end_def file_source_def split: option.splits if_splits)
  ultimately show ?thesis
    using assms by (auto simp: hashMapping_def drain_alive mappingHashBufferSize_def split: read_err.splits)
qed

lemma hashMapping_plain:
  "fr_ctx fr = None \<Longrightarrow> fr_fault fr = None \<Longrightarrow> hashMapping cd fr (File data) = Inr (cd_sha cd data)"
  by (simp add: hashMapping_alive source_end_def file_source_def)

lemma local_selected:
  assumes "local_source cd lc st path url meta disp d = Inr source"
    and "inj_on (cd_sha cd) B" "local_in B lc" "bytes_in B path d" "loader_ok cd B st" "disp \<noteq> Reused"
  shows "selected cd st path url d source"
proof -
  obtain data where f: "mget d path = Some (File data)" and h: "hashMapping cd (lc_hash lc) (File data) = Inr (cd_sha cd data)"
    using assms(1) by (auto simp: local_source_def split: option.splits elim!: bindE_InrE elim: hashMapping_Inr)
  then have inB: "data \<in> B" using assms(4) by (auto simp: bytes_in_def)
  show ?thesis
  proof (cases "source_matches st path url (cd_sha cd data)")
    case (Some s)
    then have st: "st = Some s" "ps_digest s = cd_sha cd data" by (auto simp: source_matches_Some)
    then obtain data' where d': "data' \<in> B" "cd_sha cd data = cd_sha cd data'" "parses_to cd data' (ps_mapping s)"
      using assms(5) by (auto simp: loader_ok_def)
    then have "data' = data" using assms(2) inB by (auto dest: inj_onD)
    moreover have "ld_Mapping (ss_result source) = ps_mapping s" "ss_digest source = cd_sha cd data"
      using assms(1) by (auto simp: local_source_def h f Some split: option.splits)
    ultimately show ?thesis
      using f Some d'(3) by (simp add: selected_def)
  next
    case None
    then have *: "cd_sha cd data = cd_sha cd (lc_reread lc data)"
      "parseAnibridge cd (lc_cut lc) (lc_reread lc data) = Inr (ld_Mapping (ss_result source))"
      "ss_digest source = cd_sha cd data" "ld_Disposition (ss_result source) = disp"
      using assms(1) f h
      by (auto simp: local_source_def Let_def split: option.splits if_splits elim!: bindE_InrE)
    moreover have "lc_reread lc data = data"
      using assms(2,3) inB *(1) by (auto simp: local_in_def dest: inj_onD)
    ultimately show ?thesis
      using f assms(6) parses_to_cut unfolding selected_def by metis
  qed
qed

lemma Validate_id: "Validate tmp p = Inr q \<Longrightarrow> clean_path p = p \<Longrightarrow> q = p"
  by (simp add: Validate_def Let_def split: if_splits)

lemma save_frame:
  assumes "saveKeySnapshot marshal tmpdir env (metaPath p) m meta d = (meta1, d2)"
    and "is_abs p" "clean_path p = p" "CHR ''/'' \<notin> set (we_random env)"
  shows "mget d2 p = mget d p"
proof -
  let ?q = "metaPath p"
  have sfx: "suffix_ok ''.meta.json''" "suffix_ok (''.tmp-'' @ we_random env)"
    using assms(4) by (auto simp: suffix_ok_def)
  have q: "is_abs ?q" "clean_path ?q = ?q"
    using sibling_parts [OF assms(2,3) sfx(1)] by (simp_all add: metaPath_def)
  have ne: "p \<noteq> ?q" "p \<noteq> temp_name env ?q"
    using sibling_ne [OF assms(2,3) sfx(1)] sibling_sibling_ne [OF assms(2,3) sfx]
    by (auto simp: metaPath_def temp_name_def)
  have d2: "d2 = last (snd (WriteMetadata marshal tmpdir env ?q (with_keys m meta) d))"
    using assms(1) by (auto simp: saveKeySnapshot_def Let_def)
  show ?thesis
  proof (cases "marshal (with_keys m meta)")
    case (Inl e)
    then show ?thesis by (simp add: d2 WriteMetadata_def)
  next
    case (Inr data)
    show ?thesis
    proof (cases "Validate tmpdir ?q")
      case (Inl e)
      then show ?thesis by (simp add: d2 WriteMetadata_def Inr write_invalid)
    next
      case (Inr q')
      then have ok: "Validate tmpdir ?q = Inr ?q" using Validate_id [OF Inr q(2)] by simp
      obtain err trace where run: "writeFileAtomic tmpdir env ?q data d = (err, trace)" by fastforce
      have "last trace \<in> set trace" and "\<forall>d' \<in> set trace. but_for {?q, temp_name env ?q} (parents ?q) d d'"
        using write_trace [OF ok temp_name_ne [OF q assms(4)] parents_of_write [OF q assms(4)] run] by auto
      then have "but_for {?q, temp_name env ?q} (parents ?q) d (last trace)" by blast
      moreover have "p \<notin> parents ?q" using parents_of_sibling [OF assms(2,3) sfx(1)] by (simp add: metaPath_def)
      ultimately show ?thesis
        using ne by (auto simp: d2 WriteMetadata_def \<open>marshal _ = Inr data\<close> run but_for_def)
    qed
  qed
qed

lemma write_result:
  assumes "writeFileAtomic tmpdir env p data d = (err, trace)" "is_abs p" "clean_path p = p"
    and "CHR ''/'' \<notin> set (we_random env)"
  shows "mget (last trace) p = (if err = None then Some (File data) else mget d p)"
proof (cases "Validate tmpdir p")
  case (Inl e)
  then show ?thesis using assms(1) by (auto simp: write_invalid)
next
  case (Inr q)
  then have "Validate tmpdir p = Inr p" using Validate_id assms(3) by metis
  from write_trace [OF this temp_name_ne [OF assms(2-4)] parents_of_write [OF assms(2-4)] assms(1)] show ?thesis by auto
qed

text \<open>
  What a load leaves at the path of the cached file: what was there, or the whole of a download that
  parses.
\<close>

definition old_or_downloaded :: "codecs \<Rightarrow> load_env \<Rightarrow> string \<Rightarrow> string \<Rightarrow> disk \<Rightarrow> disk \<Rightarrow> bool" where
  "old_or_downloaded cd le p url d d' \<longleftrightarrow> mget d' p = mget d p
     \<or> (\<exists>data meta. fetch_mapping (cd_md5 cd) (le_fetch le) url = Inr (data, meta) \<and> mget d' p = Some (File data)
          \<and> (\<exists>m. parses_to cd data m))"

lemma reuse_download_result:
  assumes "reuse_download cd le s p data (cd_sha cd data) newMeta d = (r, d')"
    and "is_abs p" "clean_path p = p" "load_in B cd le" "bytes_in B p d" "data \<in> B"
  shows "(mget d' p = mget d p \<or> mget d' p = Some (File data))
    \<and> (\<forall>source. r = Inr source \<longrightarrow> mget d' p = Some (File data) \<and> ss_digest source = cd_sha cd data
        \<and> ld_Mapping (ss_result source) = ps_mapping s \<and> ld_Disposition (ss_result source) = Reused)"
proof (cases "le_ctx le AfterHash")
  case (Some e)
  then show ?thesis using assms(1) by (auto simp: reuse_download_def)
next
  case None
  define step where "step = (if hashMappingFile cd (le_rehash le) p d = Inr (cd_sha cd data) then (None, [d])
      else writeFileAtomic (cd_tmpdir cd) (le_write le) p data d)"
  obtain err trace where st: "step = (err, trace)" by (cases step)
  have noslash: "CHR ''/'' \<notin> set (we_random (le_write le))" "CHR ''/'' \<notin> set (we_random (le_save le))"
    using load_inD [OF assms(4)] by blast+
  have held: "mget (last trace) p = (if err = None then Some (File data) else mget d p)"
  proof (cases "hashMappingFile cd (le_rehash le) p d = Inr (cd_sha cd data)")
    case True
    then obtain b where b: "mget d p = Some (File b)" "cd_sha cd b = cd_sha cd data"
      by (auto simp: hashMappingFile_def split: option.splits elim: hashMapping_Inr)
    have "inj_on (cd_sha cd) B" "b \<in> B" using load_inD(1) [OF assms(4)] bytes_inD [OF assms(5) b(1)] by simp_all
    then have "b = data" using b(2) assms(6) using inj_onD [of "cd_sha cd" B b data] by blast
    moreover have "err = None" "trace = [d]" using True st by (simp_all add: step_def)
    ultimately show ?thesis using b(1) by simp
  next
    case False
    with st write_result [OF _ assms(2,3) noslash(1)] show ?thesis by (auto simp: step_def)
  qed
  have r: "(case step of (Some e, trace) \<Rightarrow> (Inl (CacheWriteFailed e), last trace)
      | (None, trace) \<Rightarrow> (case saveKeySnapshot (cd_marshal cd) (cd_tmpdir cd) (le_save le) (metaPath p)
                          (ps_mapping s) newMeta (last trace) of
                     (meta1, d2) \<Rightarrow>
                       (Inr \<lparr>ss_result = \<lparr>ld_Mapping = ps_mapping s, ld_Metadata = meta1, ld_Disposition = Reused\<rparr>,
                             ss_digest = cd_sha cd data\<rparr>, d2))) = (r, d')"
    using assms(1) by (simp add: reuse_download_def None step_def)
  show ?thesis
  proof (cases err)
    case None
    obtain meta1 d2 where sv: "saveKeySnapshot (cd_marshal cd) (cd_tmpdir cd) (le_save le) (metaPath p)
        (ps_mapping s) newMeta (last trace) = (meta1, d2)" by fastforce
    with r st None save_frame [OF sv assms(2,3) noslash(2)] held show ?thesis by auto
  next
    case (Some e)
    with r st held show ?thesis by auto
  qed
qed

text \<open>A source keeps what it promises when its metadata change or other files are written.\<close>

lemma selected_frame:
  assumes "selected cd st p url d source" "mget d' p = mget d p" "ss_digest source' = ss_digest source"
    and "ld_Mapping (ss_result source') = ld_Mapping (ss_result source)"
    and "ld_Disposition (ss_result source') = ld_Disposition (ss_result source)"
  shows "selected cd st p url d' source'"
  using assms unfolding selected_def by simp

lemma parse_download_result:
  assumes run: "parse_download cd le st p url meta can data (cd_sha cd data) newMeta d = (r, d')"
    and p: "is_abs p" "clean_path p = p" and B: "load_in B cd le" "bytes_in B p d" "loader_ok cd B st"
  shows "(mget d' p = mget d p \<or> mget d' p = Some (File data) \<and> (\<exists>m. parses_to cd data m))
    \<and> (\<forall>source. r = Inr source \<longrightarrow> selected cd st p url d' source)"
proof (cases "le_ctx le BeforeParse")
  case (Some e)
  with run show ?thesis by (auto simp: parse_download_def)
next
  case before: None
  have noslash: "CHR ''/'' \<notin> set (we_random (le_write le))" "CHR ''/'' \<notin> set (we_random (le_save le))"
    and loc: "inj_on (cd_sha cd) B" "local_in B (le_invalid le)"
    using load_inD [OF B(1)] by blast+
  show ?thesis
  proof (cases "parseAnibridge cd (le_cut le) data")
    case (Inl err)
    show ?thesis
    proof (cases "le_ctx le AfterParseError")
      case (Some e)
      with run before Inl show ?thesis by (auto simp: parse_download_def)
    next
      case None
      then have r: "(case (if can then local_source cd (le_invalid le) st p url meta Fallback d else Inl err) of
          Inr cached \<Rightarrow> (Inr cached, d) | Inl _ \<Rightarrow> (Inl (InvalidDownload err), d)) = (r, d')"
        using run before Inl by (simp add: parse_download_def)
      have "selected cd st p url d source" if "can" "local_source cd (le_invalid le) st p url meta Fallback d = Inr source"
        for source
        using local_selected [OF that(2) loc B(2,3)] by simp
      with r show ?thesis by (auto split: sum.splits if_splits)
    qed
  next
    case (Inr m)
    show ?thesis
    proof (cases "le_ctx le AfterParse")
      case (Some e)
      with run before Inr show ?thesis by (auto simp: parse_download_def)
    next
      case None
      obtain err trace where wr: "writeFileAtomic (cd_tmpdir cd) (le_write le) p data d = (err, trace)" by fastforce
      obtain meta1 d2 where sv: "saveKeySnapshot (cd_marshal cd) (cd_tmpdir cd) (le_save le) (metaPath p)
          m newMeta (last trace) = (meta1, d2)" by fastforce
      note held = write_result [OF wr p noslash(1)] and keep = save_frame [OF sv p noslash(2)]
      have r: "(r, d') = (case err of Some e \<Rightarrow> (Inl (CacheWriteFailed e), last trace)
          | None \<Rightarrow> (Inr \<lparr>ss_result = \<lparr>ld_Mapping = m, ld_Metadata = meta1, ld_Disposition = Loaded\<rparr>,
                            ss_digest = cd_sha cd data\<rparr>, d2))"
        using run before Inr None wr sv by (auto simp: parse_download_def split: option.splits)
      have "parses_to cd data m" using parses_to_cut [OF Inr] .
      with r held keep show ?thesis by (auto simp: selected_def split: option.splits)
    qed
  qed
qed

lemma download_source_result:
  assumes run: "download_source cd le st p url meta can d = (r, d')"
    and p: "is_abs p" "clean_path p = p" and B: "load_in B cd le" "bytes_in B p d" "loader_ok cd B st"
  shows "(d' = d \<or> old_or_downloaded cd le p url (le_fetch_others le d) d')
    \<and> (\<forall>source. r = Inr source \<longrightarrow> selected cd st p url d' source)"
proof (cases "le_ctx le BeforeFetch")
  case (Some e)
  with run show ?thesis by (auto simp: download_source_def)
next
  case before: None
  define d1 where "d1 = le_fetch_others le d"
  have B1: "bytes_in B p d1" using load_inD [OF B(1)] B(2) unfolding d1_def by blast
  have noslash: "CHR ''/'' \<notin> set (we_random (le_save le))"
    and loc: "inj_on (cd_sha cd) B" "local_in B (le_fallback le)" "local_in B (le_md5 le)"
    using load_inD [OF B(1)] by blast+
  show ?thesis
  proof (cases "fetch_mapping (cd_md5 cd) (le_fetch le) url")
    case (Inl err)
    have "selected cd st p url d1 source" if "local_source cd (le_fallback le) st p url meta Fallback d1 = Inr source"
      for source
      using local_selected [OF that loc(1,2) B1 B(3)] by simp
    with run before Inl show ?thesis
      by (auto simp: download_source_def old_or_downloaded_def d1_def [symmetric] split: option.splits if_splits sum.splits)
  next
    case (Inr dm)
    obtain data newMeta where dm: "dm = (data, newMeta)" by (cases dm)
    have down: "old_or_downloaded cd le p url d1 d'" if "mget d' p = mget d1 p \<or> mget d' p = Some (File data) \<and> (\<exists>m. parses_to cd data m)"
      using that Inr dm by (auto simp: old_or_downloaded_def)
    have dB: "data \<in> B" using load_inD(8) [OF B(1)] Inr dm by blast
    show ?thesis
    proof (cases "le_ctx le AfterFetch")
      case (Some e)
      with run before Inr dm show ?thesis by (auto simp: download_source_def old_or_downloaded_def)
    next
      case after: None
      show ?thesis
      proof (cases "source_matches st p url (cd_sha cd data)")
        case (Some s)
        then have "reuse_download cd le s p data (cd_sha cd data) newMeta d1 = (r, d')"
          using run before Inr dm after by (simp add: download_source_def d1_def)
        note res = reuse_download_result [OF this p B(1) B1 dB]
        have st: "st = Some s" "ps_digest s = cd_sha cd data" using Some by (auto simp: source_matches_Some)
        then obtain data' where "data' \<in> B" "cd_sha cd data = cd_sha cd data'" "parses_to cd data' (ps_mapping s)"
          using B(3) by (auto simp: loader_ok_def)
        then have parses: "parses_to cd data (ps_mapping s)" using loc(1) dB by (auto dest: inj_onD)
        with res Some have "\<forall>source. r = Inr source \<longrightarrow> selected cd st p url d' source"
          by (auto simp: selected_def)
        with res parses down show ?thesis by (auto simp: d1_def)
      next
        case None
        define md5 where "md5 = (if can \<and> MD5 meta \<noteq> [] \<and> MD5 meta = MD5 newMeta
            then local_source cd (le_md5 le) st p url newMeta Loaded d1 else Inl (OpenFailed ''not tried''))"
        have r: "(case md5 of
            Inr source \<Rightarrow>
              (case saveKeySnapshot (cd_marshal cd) (cd_tmpdir cd) (le_save le) (metaPath p)
                  (ld_Mapping (ss_result source)) (ld_Metadata (ss_result source)) d1 of
                 (meta1, d2) \<Rightarrow> (Inr (source\<lparr>ss_result := ss_result source\<lparr>ld_Metadata := meta1\<rparr>\<rparr>), d2))
          | Inl _ \<Rightarrow> parse_download cd le st p url meta can data (cd_sha cd data) newMeta d1) = (r, d')"
          using run before Inr dm after None unfolding md5_def d1_def
          by (simp add: download_source_def Let_def split del: if_split)
        show ?thesis
        proof (cases md5)
          case (Inl e)
          with r have "parse_download cd le st p url meta can data (cd_sha cd data) newMeta d1 = (r, d')" by simp
          from parse_download_result [OF this p B(1) B1 B(3)] down show ?thesis by (auto simp: d1_def)
        next
          case src: (Inr source)
          then have "local_source cd (le_md5 le) st p url newMeta Loaded d1 = Inr source"
            by (simp add: md5_def split: if_splits)
          from local_selected [OF this loc(1,3) B1 B(3)] have sel: "selected cd st p url d1 source" by simp
          obtain meta1 d2 where sv: "saveKeySnapshot (cd_marshal cd) (cd_tmpdir cd) (le_save le) (metaPath p)
              (ld_Mapping (ss_result source)) (ld_Metadata (ss_result source)) d1 = (meta1, d2)" by fastforce
          note keep = save_frame [OF sv p noslash]
          have rd: "r = Inr (source\<lparr>ss_result := ss_result source\<lparr>ld_Metadata := meta1\<rparr>\<rparr>)" "d' = d2"
            using r src sv by simp_all
          have "selected cd st p url d2 (source\<lparr>ss_result := ss_result source\<lparr>ld_Metadata := meta1\<rparr>\<rparr>)"
            by (rule selected_frame [OF sel keep]) simp_all
          with rd down keep show ?thesis by (simp add: d1_def)
        qed
      qed
    qed
  qed
qed

lemma old_or_downloaded_in:
  "old_or_downloaded cd le p url d d' \<Longrightarrow> load_in B cd le \<Longrightarrow> bytes_in B p d \<Longrightarrow> bytes_in B p d'"
  unfolding old_or_downloaded_def bytes_in_def using load_inD(8) by fastforce

lemma load_source_result:
  assumes run: "load_source cd le st p url d = (r, d')"
    and p: "is_abs p" "clean_path p = p" and B: "load_in B cd le" "bytes_in B p d" "loader_ok cd B st"
  shows "bytes_in B p d' \<and> (\<forall>source. r = Inr source \<longrightarrow> selected cd st p url d' source)
    \<and> ((\<forall>d. mget (le_head_others le d) p = mget d p \<and> mget (le_fetch_others le d) p = mget d p)
        \<longrightarrow> old_or_downloaded cd le p url d d')"
proof -
  obtain meta can where cs: "cache_state cd le st p url d = (meta, can)" by fastforce
  obtain found d1 where et: "etag_source cd le st p url meta can d = (found, d1)" by fastforce
  have d1: "d1 = d \<or> d1 = le_head_others le d"
    using et by (auto simp: etag_source_def Let_def split: if_splits sum.splits)
  then have B1: "bytes_in B p d1" using load_inD(6) [OF B(1,2)] B(2) by auto
  show ?thesis
  proof (cases found)
    case (Some source)
    then have "local_source cd (le_etag le) st p url meta Loaded d1 = Inr source"
      using et by (auto simp: etag_source_def Let_def split: if_splits sum.splits)
    from local_selected [OF this load_inD(1,2) [OF B(1)] B1 B(3)] have "selected cd st p url d1 source" by simp
    moreover have "r = Inr source" "d' = d1" using run cs et Some by (simp_all add: load_source_def)
    ultimately show ?thesis using B1 d1 by (auto simp: old_or_downloaded_def)
  next
    case None
    then have "download_source cd le st p url meta can d1 = (r, d')"
      using run cs et by (simp add: load_source_def)
    note res = download_source_result [OF this p B(1) B1 B(3)]
    have "bytes_in B p d'"
      using res B1 old_or_downloaded_in [OF _ B(1) load_inD(7) [OF B(1) B1]] by blast
    moreover have "old_or_downloaded cd le p url d d'"
      if "\<forall>d. mget (le_head_others le d) p = mget d p \<and> mget (le_fetch_others le d) p = mget d p"
      using res that d1 by (auto simp: old_or_downloaded_def)
    ultimately show ?thesis using res by blast
  qed
qed

text \<open>The path and the URL a load uses.\<close>

definition used_path :: "string \<Rightarrow> string" where
  "used_path path = (if path = [] then DefaultAnibridgeMappingPath else path)"

definition used_url :: "string \<Rightarrow> string" where
  "used_url url = (if url = [] then DefaultAnibridgeURL else url)"

lemma Load_cases:
  assumes "Load cd le path url (st, d) = (r, (st', d'))"
  obtains (refused) e where "r = Inl e" "st' = st" "d' = d"
  | (failed) p e where "Validate (cd_tmpdir cd) (used_path path) = Inr p"
      "load_source cd le st p (used_url url) d = (Inl e, d')" "r = Inl e" "st' = st"
  | (late) p source e where "Validate (cd_tmpdir cd) (used_path path) = Inr p"
      "load_source cd le st p (used_url url) d = (Inr source, d')" "r = Inl e" "st' = st"
  | (finished) p source where "Validate (cd_tmpdir cd) (used_path path) = Inr p"
      "load_source cd le st p (used_url url) d = (Inr source, d')" "r = Inr (ss_result source)"
      "st' = Some \<lparr>ps_path = p, ps_url = used_url url, ps_digest = ss_digest source,
         ps_mapping = ld_Mapping (ss_result source), ps_metadata = ld_Metadata (ss_result source)\<rparr>"
proof -
  note Ld = assms [unfolded Load_def Let_def used_path_def [symmetric] used_url_def [symmetric], simplified]
  show ?thesis
  proof (cases "le_ctx le AtGate = None \<and> le_ctx le AtEntry = None")
    case False
    with Ld show ?thesis
      by (cases "le_ctx le AtGate"; cases "le_ctx le AtEntry") (auto intro: refused)
  next
    case entry: True
    show ?thesis
    proof (cases "Validate (cd_tmpdir cd) (used_path path)")
      case (Inl e)
      with Ld entry show ?thesis by (intro refused) auto
    next
      case (Inr p)
      note ok = this
      obtain r1 d1 where run: "load_source cd le st p (used_url url) d = (r1, d1)" by fastforce
      show ?thesis
      proof (cases "validateRemoteURL (ne_env (le_fetch le)) (ne_parse (le_fetch le)) (used_url url)")
        case (Some e)
        with Ld entry ok show ?thesis by (intro refused) auto
      next
        case None
        show ?thesis
        proof (cases r1)
          case (Inl e)
          with Ld entry ok None run show ?thesis by (intro failed [OF ok]) auto
        next
          case (Inr source)
          show ?thesis
          proof (cases "le_ctx le AtEnd")
            case (Some e)
            with Ld entry ok None run Inr show ?thesis by (intro late [OF ok]) auto
          next
            case no_end: None
            with Ld entry ok None run Inr show ?thesis by (intro finished [OF ok]) auto
          qed
        qed
      qed
    qed
  qed
qed

text \<open>What a load that succeeds leaves in memory and on disk.\<close>

definition loaded_from ::
    "codecs \<Rightarrow> string \<Rightarrow> string \<Rightarrow> parsed_source option \<Rightarrow> load_result \<Rightarrow> parsed_source option \<Rightarrow> disk \<Rightarrow> bool" where
  "loaded_from cd p url st res st' d' \<longleftrightarrow>
     (\<exists>data s. mget d' p = Some (File data) \<and> parses_to cd data (ld_Mapping res)
        \<and> st' = Some s \<and> s = \<lparr>ps_path = p, ps_url = url, ps_digest = cd_sha cd data, ps_mapping = ld_Mapping res,
             ps_metadata = ld_Metadata res\<rparr>
        \<and> (ld_Disposition res = Reused \<longrightarrow>
             (\<exists>s0. st = Some s0 \<and> s0\<lparr>ps_metadata := ld_Metadata res\<rparr> = s)))"

lemma Load_result:
  assumes "Load cd le path url (st, d) = (r, (st', d'))" "load_in B cd le" "loader_ok cd B st"
    and ok: "Validate (cd_tmpdir cd) (used_path path) = Inr p" and "bytes_in B p d"
  shows "(case r of Inl e \<Rightarrow> st' = st | Inr res \<Rightarrow> loaded_from cd p (used_url url) st res st' d')
    \<and> loader_ok cd B st' \<and> bytes_in B p d'
    \<and> ((\<forall>d. mget (le_head_others le d) p = mget d p \<and> mget (le_fetch_others le d) p = mget d p)
        \<longrightarrow> old_or_downloaded cd le p (used_url url) d d')"
proof -
  have abs: "is_abs p" "clean_path p = p" using Validate_clean [OF ok] by auto
  note res = load_source_result [OF _ abs assms(2,5,3)]
  from assms(1) show ?thesis
  proof (cases rule: Load_cases)
    case (refused e)
    with assms(3,5) show ?thesis by (simp add: old_or_downloaded_def)
  next
    case (failed p' e)
    with ok have "p' = p" by simp
    with res failed assms(3) show ?thesis by auto
  next
    case (late p' source e)
    with ok have "p' = p" by simp
    with res late assms(3) show ?thesis by auto
  next
    case (finished p' source)
    with ok have p': "p' = p" by simp
    note res' = res [OF finished(2) [unfolded p']]
    then obtain data where data: "mget d' p = Some (File data)" "ss_digest source = cd_sha cd data"
      "parses_to cd data (ld_Mapping (ss_result source))" and sel: "selected cd st p (used_url url) d' source"
      by (auto simp: selected_def)
    have inB: "data \<in> B" using res' data(1) bytes_inD by blast
    have "\<exists>s0. st = Some s0 \<and> s0\<lparr>ps_metadata := ld_Metadata (ss_result source)\<rparr> =
        \<lparr>ps_path = p, ps_url = used_url url, ps_digest = cd_sha cd data, ps_mapping = ld_Mapping (ss_result source),
             ps_metadata = ld_Metadata (ss_result source)\<rparr>"
      if "ld_Disposition (ss_result source) = Reused"
      using sel that by (auto simp: selected_def source_matches_Some data(2))
    then have "loaded_from cd p (used_url url) st (ss_result source) st' d'"
      using finished data p' by (auto simp: loaded_from_def)
    moreover have "loader_ok cd B st'" using finished(4) inB data(2,3) by (auto simp: loader_ok_def)
    ultimately show ?thesis using res' finished(3) by simp
  qed
qed

section \<open>The resolver\<close>

text \<open>
  \<open>loadResolver\<close>, \<open>refreshMapping\<close> and \<open>nextMappingRefreshInterval\<close> of the scheduler: the gate lets one load in
  at a time; its result is published unless the context has ended meanwhile.
\<close>

definition mappingRefreshInterval :: duration where "mappingRefreshInterval = 24 * hour"
definition unloadedResolverRetryInterval :: duration where "unloadedResolverRetryInterval = minute"

definition nextMappingRefreshInterval :: "duration \<Rightarrow> resolver \<Rightarrow> duration" where
  "nextMappingRefreshInterval retryInterval r =
     (if r \<noteq> None then mappingRefreshInterval
      else if retryInterval \<le> 0 then unloadedResolverRetryInterval
      else retryInterval)"

text \<open>The context at the gate and after the load, then the state of loader, resolver and disk.\<close>

definition loadResolver ::
    "codecs \<Rightarrow> ctx_err option \<Rightarrow> ctx_err option \<Rightarrow> load_env \<Rightarrow> config \<Rightarrow>
     (parsed_source option \<times> disk) \<times> resolver \<Rightarrow>
     load_err option \<times> ((parsed_source option \<times> disk) \<times> resolver)" where
  "loadResolver cd gate after le cfg s =
     (case gate of
        Some e \<Rightarrow> (Some (LoadCtx e), s)
      | None \<Rightarrow>
          (case Load cd le (AnibridgeMappingPath cfg) (AnibridgeURL cfg) (fst s) of
             (Inl e, ls) \<Rightarrow> (Some e, (ls, snd s))
           | (Inr res, ls) \<Rightarrow>
               (case after of
                  Some e \<Rightarrow> (Some (LoadCtx e), (ls, snd s))
                | None \<Rightarrow>
                    (None, (ls, if snd s \<noteq> Some (ld_Mapping res) then SetMapping (Some (ld_Mapping res)) (snd s)
                                else snd s)))))"

definition refreshMapping where
  "refreshMapping cd gate after le cfg s = snd (loadResolver cd gate after le cfg s)"

text \<open>One turn of the refresh worker: what others do to the disk, the load, and the time to the next turn.\<close>

record refresh_env =
  rf_gate :: "ctx_err option"
  rf_after :: "ctx_err option"
  rf_load :: load_env
  rf_disk :: "disk \<Rightarrow> disk"

definition refresh_turn ::
    "codecs \<Rightarrow> config \<Rightarrow> duration \<Rightarrow> refresh_env \<Rightarrow> (parsed_source option \<times> disk) \<times> resolver \<Rightarrow>
     duration \<times> ((parsed_source option \<times> disk) \<times> resolver)" where
  "refresh_turn cd cfg retryInterval rf s =
     (let s1 = refreshMapping cd (rf_gate rf) (rf_after rf) (rf_load rf) cfg
                 ((fst (fst s), rf_disk rf (snd (fst s))), snd s)
      in (nextMappingRefreshInterval retryInterval (snd s1), s1))"

fun refresh_worker ::
    "codecs \<Rightarrow> config \<Rightarrow> duration \<Rightarrow> refresh_env list \<Rightarrow> (parsed_source option \<times> disk) \<times> resolver \<Rightarrow>
     duration list \<times> ((parsed_source option \<times> disk) \<times> resolver)" where
  "refresh_worker cd cfg retryInterval [] s = ([], s)"
| "refresh_worker cd cfg retryInterval (rf # rfs) s =
     (case refresh_turn cd cfg retryInterval rf s of
        (wait, s1) \<Rightarrow> (case refresh_worker cd cfg retryInterval rfs s1 of (waits, s2) \<Rightarrow> (wait # waits, s2)))"

definition resolver_ok :: "codecs \<Rightarrow> string set \<Rightarrow> resolver \<Rightarrow> bool" where
  "resolver_ok cd B r \<longleftrightarrow> (case r of None \<Rightarrow> True | Some m \<Rightarrow> \<exists>data \<in> B. parses_to cd data m)"

lemma loadResolver_result:
  assumes "loadResolver cd gate after le cfg ((st, d), r) = (err, ((st', d'), r'))"
    and B: "load_in B cd le" "loader_ok cd B st" "bytes_in B p d"
    and ok: "Validate (cd_tmpdir cd) (used_path (AnibridgeMappingPath cfg)) = Inr p"
  shows "loader_ok cd B st' \<and> bytes_in B p d' \<and> (resolver_ok cd B r \<longrightarrow> resolver_ok cd B r')
    \<and> (if err = None then (\<exists>s. st' = Some s \<and> r' = Some (ps_mapping s)) else r' = r)"
proof (cases gate)
  case (Some e)
  with assms show ?thesis by (auto simp: loadResolver_def)
next
  case open_gate: None
  obtain lr st1 d1 where ld: "Load cd le (AnibridgeMappingPath cfg) (AnibridgeURL cfg) (st, d) = (lr, (st1, d1))"
    by (metis prod.exhaust)
  note res = Load_result [OF ld B(1,2) ok B(3)]
  show ?thesis
  proof (cases lr)
    case (Inl e)
    with assms(1) open_gate ld res show ?thesis by (auto simp: loadResolver_def)
  next
    case (Inr l)
    then obtain data s where s: "mget d1 p = Some (File data)" "parses_to cd data (ld_Mapping l)" "st1 = Some s"
      "ps_mapping s = ld_Mapping l"
    proof -
      have "loaded_from cd p (used_url (AnibridgeURL cfg)) st l st1 d1" using res Inr by simp
      then show ?thesis using that by (auto simp: loaded_from_def)
    qed
    then have "data \<in> B" using res bytes_inD by blast
    then have ok': "resolver_ok cd B (Some (ld_Mapping l))" using s(2) by (auto simp: resolver_ok_def)
    have "err = (case after of Some e \<Rightarrow> Some (LoadCtx e) | None \<Rightarrow> None)" "st' = st1" "d' = d1"
      "r' = (case after of Some e \<Rightarrow> r | None \<Rightarrow> Some (ld_Mapping l))"
      using assms(1) open_gate ld Inr by (auto simp: loadResolver_def SetMapping_def split: option.splits if_splits)
    with res s(3,4) ok' show ?thesis by (cases after) simp_all
  qed
qed

lemma next_interval: "0 < nextMappingRefreshInterval i r"
  by (simp add: nextMappingRefreshInterval_def mappingRefreshInterval_def unloadedResolverRetryInterval_def
      hour_def minute_def second_def)

lemma refresh_worker_result:
  assumes "refresh_worker cd cfg i rfs ((st, d), r) = (waits, ((st', d'), r'))"
    and ok: "Validate (cd_tmpdir cd) (used_path (AnibridgeMappingPath cfg)) = Inr p"
    and "\<forall>rf \<in> set rfs. load_in B cd (rf_load rf) \<and> (\<forall>d. bytes_in B p d \<longrightarrow> bytes_in B p (rf_disk rf d))"
    and "loader_ok cd B st" "bytes_in B p d" "resolver_ok cd B r"
  shows "loader_ok cd B st' \<and> resolver_ok cd B r' \<and> (r \<noteq> None \<longrightarrow> r' \<noteq> None \<and> set waits \<subseteq> {24 * hour})
    \<and> length waits = length rfs \<and> (\<forall>w \<in> set waits. 0 < w)"
  using assms(1,3-6)
proof (induction rfs arbitrary: st d r waits)
  case Nil
  then show ?case by simp
next
  case (Cons rf rfs)
  obtain err st1 d1 r1 where ld: "loadResolver cd (rf_gate rf) (rf_after rf) (rf_load rf) cfg ((st, rf_disk rf d), r)
      = (err, ((st1, d1), r1))"
    by (metis prod.exhaust)
  obtain ws where ws: "refresh_worker cd cfg i rfs ((st1, d1), r1) = (ws, ((st', d'), r'))"
    and waits: "waits = nextMappingRefreshInterval i r1 # ws"
    using Cons.prems(1) ld by (auto simp: refresh_turn_def refreshMapping_def Let_def split: prod.splits)
  have B: "load_in B cd (rf_load rf)" "bytes_in B p (rf_disk rf d)" using Cons.prems(2,4) by auto
  note res = loadResolver_result [OF ld B(1) Cons.prems(3) B(2) ok]
  have ih: "loader_ok cd B st' \<and> resolver_ok cd B r' \<and> (r1 \<noteq> None \<longrightarrow> r' \<noteq> None \<and> set ws \<subseteq> {24 * hour})
    \<and> length ws = length rfs \<and> (\<forall>w \<in> set ws. 0 < w)"
    by (rule Cons.IH [OF ws]) (use res Cons.prems(2,5) in auto)
  moreover have "r1 \<noteq> None" if "r \<noteq> None" using res that by (auto split: if_splits)
  moreover have "nextMappingRefreshInterval i r1 = 24 * hour" if "r1 \<noteq> None"
    using that by (simp add: nextMappingRefreshInterval_def mappingRefreshInterval_def)
  ultimately show ?case using next_interval by (auto simp: waits)
qed

section \<open>Properties\<close>

text \<open>A sample: the network is down, and the cached file parses.\<close>

definition sample_document :: json where
  "sample_document = JObj [(''mal:1'', JObj [(''tvdb_show:9:s1'', JNull)])]"

definition sample_mapping :: anibridge_mapping where
  "sample_mapping = NewAnibridgeMapping [(1, 9)] []"

lemma sample_document_parses: "parseAnibridgeJSON EndEOF (toks sample_document) = Inr sample_mapping"
  unfolding sample_document_def sample_mapping_def by code_simp

definition plain_source :: "string \<Rightarrow> source" where
  "plain_source bs = \<lparr>sr_bytes = bs, sr_sizes = [], sr_fault = None, sr_together = False\<rparr>"

lemma sample_document_tokens:
  "mapping_tokens cd (plain_source (json_text sample_document)) = (toks sample_document, EndEOF)"
proof -
  have doc: "json_clean sample_document = sample_document" "numbers_ok sample_document" "depth sample_document \<le> maxNesting"
    by (simp_all add: sample_document_def utf8_clean_ascii maxNesting_def)
  have "length (json_text sample_document) < 100" by code_simp
  then have "drain (\<lambda>k. 512 + cd_refill cd k) 0 [] (Limited maxDecodedMappingBytes 0 (Source (plain_source (json_text sample_document))))
      = (json_text sample_document, EndOfFile)"
    using drain_limited [of "\<lambda>k. 512 + cd_refill cd k" "plain_source (json_text sample_document)" maxDecodedMappingBytes 0]
    by (simp add: maxDecodedMappingBytes_def plain_source_def source_end_def)
  moreover have "scan EndEOF TopValue [] (json_text sample_document) = (toks sample_document, EndEOF)"
    using scan_text [OF read_json_text [OF doc(2,3)]] doc(1) by simp
  ultimately show ?thesis by (simp add: mapping_tokens_def)
qed

definition sample_codecs :: codecs where
  "sample_codecs = \<lparr>cd_sha = (\<lambda>s. s), cd_md5 = (\<lambda>s. s),
     cd_unzstd = (\<lambda>s. if s = ''z'' then Inr (plain_source (json_text sample_document)) else Inl ''magic''), cd_refill = (\<lambda>_. 0),
     cd_marshal = (\<lambda>m. Inr ''meta''), cd_unmarshal = (\<lambda>s. Inl ''json''), cd_tmpdir = ''/tmp''\<rparr>"

definition sample_load :: load_env where
  "sample_load =
     (let net = \<lparr>ne_env = (\<lambda>_. []), ne_parse = (\<lambda>u. Some \<lparr>Scheme = ''https'', Hostname = ''github.com''\<rparr>),
            ne_ip = (\<lambda>_. None), ne_create = False, ne_exchanges = [], ne_now = 5\<rparr>;
          fr = \<lparr>fr_sizes = [], fr_fault = None, fr_ctx = None\<rparr>;
          lc = \<lparr>lc_open = None, lc_hash = fr, lc_seek = None, lc_reread = (\<lambda>s. s), lc_cut = None, lc_finish = None\<rparr>;
          we = \<lparr>we_mkdir = (\<lambda>_. None), we_create = None, we_random = [], we_write = None, we_close = None,
            we_rename = None, we_remove = True\<rparr>
      in \<lparr>le_ctx = (\<lambda>_. None), le_readable = None, le_stat = True, le_head = net, le_head_others = (\<lambda>d. d),
           le_fetch = net, le_fetch_others = (\<lambda>d. d), le_etag = lc, le_fallback = lc, le_md5 = lc, le_invalid = lc,
           le_rehash = fr, le_cut = None, le_write = we, le_save = we\<rparr>)"

lemma sample_path: "Validate (cd_tmpdir sample_codecs) (used_path ''/data/m'') = Inr ''/data/m''"
proof -
  have "Validate ''/tmp'' ''/data/m'' = Inr ''/data/m''" by code_simp
  then show ?thesis by (simp add: sample_codecs_def used_path_def)
qed

lemma sample_in: "load_in UNIV sample_codecs sample_load"
  by (simp add: load_in_def sample_codecs_def sample_load_def local_in_def bytes_in_def Let_def)

lemma sample_loads:
  "Load sample_codecs sample_load ''/data/m'' ''u'' (None, [(''/data/m'', File ''z'')]) =
    (Inr \<lparr>ld_Mapping = sample_mapping, ld_Metadata = zero_metadata, ld_Disposition = Fallback\<rparr>,
     (Some \<lparr>ps_path = ''/data/m'', ps_url = ''u'', ps_digest = ''z'', ps_mapping = sample_mapping,
        ps_metadata = zero_metadata\<rparr>, [(''/data/m'', File ''z'')]))"
proof -
  have path: "Validate (cd_tmpdir sample_codecs) ''/data/m'' = Inr ''/data/m''"
    using sample_path by (simp add: used_path_def)
  have url: "validateRemoteURL (ne_env (le_fetch sample_load)) (ne_parse (le_fetch sample_load)) ''u'' = None"
    by (simp add: validateRemoteURL_None url_allowed_def sample_load_def Let_def) code_simp
  have down: "fetch_mapping (cd_md5 sample_codecs) (le_fetch sample_load) ''u'' = Inl BadRequest"
    using url by (simp add: fetch_mapping_def doMappingRequest_def) (simp add: sample_load_def Let_def)
  have meta: "metaPath ''/data/m'' = ''/data/m.meta.json''" by code_simp
  have parse: "parseAnibridge sample_codecs None ''z'' = Inr sample_mapping"
    by (simp add: parseAnibridge_def sample_codecs_def sample_document_parses sample_document_tokens)
  have cs: "cache_state sample_codecs sample_load None ''/data/m'' ''u'' [(''/data/m'', File ''z'')] = (zero_metadata, True)"
    by (simp add: cache_state_def ReadMetadata_def meta mget_def sample_load_def Let_def zero_metadata_def)
  have loc: "local_source sample_codecs (le_fallback sample_load) None ''/data/m'' ''u'' zero_metadata Fallback [(''/data/m'', File ''z'')]
     = Inr \<lparr>ss_result = \<lparr>ld_Mapping = sample_mapping, ld_Metadata = zero_metadata, ld_Disposition = Fallback\<rparr>,
         ss_digest = ''z''\<rparr>"
    by (simp add: local_source_def mget_def hashMapping_plain source_matches_def sample_load_def Let_def parse)
       (simp add: sample_codecs_def)
  have ctx: "le_ctx sample_load c = None" for c by (simp add: sample_load_def Let_def)
  have oth: "le_fetch_others sample_load d = d" for d by (simp add: sample_load_def Let_def)
  have "etag_source sample_codecs sample_load None ''/data/m'' ''u'' zero_metadata True d = (None, d)" for d
    by (simp add: etag_source_def zero_metadata_def)
  moreover have "download_source sample_codecs sample_load None ''/data/m'' ''u'' zero_metadata True [(''/data/m'', File ''z'')]
     = (Inr \<lparr>ss_result = \<lparr>ld_Mapping = sample_mapping, ld_Metadata = zero_metadata, ld_Disposition = Fallback\<rparr>,
         ss_digest = ''z''\<rparr>, [(''/data/m'', File ''z'')])"
    by (simp add: download_source_def ctx oth down loc)
  ultimately show ?thesis
    by (simp add: Load_def load_source_def cs ctx path url Let_def)
qed

text \<open>
  Hashing a mapping file returns, however its bytes arrive: while the context lives, with the digest of exactly
  those bytes, or with the error of a read that fails before their end; and under a context that ends after some looks at it,
  with an error, or with that digest of a file no longer than the reads up to then can be.
\<close>

lemma hashMapping_returns:
  "case fr_ctx fr of
     None \<Rightarrow> hashMapping cd fr (File data) =
       (case source_end (file_source fr data) of EndOfFile \<Rightarrow> Inr (cd_sha cd data) | e \<Rightarrow> Inl (HashFailed e))
   | Some (i, c) \<Rightarrow>
       (case hashMapping cd fr (File data) of
          Inl e \<Rightarrow> \<exists>x. e = HashFailed x
        | Inr digest \<Rightarrow> digest = cd_sha cd data \<and> length data \<le> mappingHashBufferSize * Suc (i div 2))"
proof (cases "fr_ctx fr")
  case None
  then show ?thesis by (simp add: hashMapping_alive)
next
  case (Some ic)
  obtain i c where ic: "ic = (i, c)" by (cases ic)
  show ?thesis
  proof (cases "hashMapping cd fr (File data)")
    case (Inl e)
    then show ?thesis
      using hash_drained [OF refl refl refl, where fr = fr and data = data and cd = cd] Some by (auto split: if_splits prod.splits)
  next
    case (Inr digest)
    with hashMapping_ended [of fr i c cd data] Some ic show ?thesis by (auto elim: hashMapping_Inr)
  qed
qed

text \<open>
  Claim C4. From the bytes to the answers: if the unpacked bytes (250 MiB of them) begin with the text of an object whose
  nesting is within the limit, parsing them succeeds exactly when every recognised member has readable targets, and then the
  mapping answers a MAL or AniList id with the TVDB id chosen in the last member that names the id and has a target.
\<close>

theorem mapping_text_lookups:
  assumes "cd_unzstd cd data = Inr u" "read_value d (mapping_bytes u) = Some (JObj kvs, rest)"
    and "depth (JObj kvs) \<le> Suc maxMappingValueDepth"
  shows "if targets_readable kvs
    then \<exists>m. parseAnibridge cd None data = Inr m \<and> mapping_wf m
      \<and> (\<forall>i. LookupByMAL m i = last_target MalSpace i kvs)
      \<and> (\<forall>i. LookupByAniList m i = last_target AniListSpace i kvs)
    else \<exists>err. parseAnibridge cd None data = Inl err"
proof -
  obtain ts e where "mapping_tokens cd u = (toks (JObj kvs) @ ts, e)"
    using scan_value(1) [OF assms(2), of TopValue] unfolding mapping_tokens_bytes by (simp add: emit_def del: toks.simps)
  then show ?thesis
    using parseAnibridgeJSON_lookups [OF assms(3), of e ts] by (auto simp: parseAnibridge_def assms(1) del: toks.simps)
qed

lemma mapping_text_lookups_witness:
  "\<exists>m. parseAnibridge sample_codecs None ''z'' = Inr m \<and> LookupByMAL m 1 = Some 9 \<and> LookupByAniList m 1 = None"
proof -
  let ?kvs = "[(''mal:1'', JObj [(''tvdb_show:9:s1'', JNull)])]" and ?u = "plain_source (json_text sample_document)"
  have doc: "json_clean sample_document = sample_document" "numbers_ok sample_document" "depth sample_document \<le> maxNesting"
    by (simp_all add: sample_document_def utf8_clean_ascii maxNesting_def)
  have "length (json_text sample_document) < 100" by code_simp
  then have "mapping_bytes ?u = json_text sample_document @ []" by (simp add: mapping_bytes_def maxDecodedMappingBytes_def plain_source_def)
  then have front: "read_value maxNesting (mapping_bytes ?u) = Some (JObj ?kvs, [])"
    using reads_backD [OF text_reads_back [OF doc(2)] doc(3), of "[]"] doc(1) by (simp add: sample_document_def)
  have z: "cd_unzstd sample_codecs ''z'' = Inr ?u" by (simp add: sample_codecs_def)
  have "depth (JObj ?kvs) \<le> Suc maxMappingValueDepth" by (simp add: maxMappingValueDepth_def)
  note all = mapping_text_lookups [OF z front this]
  have ready: "targets_readable ?kvs" by code_simp
  have last: "last_target MalSpace 1 ?kvs = Some 9" "last_target AniListSpace 1 ?kvs = None" by code_simp+
  show ?thesis using all ready last by auto
qed

text \<open>
  Claim C7. A load that fails leaves the source in memory as it was. A load that succeeds returns the
  mapping that the bytes now in the cached file parse to, whole and uncut, and keeps it in memory under
  the path, the URL and the digest of exactly those bytes; it is \<open>Reused\<close> only when that source was
  already in memory.
\<close>

theorem Load_sound:
  assumes "Load cd le path url (st, d) = (r, (st', d'))" "load_in B cd le" "loader_ok cd B st"
    and "Validate (cd_tmpdir cd) (used_path path) = Inr p" "bytes_in B p d"
  shows "case r of Inl e \<Rightarrow> st' = st | Inr res \<Rightarrow> loaded_from cd p (used_url url) st res st' d'"
  using Load_result [OF assms] by blast

lemma Load_sound_witness:
  "\<exists>st' d'. fst (Load sample_codecs sample_load ''/data/m'' ''u'' (None, [(''/data/m'', File ''z'')])) =
      Inr \<lparr>ld_Mapping = sample_mapping, ld_Metadata = zero_metadata, ld_Disposition = Fallback\<rparr>
    \<and> loaded_from sample_codecs ''/data/m'' ''u'' None
      \<lparr>ld_Mapping = sample_mapping, ld_Metadata = zero_metadata, ld_Disposition = Fallback\<rparr> st' d'"
  using Load_sound [OF sample_loads sample_in _ sample_path]
  by (auto simp: sample_loads loader_ok_def bytes_in_def used_url_def)

text \<open>
  Claim C8. However a load ends, the cached file is what it was, or it is the whole of a verified
  download that parses: nothing else ever replaces it (as long as only the loader writes it).
\<close>

theorem Load_keeps_cache:
  assumes "Load cd le path url (st, d) = (r, (st', d'))" "load_in B cd le" "loader_ok cd B st"
    and "Validate (cd_tmpdir cd) (used_path path) = Inr p" "bytes_in B p d"
    and "\<And>d. mget (le_head_others le d) p = mget d p \<and> mget (le_fetch_others le d) p = mget d p"
  shows "mget d' p = mget d p
    \<or> (\<exists>data meta m. fetch_mapping (cd_md5 cd) (le_fetch le) (used_url url) = Inr (data, meta)
        \<and> mget d' p = Some (File data) \<and> parses_to cd data m)"
  using Load_result [OF assms(1-5)] assms(6) by (auto simp: old_or_downloaded_def)

lemma Load_keeps_cache_witness:
  "mget (snd (snd (Load sample_codecs sample_load ''/data/m'' ''u'' (None, [(''/data/m'', File ''z'')])))) ''/data/m'' = Some (File ''z'')"
proof -
  have keep: "mget (le_head_others sample_load d) p = mget d p \<and> mget (le_fetch_others sample_load d) p = mget d p" for d p
    by (simp add: sample_load_def Let_def)
  have "fetch_mapping (cd_md5 sample_codecs) (le_fetch sample_load) (used_url ''u'') \<noteq> Inr x" for x
    by (simp add: fetch_mapping_def doMappingRequest_def sample_load_def Let_def split: option.splits)
  then show ?thesis
    using Load_keeps_cache [OF sample_loads sample_in _ sample_path _ keep]
    by (auto simp: sample_loads loader_ok_def bytes_in_def mget_def)
qed

text \<open>
  Claim C35. Whatever the refreshes meet (cancelled or failed loads, files changed by others between them),
  the resolver serves no mapping or one that bytes of a cached file or download parse to; it is never
  unloaded again; and the worker waits a positive time after every turn, a day once a mapping is loaded.
\<close>

theorem refresh_worker_serves:
  assumes "refresh_worker cd cfg i rfs ((st, d), r) = (waits, ((st', d'), r'))"
    and "Validate (cd_tmpdir cd) (used_path (AnibridgeMappingPath cfg)) = Inr p"
    and "\<forall>rf \<in> set rfs. load_in B cd (rf_load rf) \<and> (\<forall>d. bytes_in B p d \<longrightarrow> bytes_in B p (rf_disk rf d))"
    and "loader_ok cd B st" "bytes_in B p d" "resolver_ok cd B r"
  shows "resolver_ok cd B r' \<and> (r \<noteq> None \<longrightarrow> r' \<noteq> None \<and> set waits \<subseteq> {24 * hour})
    \<and> length waits = length rfs \<and> (\<forall>w \<in> set waits. 0 < w)"
  using refresh_worker_result [OF assms] by blast

lemma refresh_worker_serves_witness:
  fixes cfg rf
  defines "cfg \<equiv> \<lparr>Port = 1, PrewarmYears = [], IncludeTypes = [], ExcludeTags = [], CacheDBPath = [], LogLevel = [],
    FilterFutureEnabled = False, DebugEndpointsEnabled = False, AdminToken = [], AnibridgeMappingPath = ''/data/m'',
    AnibridgeURL = ''u''\<rparr>"
  defines "rf \<equiv> \<lparr>rf_gate = None, rf_after = None, rf_load = sample_load, rf_disk = \<lambda>d. d\<rparr>"
  shows "\<exists>waits s. refresh_worker sample_codecs cfg 0 [rf] ((None, [(''/data/m'', File ''z'')]), NewResolver) =
      (waits, s, Some sample_mapping) \<and> resolver_ok sample_codecs UNIV (snd (s, Some sample_mapping))
    \<and> length waits = 1"
proof -
  obtain waits st d where run: "refresh_worker sample_codecs cfg 0 [rf] ((None, [(''/data/m'', File ''z'')]), NewResolver) =
      (waits, ((st, d), Some sample_mapping))"
    by (simp add: refresh_turn_def refreshMapping_def loadResolver_def cfg_def rf_def sample_loads NewResolver_def
        SetMapping_def Let_def)
  have ok: "Validate (cd_tmpdir sample_codecs) (used_path (AnibridgeMappingPath cfg)) = Inr ''/data/m''"
    using sample_path by (simp add: cfg_def)
  from refresh_worker_serves [OF run ok, of UNIV] run show ?thesis
    by (auto simp: rf_def sample_in loader_ok_def bytes_in_def resolver_ok_def NewResolver_def)
qed

end
