(* ===== verification/Maintenance.thy ===== *)
theory Maintenance
  imports Year_Fetch
begin

text \<open>
  The maintenance worker of \<open>StartBackground\<close> (\<open>internal/scheduler/scheduler.go\<close>): on every tick it prunes years
  (\<open>prune\<close>, then perhaps \<open>vacuumMaybe\<close>), refreshes stale ones (\<open>refreshStaleYears\<close>) and logs statistics
  (\<open>logCacheStats\<close>). The worker is the one caller of \<open>vacuumMaybe\<close>; what another caller would store between
  the load and the compare-and-swap of \<open>lastVacuum\<close> is an input.
\<close>

section \<open>Operations\<close>

definition vacuumInterval :: duration where "vacuumInterval = 24 * hour"

record vacuum_env =
  va_ctx :: "ctx_err option"
  va_now :: instant
  va_check :: instant
  va_swap :: "int \<Rightarrow> int"
  va_db :: db_env

text \<open>The result tells whether VACUUM was run; the state is the cache and \<open>lastVacuum\<close>.\<close>

definition vacuumMaybe :: "vacuum_env \<Rightarrow> cache \<times> int \<Rightarrow> bool \<times> (cache \<times> int)" where
  "vacuumMaybe va s =
     (if va_ctx va \<noteq> None then (False, s)
      else (let now = to_unix (va_now va); last_run = snd s; held = va_swap va last_run in
            if \<not> of_unix last_run + vacuumInterval < va_check va \<or> held \<noteq> last_run then (False, (fst s, held))
            else (True, (snd (VacuumContext (va_db va) (fst s)), now))))"

record prune_env =
  pr_ctx :: "ctx_err option"
  pr_db :: db_env
  pr_affected :: "db_err option"
  pr_meanwhile :: "cache \<Rightarrow> cache"
  pr_clock :: clock
  pr_vacuum :: vacuum_env

definition prune :: "prune_env \<Rightarrow> cache \<times> int \<Rightarrow> (bool \<times> (cache \<times> int)) option" where
  "prune pr s =
     (if pr_ctx pr \<noteq> None then Some (False, s)
      else (case PruneStaleYearsContext (pr_db pr) (pr_affected pr) (pr_meanwhile pr) (pr_clock pr) 14 (fst s) of
              None \<Rightarrow> None
            | Some (Inl e, c) \<Rightarrow> Some (False, (c, snd s))
            | Some (Inr n, c) \<Rightarrow> Some (if 0 < n then vacuumMaybe (pr_vacuum pr) (c, snd s) else (False, (c, snd s)))))"

text \<open>What is logged, if the query succeeds.\<close>

definition logCacheStats :: "ctx_err option \<Rightarrow> db_env \<Rightarrow> cache \<Rightarrow> cache_stats option" where
  "logCacheStats ctx env c =
     (if ctx \<noteq> None then None
      else (case StatsContext env c of (stats, Some e) \<Rightarrow> None | (stats, None) \<Rightarrow> Some stats))"

record 's maintenance_env =
  mt_prune :: prune_env
  mt_scan :: db_env
  mt_started :: clock
  mt_now :: clock
  mt_fetch :: "nat \<Rightarrow> 's fetch_env"
  mt_ctxs :: "nat \<Rightarrow> ctx_err option"

text \<open>One tick: whether VACUUM vac, and the state after it.\<close>

definition maintenance_turn where
  "maintenance_turn decode marshal mt s =
     (case s of (c, last_run, b) \<Rightarrow>
        (case prune (mt_prune mt) (c, last_run) of
           None \<Rightarrow> None
         | Some (vacuumed, (c1, last1)) \<Rightarrow>
             (case refreshStaleYears decode marshal (mt_scan mt) (mt_started mt) (mt_now mt) (mt_fetch mt) (mt_ctxs mt)
                     (c1, b) of
                (c2, b2) \<Rightarrow> Some (vacuumed, (c2, last1, b2)))))"

text \<open>The ticks until the context ends, with the moments VACUUM was decided on: first and second clock reading.\<close>

fun maintenance_worker where
  "maintenance_worker decode marshal [] s = Some ([], s)"
| "maintenance_worker decode marshal (mt # mts) s =
     (case maintenance_turn decode marshal mt s of
        None \<Rightarrow> None
      | Some (vacuumed, s1) \<Rightarrow>
          map_option (\<lambda>(runs, s2).
              (if vacuumed then (va_now (pr_vacuum (mt_prune mt)), va_check (pr_vacuum (mt_prune mt))) # runs else runs, s2))
            (maintenance_worker decode marshal mts s1))"

section \<open>Lemmas\<close>

lemma PruneStaleYears_ok:
  assumes "cache_ok dec (meanwhile c)"
  shows "\<exists>r c'. PruneStaleYearsContext env affected meanwhile now days c = Some (r, c') \<and> cache_ok dec c'"
proof -
  let ?m = "meanwhile c" and ?cut = "prune_cutoff now days"
  let ?pend = "map fst (filter (\<lambda>(year, hit). ?cut \<le> hit) (pendingLastHits c))"
  obtain n t where del: "delete_stale ?cut ?pend (year_cache ?m) = (n, t)" by fastforce
  then have wf: "mwf t" using cache_okD(2) [OF assms] by (auto simp: delete_stale_def Let_def mwf_filter)
  obtain d where d: "invalidate 0 True False (decoded ?m) = Some d" "dc_ok dec d"
    using invalidate_ok [OF cache_okD(1) [OF assms]] .
  have "cache_ok dec (?m\<lparr>year_cache := t, decoded := d\<rparr>)" "cache_ok dec (?m\<lparr>year_cache := t\<rparr>)"
    using assms d(2) wf by (auto simp: cache_ok_def)
  then show ?thesis
    using assms del d(1)
    by (cases "env_error env") (simp_all add: PruneStaleYearsContext_def Let_def execResultWithRetry_eq)
qed

lemma VacuumContext_cache [simp]: "snd (VacuumContext env c) = c"
  by (simp add: VacuumContext_def execResultWithRetry_eq split: option.splits)

lemma vacuumMaybe_result:
  assumes "vacuumMaybe va (c, last_run) = (vac, (c', last'))"
  shows "c' = c \<and> (vac \<longrightarrow> of_unix last_run + vacuumInterval < va_check va \<and> last' = to_unix (va_now va))
    \<and> (\<not> vac \<and> va_swap va last_run = last_run \<longrightarrow> last' = last_run)"
  using assms by (auto simp: vacuumMaybe_def Let_def split: if_splits)

definition prune_harmless :: "(string \<Rightarrow> anilist_show list option) \<Rightarrow> prune_env \<Rightarrow> bool" where
  "prune_harmless dec pr \<longleftrightarrow> keeps_ok dec (pr_meanwhile pr)"

lemma prune_result:
  assumes "cache_ok dec c" "prune_harmless dec pr"
  shows "\<exists>vac c' last'. prune pr (c, last_run) = Some (vac, (c', last')) \<and> cache_ok dec c'
    \<and> (vac \<longrightarrow> of_unix last_run + vacuumInterval < va_check (pr_vacuum pr) \<and> last' = to_unix (va_now (pr_vacuum pr)))
    \<and> (\<not> vac \<and> va_swap (pr_vacuum pr) last_run = last_run \<longrightarrow> last' = last_run)"
proof (cases "pr_ctx pr")
  case (Some e)
  then have "prune pr (c, last_run) = Some (False, (c, last_run))" by (simp add: prune_def)
  with assms show ?thesis by (intro exI [of _ False]) simp
next
  case None
  have "cache_ok dec (pr_meanwhile pr c)" using assms by (simp add: prune_harmless_def keeps_ok_def)
  then obtain r c1 where run: "PruneStaleYearsContext (pr_db pr) (pr_affected pr) (pr_meanwhile pr) (pr_clock pr) 14 c
      = Some (r, c1)" and ok: "cache_ok dec c1"
    using PruneStaleYears_ok by blast
  obtain vac c2 last2 where va: "vacuumMaybe (pr_vacuum pr) (c1, last_run) = (vac, (c2, last2))"
    by (metis prod.exhaust)
  note res = vacuumMaybe_result [OF va]
  show ?thesis
  proof (cases "\<exists>n. r = Inr n \<and> 0 < n")
    case True
    with None run va res ok show ?thesis by (auto simp: prune_def)
  next
    case False
    then have "prune pr (c, last_run) = Some (False, (c1, last_run))"
      using None run by (cases r) (auto simp: prune_def)
    with ok show ?thesis by (intro exI [of _ False]) simp
  qed
qed

definition fetches_harmless where
  "fetches_harmless decode envs \<longleftrightarrow>
     (\<forall>i. peek_harmless decode (fe_peek (envs i)) \<and> others_harmless decode (fe_others (envs i)))"

lemma refresh_loop_ok:
  assumes "fetches_harmless decode envs" "cache_ok (decoder_of decode) c" "backoff_ok b"
    and "refresh_loop decode marshal envs ctxs i years (c, b) = (c', b')"
  shows "cache_ok (decoder_of decode) c' \<and> backoff_ok b'"
  using assms(2-4)
proof (induction years arbitrary: i c b)
  case (Cons year years)
  show ?case
  proof (cases "ctxs i")
    case (Some e)
    with Cons.prems show ?thesis by simp
  next
    case None
    obtain err c1 b1 where f: "FetchAndStore decode marshal (envs i) year (c, b) = (err, (c1, b1))"
      by (metis prod.exhaust)
    have "cache_ok (decoder_of decode) c1 \<and> backoff_ok b1"
      using FetchAndStore_ok [OF Cons.prems(1,2) _ _ f] assms(1) by (simp add: fetches_harmless_def)
    with Cons.IH [of c1 b1 "Suc i"] Cons.prems(3) None f show ?thesis by simp
  qed
qed simp

lemma refreshStaleYears_ok:
  assumes "fetches_harmless decode envs" "cache_ok (decoder_of decode) c" "backoff_ok b"
    and "refreshStaleYears decode marshal env started now envs ctxs (c, b) = (c', b')"
  shows "cache_ok (decoder_of decode) c' \<and> backoff_ok b'"
  using assms refresh_loop_ok [OF assms(1-3)] by (auto simp: refreshStaleYears_def split: sum.splits)

definition maintenance_harmless where
  "maintenance_harmless decode mt \<longleftrightarrow>
     prune_harmless (decoder_of decode) (mt_prune mt) \<and> fetches_harmless decode (mt_fetch mt)"

lemma maintenance_turn_result:
  assumes "maintenance_harmless decode mt" "cache_ok (decoder_of decode) c" "backoff_ok b"
  defines "va \<equiv> pr_vacuum (mt_prune mt)"
  shows "\<exists>vac c' last' b'. maintenance_turn decode marshal mt (c, last_run, b) = Some (vac, (c', last', b'))
    \<and> cache_ok (decoder_of decode) c' \<and> backoff_ok b'
    \<and> (vac \<longrightarrow> of_unix last_run + vacuumInterval < va_check va \<and> last' = to_unix (va_now va))
    \<and> (\<not> vac \<and> va_swap va last_run = last_run \<longrightarrow> last' = last_run)"
proof -
  obtain vac c1 last1 where pr: "prune (mt_prune mt) (c, last_run) = Some (vac, (c1, last1))"
    "cache_ok (decoder_of decode) c1"
    and vac: "vac \<longrightarrow> of_unix last_run + vacuumInterval < va_check va \<and> last1 = to_unix (va_now va)"
    "\<not> vac \<and> va_swap va last_run = last_run \<longrightarrow> last1 = last_run"
    using prune_result [OF assms(2), of "mt_prune mt" last_run] assms(1)
    unfolding va_def maintenance_harmless_def by blast
  obtain c2 b2 where rf: "refreshStaleYears decode marshal (mt_scan mt) (mt_started mt) (mt_now mt) (mt_fetch mt)
      (mt_ctxs mt) (c1, b) = (c2, b2)"
    by fastforce
  have "cache_ok (decoder_of decode) c2 \<and> backoff_ok b2"
    using refreshStaleYears_ok [OF _ pr(2) assms(3) rf] assms(1) by (simp add: maintenance_harmless_def)
  moreover have "maintenance_turn decode marshal mt (c, last_run, b) = Some (vac, (c2, last1, b2))"
    using pr(1) rf by (simp add: maintenance_turn_def)
  ultimately show ?thesis using vac by blast
qed

text \<open>The clock readings of the ticks, in the order they are made.\<close>

definition vacuum_times :: "'s maintenance_env list \<Rightarrow> instant list" where
  "vacuum_times mts = concat (map (\<lambda>mt. let va = pr_vacuum (mt_prune mt) in [va_now va, va_check va]) mts)"

definition sole_caller :: "'s maintenance_env \<Rightarrow> bool" where
  "sole_caller mt \<longleftrightarrow> va_swap (pr_vacuum (mt_prune mt)) = (\<lambda>x. x)"

definition day_apart :: "instant \<times> instant \<Rightarrow> instant \<times> instant \<Rightarrow> bool" where
  "day_apart r r' \<longleftrightarrow> fst r + 24 * hour - second < snd r'"

lemma unix_second: "t - second < of_unix (to_unix t)"
proof -
  have "second * ((t - unix_epoch) div second) = t - unix_epoch - (t - unix_epoch) mod second"
    by (simp add: minus_mod_eq_mult_div)
  moreover have "(t - unix_epoch) mod second < second" by (simp add: second_def)
  ultimately show ?thesis by (simp add: of_unix_def to_unix_def mult.commute)
qed

lemma maintenance_worker_result:
  assumes "\<forall>mt \<in> set mts. maintenance_harmless decode mt" "cache_ok (decoder_of decode) c" "backoff_ok b"
  shows "\<exists>runs c' last' b'. maintenance_worker decode marshal mts (c, last_run, b) = Some (runs, (c', last', b'))
    \<and> cache_ok (decoder_of decode) c' \<and> backoff_ok b'
    \<and> ((\<forall>mt \<in> set mts. sole_caller mt) \<and> sorted (vacuum_times mts) \<longrightarrow>
        (\<forall>r \<in> set runs. of_unix last_run + vacuumInterval < snd r \<and> snd r \<in> set (vacuum_times mts))
        \<and> sorted_wrt day_apart runs)"
  using assms
proof (induction mts arbitrary: c last_run b)
  case Nil
  then show ?case by simp
next
  case (Cons mt mts)
  let ?va = "pr_vacuum (mt_prune mt)"
  obtain vac c1 last1 b1 where turn: "maintenance_turn decode marshal mt (c, last_run, b) = Some (vac, (c1, last1, b1))"
    and ok: "cache_ok (decoder_of decode) c1" "backoff_ok b1"
    and vac: "vac \<Longrightarrow> of_unix last_run + vacuumInterval < va_check ?va \<and> last1 = to_unix (va_now ?va)"
    "\<not> vac \<Longrightarrow> va_swap ?va last_run = last_run \<Longrightarrow> last1 = last_run"
    using maintenance_turn_result [of decode mt c b marshal last_run] Cons.prems by auto
  obtain runs c2 last2 b2 where run: "maintenance_worker decode marshal mts (c1, last1, b1) = Some (runs, (c2, last2, b2))"
    and ok2: "cache_ok (decoder_of decode) c2" "backoff_ok b2"
    and ih: "(\<forall>mt \<in> set mts. sole_caller mt) \<and> sorted (vacuum_times mts) \<longrightarrow>
        (\<forall>r \<in> set runs. of_unix last1 + vacuumInterval < snd r \<and> snd r \<in> set (vacuum_times mts))
        \<and> sorted_wrt day_apart runs"
    using Cons.IH [OF _ ok, of last1] Cons.prems(1) by (metis list.set_intros(2))
  let ?runs = "if vac then (va_now ?va, va_check ?va) # runs else runs"
  have spaced: "(\<forall>r \<in> set ?runs. of_unix last_run + vacuumInterval < snd r \<and> snd r \<in> set (vacuum_times (mt # mts)))
        \<and> sorted_wrt day_apart ?runs"
    if sole: "\<forall>mt \<in> set (mt # mts). sole_caller mt" and sorted: "sorted (vacuum_times (mt # mts))"
  proof -
    have times: "vacuum_times (mt # mts) = va_now ?va # va_check ?va # vacuum_times mts"
      by (simp add: vacuum_times_def Let_def)
    have later: "sorted (vacuum_times mts)" "va_now ?va \<le> va_check ?va"
      "\<And>t. t \<in> set (vacuum_times mts) \<Longrightarrow> va_check ?va \<le> t"
      using sorted by (simp_all add: times)
    have rest: "\<forall>r \<in> set runs. of_unix last1 + vacuumInterval < snd r \<and> snd r \<in> set (vacuum_times mts)"
      "sorted_wrt day_apart runs"
      using ih sole later(1) by simp_all
    show ?thesis
    proof (cases vac)
      case True
      have "day_apart (va_now ?va, va_check ?va) r" if "r \<in> set runs" for r
        using rest(1) that vac(1) [OF True] unix_second [of "va_now ?va"]
        by (fastforce simp: day_apart_def vacuumInterval_def)
      moreover have "of_unix last_run + vacuumInterval < snd r" if "r \<in> set runs" for r
        using rest(1) that vac(1) [OF True] later(3) by fastforce
      ultimately show ?thesis using True vac(1) rest by (simp add: times)
    next
      case False
      with vac(2) sole have "last1 = last_run" by (simp add: sole_caller_def)
      with rest False show ?thesis by (simp add: times)
    qed
  qed
  have "maintenance_worker decode marshal (mt # mts) (c, last_run, b) = Some (?runs, (c2, last2, b2))"
    using turn run by simp
  with spaced ok2 show ?case by blast
qed

text \<open>
  The maintenance worker never panics and keeps cache and failures well formed, whatever the
  statements, the upstream and other goroutines do; and two runs of VACUUM are never decided on
  less than a day (but for the second the stored time is cut to) after each other, if the clock does not run
  backwards.
\<close>

lemma maintenance_spaced:
  assumes "\<forall>mt \<in> set mts. maintenance_harmless decode mt" "cache_ok (decoder_of decode) c" "backoff_ok b"
  shows "\<exists>runs c' last' b'. maintenance_worker decode marshal mts (c, last_run, b) = Some (runs, (c', last', b'))
    \<and> cache_ok (decoder_of decode) c' \<and> backoff_ok b'
    \<and> ((\<forall>mt \<in> set mts. sole_caller mt) \<and> sorted (vacuum_times mts) \<longrightarrow> sorted_wrt day_apart runs)"
  using maintenance_worker_result [OF assms] by blast

lemma maintenance_spaced_witness:
  fixes denv va mt
  defines "denv \<equiv> \<lparr>fails = \<lambda>_. None, waits = \<lambda>_. None\<rparr>"
  defines "va t \<equiv> \<lparr>va_ctx = None, va_now = of_unix t, va_check = of_unix t, va_swap = \<lambda>x. x, va_db = denv\<rparr>"
  defines "mt t \<equiv> \<lparr>mt_prune = \<lparr>pr_ctx = None, pr_db = denv, pr_affected = None, pr_meanwhile = \<lambda>c. c,
      pr_clock = \<lparr>ck_now = of_unix t, ck_year = 2024\<rparr>, pr_vacuum = va t\<rparr>, mt_scan = denv,
    mt_started = \<lparr>ck_now = of_unix t, ck_year = 2024\<rparr>, mt_now = \<lparr>ck_now = of_unix t, ck_year = 2024\<rparr>,
    mt_fetch = \<lambda>_. \<lparr>fe_joined = Some (Inl Canceled), fe_peek = \<lparr>pk_db = denv,
        pk_read = \<lparr>ctx_start = None, ctx_absent = None, ctx_waiting = None, ctx_gate = None, ctx_decoded = None,
          ctx_end = None, others_before = \<lambda>c. c, others_read = \<lambda>c. c, others_waiting = \<lambda>c. c, others_decoding = \<lambda>c. c\<rparr>,
        pk_caps = \<lparr>raw_cap = 2, shows_cap = 0, tag_edge_caps = []\<rparr>, pk_clock = \<lparr>ck_now = of_unix t, ck_year = 2024\<rparr>\<rparr>,
      fe_cool = of_unix t, fe_others = \<lambda>s. s, fe_upstream = None, fe_set_db = denv,
      fe_set_clock = \<lparr>ck_now = of_unix t, ck_year = 2024\<rparr>, fe_end = of_unix t\<rparr>,
    mt_ctxs = \<lambda>_. None\<rparr>"
  shows "\<exists>runs s. maintenance_worker (DecodeYearData (\<lambda>_. Inr [])) (\<lambda>_. Inr []) [mt 1700000000, mt 1700000600]
      (openCacheDB [(2001, \<lparr>yr_data = [], fetched_at = 1, last_hit = 1\<rparr>)] [], 0, new_backoff) = Some (runs, s)
    \<and> sorted_wrt day_apart runs"
proof -
  let ?mts = "[mt 1700000000, mt 1700000600]" and ?dec = "DecodeYearData (\<lambda>_. Inr [])"
  have "\<forall>m \<in> set ?mts. maintenance_harmless ?dec m"
    by (simp add: mt_def maintenance_harmless_def prune_harmless_def fetches_harmless_def peek_harmless_def
        others_harmless_def keeps_ok_def)
  moreover have "cache_ok (decoder_of ?dec) (openCacheDB [(2001, \<lparr>yr_data = [], fetched_at = 1, last_hit = 1\<rparr>)] [])"
    by (intro openCacheDB_ok) (simp_all add: mwf_def)
  moreover have "(\<forall>m \<in> set ?mts. sole_caller m) \<and> sorted (vacuum_times ?mts)"
    by (simp add: mt_def va_def sole_caller_def vacuum_times_def of_unix_def Let_def second_def)
  ultimately show ?thesis
    using maintenance_spaced [OF _ _ new_backoff_ok, of ?mts ?dec _ "\<lambda>_. Inr []" 0] by blast
qed

end
