(* ===== verification/Http_Server.thy ===== *)
theory Http_Server
  imports Http_Writer Show_Process Year_Fetch Background_Tasks
begin

text \<open>
  The handlers of \<open>cmd/server/main.go\<close>: \<open>handleList\<close>, \<open>handleHealth\<close>, \<open>handleCacheStats\<close> and \<open>handleCacheClear\<close>, on
  the operations of the other theories. The inputs of a request are those of the calls it makes; the
  quotation \<open>%q\<close> of an invalid category is an argument.
\<close>

section \<open>State and bodies\<close>

record server =
  sv_cache :: cache
  sv_backoff :: backoff
  sv_background :: background
  sv_resolver :: resolver

definition marshal_shows :: "response_show list \<Rightarrow> string" where
  "marshal_shows shs =
     json_array (map (\<lambda>x. json_object ((''tvdbId'', fmt_d (TVDBID' x))
       # (if Title' x = [] then [] else [(''title'', json_string (Title' x))]))) shs)"

definition marshal_stats :: "cache_stats \<Rightarrow> string" where
  "marshal_stats st = json_object [(''entries'', fmt_d (int (st_Entries st))), (''hits'', fmt_d (st_Hits st)),
     (''misses'', fmt_d (st_Misses st))]"

datatype healthStatus = StatusOK | StatusWarming | StatusDegraded | StatusUnhealthy

fun health_text :: "healthStatus \<Rightarrow> string" where
  "health_text StatusOK = ''ok''"
| "health_text StatusWarming = ''warming''"
| "health_text StatusDegraded = ''degraded''"
| "health_text StatusUnhealthy = ''unhealthy''"

record healthResponse =
  hr_Status :: healthStatus
  hr_Reason :: string
  hr_Cache :: healthStatus
  hr_Resolver :: healthStatus

definition marshal_health :: "healthResponse \<Rightarrow> string" where
  "marshal_health h =
     (let check = (\<lambda>s. json_object [(''status'', json_string (health_text s))])
      in json_object ((''status'', json_string (health_text (hr_Status h)))
           # (if hr_Reason h = [] then [] else [(''reason'', json_string (hr_Reason h))])
           @ [(''checks'', json_object [(''cache'', check (hr_Cache h)), (''resolver'', check (hr_Resolver h))])]))"

section \<open>Health and debug endpoints\<close>

definition ResolverLoaded :: "server \<Rightarrow> bool" where
  "ResolverLoaded s \<longleftrightarrow> sv_resolver s \<noteq> None"

definition health_response :: "db_err + bool \<Rightarrow> bool \<Rightarrow> int \<times> healthResponse" where
  "health_response cacheReady resolverLoaded =
     (let (cacheStatus, aggregateStatus, statusCode) =
            (case cacheReady of
               Inl _ \<Rightarrow> (StatusUnhealthy, StatusUnhealthy, 503)
             | Inr ready \<Rightarrow> (if ready then StatusOK else StatusWarming, StatusOK, 200));
          (resolverStatus, aggregateStatus, statusCode) =
            (if resolverLoaded then (StatusOK, aggregateStatus, statusCode)
             else (StatusDegraded, if isl cacheReady then (aggregateStatus, statusCode) else (StatusDegraded, 503)));
          reason = (if \<not> resolverLoaded \<and> \<not> isl cacheReady then ''resolver not loaded'' else [])
      in (statusCode, \<lparr>hr_Status = aggregateStatus, hr_Reason = reason, hr_Cache = cacheStatus, hr_Resolver = resolverStatus\<rparr>))"

definition handleHealth :: "db_env \<Rightarrow> db_err option \<Rightarrow> int list \<Rightarrow> server handler" where
  "handleHealth env ping years rq w m s =
     (if rq_Method rq \<noteq> ''GET'' \<and> rq_Method rq \<noteq> ''HEAD'' then (False, methodNotAllowed ''GET, HEAD'' w, m, s)
      else (case health_response (HasYearsContext env ping years (sv_cache s)) (ResolverLoaded s) of
              (statusCode, response) \<Rightarrow> (False, writeJSON statusCode (marshal_health response) w, m, s)))"

definition handleCacheStats :: "db_env \<Rightarrow> config option \<Rightarrow> server handler" where
  "handleCacheStats env cfg =
     debugHandler cfg [''GET'', ''HEAD'']
       (\<lambda>rq w m s. case StatsContext env (sv_cache s) of
           (stats, Some e) \<Rightarrow> (False, WriteHeader 500 w, m, s)
         | (stats, None) \<Rightarrow> (False, writeJSON 200 (marshal_stats stats) w, m, s))"

definition handleCacheClear :: "db_env \<Rightarrow> config option \<Rightarrow> server handler" where
  "handleCacheClear env cfg =
     debugHandler cfg [''POST'']
       (\<lambda>rq w m s. case ClearContext env (sv_cache s) of
           None \<Rightarrow> (True, w, m, s)
         | Some (Some e, c) \<Rightarrow> (False, WriteHeader 500 w, m, s\<lparr>sv_cache := c\<rparr>)
         | Some (None, c) \<Rightarrow>
             (False, writeJSON 200 (json_object [(''status'', json_string ''ok'')]) w, m, s\<lparr>sv_cache := c\<rparr>))"

section \<open>The list\<close>

definition validSeasons :: "string list" where
  "validSeasons = [''WINTER'', ''SPRING'', ''SUMMER'', ''FALL'', ''ALL'']"

text \<open>The checks before the cache is read: a response, or season, year and category.\<close>

definition list_season :: "request \<Rightarrow> string" where
  "list_season rq =
     (let season = to_upper (trim_space (rq_Query rq ''season'')) in if season = [] then ''ALL'' else season)"

definition list_year :: "int \<Rightarrow> string \<Rightarrow> string + int" where
  "list_year this_year yearStr =
     (if yearStr = [] then Inr this_year
      else (case atoi yearStr of
              None \<Rightarrow> Inl ''invalid year parameter''
            | Some y \<Rightarrow>
                if y \<le> 0 then Inl ''invalid year parameter''
                else if y < this_year - 10 \<or> this_year + 10 < y
                then Inl (''year '' @ fmt_d y @ '' out of range (must be within '' @ fmt_d (this_year - 10) @ '' to ''
                       @ fmt_d (this_year + 10) @ '')'')
                else Inr y))"

definition list_category :: "(string \<Rightarrow> string) \<Rightarrow> request \<Rightarrow> string + string" where
  "list_category quote rq =
     (let category = trim_space (rq_Query rq ''category'') in
      if category = [] then Inr ''series''
      else if category \<noteq> ''series'' \<and> category \<noteq> ''series-new''
      then Inl (''invalid category: '' @ quote category @ '' (valid values: series, series-new)'')
      else Inr category)"

definition list_request ::
    "(string \<Rightarrow> string) \<Rightarrow> int \<Rightarrow> bool \<Rightarrow> request \<Rightarrow> (writer \<Rightarrow> writer) + string \<times> int \<times> string" where
  "list_request quote this_year resolverLoaded rq =
     (if rq_Method rq \<noteq> ''GET'' \<and> rq_Method rq \<noteq> ''HEAD'' then Inl (methodNotAllowed ''GET, HEAD'')
      else if \<not> List.member validSeasons (list_season rq) then Inl (http_Error ''invalid season parameter'' 400)
      else if \<not> resolverLoaded
      then Inl (writeJSON 503 (json_object [(''status'', json_string ''degraded''), (''reason'', json_string ''resolver not loaded'')]))
      else (case list_year this_year (rq_Query rq ''year'') of
              Inl msg \<Rightarrow> Inl (http_Error msg 400)
            | Inr year \<Rightarrow>
                (case list_category quote rq of
                   Inl msg \<Rightarrow> Inl (http_Error msg 400)
                 | Inr category \<Rightarrow> Inr (list_season rq, year, category))))"

text \<open>The inputs of a list request; the resolver when the shows are resolved.\<close>

record list_env =
  li_quote :: "string \<Rightarrow> string"
  li_decode :: "string \<Rightarrow> string + anilist_show list"
  li_marshal :: "anilist_show list option \<Rightarrow> string + string"
  li_year :: int
  li_read :: peek_env
  li_fetch :: "(cache \<times> backoff) fetch_env"
  li_reread :: peek_env
  li_prior :: peek_env
  li_now :: civil
  li_resolver :: "resolver \<Rightarrow> resolver"

definition get_year ::
    "list_env \<Rightarrow> peek_env \<Rightarrow> int \<Rightarrow> cache \<Rightarrow> ((decoded_year \<times> db_err option) \<times> cache) option" where
  "get_year env p year c =
     GetDecodedYearContext (pk_db p) (pk_read p) (li_decode env) (pk_caps p) (pk_clock p) year c"

definition respondEmpty :: "string \<Rightarrow> writer \<Rightarrow> log_metadata \<Rightarrow> writer \<times> log_metadata" where
  "respondEmpty reason w m =
     (writeJSON 200 ''[]'' w,
      m\<lparr>lm_outcome := ''degraded'', lm_reason := reason, lm_resultCount := 0, lm_resultCountSet := True\<rparr>)"

definition internal_error :: "writer \<Rightarrow> writer" where
  "internal_error w = http_Error ''internal error'' 500 w"

definition unusable :: "decoded_year \<Rightarrow> bool" where
  "unusable data \<longleftrightarrow> \<not> dy_Present data \<or> dy_DecodeErr data \<noteq> None"

definition cache_state_of :: "decoded_year \<Rightarrow> string" where
  "cache_state_of data =
     (if dy_DecodeErr data \<noteq> None then ''invalid''
      else if \<not> dy_Present data then ''miss''
      else if dy_Fresh data then ''hit''
      else ''stale'')"

text \<open>From the shows to the answer: \<open>Process\<close>, the discovery task, the refresh of a stale year, the body.\<close>

definition list_answer ::
    "config \<Rightarrow> list_env \<Rightarrow> decoded_year \<Rightarrow> anilist_show list \<Rightarrow> string \<Rightarrow> int \<Rightarrow> string \<Rightarrow> writer \<Rightarrow>
     log_metadata \<Rightarrow> server \<Rightarrow> server handled" where
  "list_answer cfg env data priorShows season year category w m s =
     (case Process cfg (li_resolver env (sv_resolver s)) (li_now env) (dy_Shows data) priorShows season category of
        (shs, _, _) \<Rightarrow>
          (let bg1 = launch_tracking (length shs) (sv_background s);
               (refresh, bg2) = (if \<not> dy_Fresh data
                  then (case ScheduleYearFetch year bg1 of (v, bg) \<Rightarrow> (v \<noteq> YearFetchRejected, bg)) else (False, bg1))
           in (False, writeJSON 200 (marshal_shows shs) w,
               m\<lparr>lm_refreshScheduled := (if \<not> dy_Fresh data then refresh else lm_refreshScheduled m),
                 lm_resultCount := int (length shs), lm_resultCountSet := True\<rparr>,
               s\<lparr>sv_background := bg2, sv_resolver := li_resolver env (sv_resolver s)\<rparr>)))"

text \<open>The December shows of the year before, for the winter season.\<close>

definition list_prior ::
    "config \<Rightarrow> list_env \<Rightarrow> decoded_year \<Rightarrow> string \<Rightarrow> int \<Rightarrow> string \<Rightarrow> writer \<Rightarrow> log_metadata \<Rightarrow> server \<Rightarrow>
     server handled" where
  "list_prior cfg env data season year category w m s =
     (if season \<noteq> ''WINTER'' then list_answer cfg env data [] season year category w m s
      else (case get_year env (li_prior env) (year - 1) (sv_cache s) of
              None \<Rightarrow> (True, w, m, s)
            | Some ((priorData, Some e), c) \<Rightarrow> (False, internal_error w, m, s\<lparr>sv_cache := c\<rparr>)
            | Some ((priorData, None), c) \<Rightarrow>
                if unusable priorData
                then list_answer cfg env data [] season year category w (m\<lparr>lm_winterBackfill := True\<rparr>)
                       (s\<lparr>sv_cache := c, sv_background := snd (ScheduleYearFetch (year - 1) (sv_background s))\<rparr>)
                else list_answer cfg env data (dy_Shows priorData) season year category w m (s\<lparr>sv_cache := c\<rparr>)))"

definition handleList :: "config \<Rightarrow> list_env \<Rightarrow> server handler" where
  "handleList cfg env rq w m s =
     (case list_request (li_quote env) (li_year env) (ResolverLoaded s) rq of
        Inl respond \<Rightarrow> (False, respond w, m, s)
      | Inr (season, year, category) \<Rightarrow>
          (let m1 = m\<lparr>lm_season := season, lm_year := year, lm_category := category\<rparr> in
           case get_year env (li_read env) year (sv_cache s) of
             None \<Rightarrow> (True, w, m1, s)
           | Some ((data, Some e), c) \<Rightarrow> (False, internal_error w, m1, s\<lparr>sv_cache := c\<rparr>)
           | Some ((data, None), c) \<Rightarrow>
               (let m2 = m1\<lparr>lm_cacheState := cache_state_of data\<rparr> in
                if \<not> unusable data then list_prior cfg env data season year category w m2 (s\<lparr>sv_cache := c\<rparr>)
                else (case FetchAndStore (li_decode env) (li_marshal env) (li_fetch env) year (c, sv_backoff s) of
                        (Some e, (c1, b1)) \<Rightarrow>
                          (case respondEmpty ''fetch_failed'' w m2 of
                             (w1, m3) \<Rightarrow> (False, w1, m3, s\<lparr>sv_cache := c1, sv_backoff := b1\<rparr>))
                      | (None, (c1, b1)) \<Rightarrow>
                          (let s1 = s\<lparr>sv_cache := c1, sv_backoff := b1\<rparr> in
                           case get_year env (li_reread env) year c1 of
                             None \<Rightarrow> (True, w, m2, s1)
                           | Some ((data, Some e), c2) \<Rightarrow> (False, internal_error w, m2, s1\<lparr>sv_cache := c2\<rparr>)
                           | Some ((data, None), c2) \<Rightarrow>
                               if unusable data
                               then (case respondEmpty ''cache_unavailable_after_fetch'' w m2 of
                                       (w1, m3) \<Rightarrow> (False, w1, m3, s1\<lparr>sv_cache := c2\<rparr>))
                               else list_prior cfg env data season year category w m2 (s1\<lparr>sv_cache := c2\<rparr>))))))"

text \<open>The routes of the server.\<close>

definition server_routes ::
    "config \<Rightarrow> list_env \<Rightarrow> db_env \<Rightarrow> db_err option \<Rightarrow> (string \<times> server handler) list" where
  "server_routes cfg env db ping =
     [(''/list'', handleList cfg env), (''/health'', handleHealth db ping (PrewarmYears cfg)),
      (''/cache/stats'', handleCacheStats db (Some cfg)), (''/cache/clear'', handleCacheClear db (Some cfg))]"

section \<open>Lemmas\<close>

definition server_ok :: "(string \<Rightarrow> string + anilist_show list) \<Rightarrow> server \<Rightarrow> bool" where
  "server_ok decode s \<longleftrightarrow>
     cache_ok (decoder_of decode) (sv_cache s) \<and> backoff_ok (sv_backoff s) \<and> bg_ok (sv_background s)"

definition list_harmless :: "list_env \<Rightarrow> bool" where
  "list_harmless env \<longleftrightarrow>
     peek_harmless (li_decode env) (li_read env) \<and> peek_harmless (li_decode env) (li_reread env)
     \<and> peek_harmless (li_decode env) (li_prior env) \<and> peek_harmless (li_decode env) (fe_peek (li_fetch env))
     \<and> others_harmless (li_decode env) (fe_others (li_fetch env))"

text \<open>A read whose statements and context do not fail, and the shows of a year's row that decode.\<close>

definition read_lives :: "peek_env \<Rightarrow> bool" where
  "read_lives p \<longleftrightarrow> alive (pk_read p) \<and> env_error (pk_db p) = None"

definition row_shows :: "(string \<Rightarrow> string + anilist_show list) \<Rightarrow> cache \<Rightarrow> int \<Rightarrow> anilist_show list option" where
  "row_shows decode c year = (case row_bytes c year of None \<Rightarrow> None | Some raw \<Rightarrow> decoder_of decode raw)"

definition seen_by :: "peek_env \<Rightarrow> cache \<Rightarrow> cache" where
  "seen_by p c = others_before (pk_read p) c"

text \<open>What a read of a year tells: the shows of the row it saw, unless it fails.\<close>

definition read_as :: "list_env \<Rightarrow> peek_env \<Rightarrow> cache \<Rightarrow> int \<Rightarrow> decoded_year \<Rightarrow> db_err option \<Rightarrow> bool" where
  "read_as env p c year res err \<longleftrightarrow> (read_lives p \<longrightarrow> err = None)
     \<and> (err = None \<longrightarrow> row_shows (li_decode env) (seen_by p c) year = (if unusable res then None else Some (dy_Shows res)))"

lemma read_asD:
  assumes "read_as env p c year res err"
  shows "err \<noteq> None \<Longrightarrow> \<not> read_lives p"
    "err = None \<Longrightarrow> unusable res \<Longrightarrow> row_shows (li_decode env) (seen_by p c) year = None"
    "err = None \<Longrightarrow> \<not> unusable res \<Longrightarrow> row_shows (li_decode env) (seen_by p c) year = Some (dy_Shows res)"
  using assms by (auto simp: read_as_def)

lemma get_year_result:
  assumes "cache_ok (decoder_of (li_decode env)) c" "peek_harmless (li_decode env) p"
  obtains res err c' where "get_year env p year c = Some ((res, err), c')" "cache_ok (decoder_of (li_decode env)) c'"
    and "read_as env p c year res err"
proof -
  let ?c0 = "others_before (pk_read p) c"
  obtain res err c' where run: "get_year env p year c = Some ((res, err), c')" and ok: "cache_ok (decoder_of (li_decode env)) c'"
    and live: "alive (pk_read p) \<and> env_error (pk_db p) = None \<longrightarrow> err = None"
    and row: "err = None \<longrightarrow> (case mget (year_cache ?c0) year of
           None \<Rightarrow> res = zero_decoded_year
         | Some row \<Rightarrow> res = read_result (li_decode env)
             (zero_decoded_year\<lparr>dy_Fresh := yearFreshAt ?c0 year (fetched_at row) (pk_clock p), dy_Present := True\<rparr>) (yr_data row))"
    using decoded_read_result [of "li_decode env" c "pk_read p" "pk_db p" "pk_caps p" "pk_clock p" year True] assms
    unfolding get_year_def GetDecodedYearContext_def peek_harmless_def by blast
  have "row_shows (li_decode env) ?c0 year = (if unusable res then None else Some (dy_Shows res))" if e: "err = None"
  proof (cases "mget (year_cache ?c0) year")
    case None
    then show ?thesis using row e by (simp add: unusable_def zero_decoded_year_def row_shows_def row_bytes_def)
  next
    case (Some rw)
    then show ?thesis using row e
      by (cases "li_decode env (yr_data rw)")
        (simp_all add: unusable_def zero_decoded_year_def row_shows_def row_bytes_def read_result_def decoder_of_def)
  qed
  then have "read_as env p c year res err" using live by (simp add: read_as_def read_lives_def seen_by_def)
  with run ok show thesis by (rule that)
qed

lemma bg_ok_track [simp]: "bg_ok b \<Longrightarrow> bg_ok (launch_tracking n b)"
  by (rule bg_step_ok [OF bg_step.track])

lemma bg_ok_schedule [simp]: "bg_ok b \<Longrightarrow> bg_ok (snd (ScheduleYearFetch y b))"
  by (rule bg_step_ok [OF bg_step.year]) (rule surjective_pairing)

text \<open>What the answer to a list request is.\<close>

definition answered_with ::
    "config \<Rightarrow> list_env \<Rightarrow> resolver \<Rightarrow> anilist_show list \<Rightarrow> anilist_show list \<Rightarrow> string \<Rightarrow> string \<Rightarrow> writer \<Rightarrow> bool" where
  "answered_with cfg env r shows prior season category w' \<longleftrightarrow> sent_status w' = Some 200
     \<and> (rw_fails w' = None \<longrightarrow>
          rw_body w' = marshal_shows (fst (Process cfg (li_resolver env r) (li_now env) shows prior season category)))"

lemma untouched_ok [simp]: "untouched w \<Longrightarrow> writer_ok w"
  by (simp add: untouched_def)

lemma list_answer_result:
  assumes "server_ok decode s" "untouched w"
  shows "\<exists>w' m' s'. list_answer cfg env data prior season year category w m s = (False, w', m', s') \<and> writer_ok w'
    \<and> server_ok decode s' \<and> answered_with cfg env (sv_resolver s) (dy_Shows data) prior season category w'"
proof -
  obtain shs kept batch where p: "Process cfg (li_resolver env (sv_resolver s)) (li_now env) (dy_Shows data) prior season category
      = (shs, kept, batch)"
    by (metis prod.exhaust)
  let ?b = "launch_tracking (length shs) (sv_background s)"
  obtain v bg where sch: "ScheduleYearFetch year ?b = (v, bg)" by fastforce
  have bg: "bg_ok ?b" "bg_ok bg"
    using assms(1) bg_ok_track [of "sv_background s" "length shs"] bg_ok_schedule [of ?b year]
    by (auto simp: server_ok_def sch)
  show ?thesis
    using assms bg by (cases "dy_Fresh data")
      (simp_all add: list_answer_def p sch server_ok_def answered_with_def)
qed

text \<open>The shows of the year before that a winter request takes into account.\<close>

definition prior_shows :: "list_env \<Rightarrow> string \<Rightarrow> int \<Rightarrow> cache \<Rightarrow> anilist_show list" where
  "prior_shows env season year c =
     (if season \<noteq> ''WINTER'' then []
      else (case row_shows (li_decode env) (seen_by (li_prior env) c) (year - 1) of None \<Rightarrow> [] | Some shs \<Rightarrow> shs))"

lemma list_prior_result:
  assumes "server_ok (li_decode env) s" "list_harmless env" "untouched w"
  shows "\<exists>w' m' s'. list_prior cfg env data season year category w m s = (False, w', m', s') \<and> writer_ok w'
    \<and> server_ok (li_decode env) s'
    \<and> (\<not> read_lives (li_prior env) \<and> sent_status w' = Some 500
       \<or> answered_with cfg env (sv_resolver s) (dy_Shows data) (prior_shows env season year (sv_cache s)) season category w')"
proof (cases "season = ''WINTER''")
  case False
  then have "list_prior cfg env data season year category w m s = list_answer cfg env data [] season year category w m s"
    "prior_shows env season year (sv_cache s) = []"
    by (simp_all add: list_prior_def prior_shows_def)
  then show ?thesis using list_answer_result [OF assms(1,3), of cfg env data "[]" season year category m] by metis
next
  case True
  have c: "cache_ok (decoder_of (li_decode env)) (sv_cache s)" "peek_harmless (li_decode env) (li_prior env)"
    using assms(1,2) by (simp_all add: server_ok_def list_harmless_def)
  obtain res err c' where g: "get_year env (li_prior env) (year - 1) (sv_cache s) = Some ((res, err), c')"
    "cache_ok (decoder_of (li_decode env)) c'"
    and read: "read_as env (li_prior env) (sv_cache s) (year - 1) res err"
    by (rule get_year_result [OF c, where year = "year - 1"])
  show ?thesis
  proof (cases err)
    case (Some e)
    then have "list_prior cfg env data season year category w m s = (False, internal_error w, m, s\<lparr>sv_cache := c'\<rparr>)"
      using True g(1) by (simp add: list_prior_def)
    moreover have "server_ok (li_decode env) (s\<lparr>sv_cache := c'\<rparr>)" using assms(1) g(2) by (simp add: server_ok_def)
    moreover have "\<not> read_lives (li_prior env)" using read_asD(1) [OF read] Some by simp
    ultimately show ?thesis using assms(3) by (simp add: internal_error_def)
  next
    case None
    show ?thesis
    proof (cases "unusable res")
      case bad: True
      let ?s = "s\<lparr>sv_cache := c', sv_background := snd (ScheduleYearFetch (year - 1) (sv_background s))\<rparr>"
      have "server_ok (li_decode env) ?s" using assms(1) g(2) by (simp add: server_ok_def)
      moreover have "list_prior cfg env data season year category w m s =
          list_answer cfg env data [] season year category w (m\<lparr>lm_winterBackfill := True\<rparr>) ?s"
        using True None g(1) bad by (simp add: list_prior_def)
      moreover have "prior_shows env season year (sv_cache s) = []"
        using read_asD(2) [OF read None bad] by (simp add: prior_shows_def)
      ultimately show ?thesis
        using list_answer_result [of "li_decode env" ?s w cfg env data "[]" season year category "m\<lparr>lm_winterBackfill := True\<rparr>"]
          assms(3) by simp blast
    next
      case good: False
      let ?s = "s\<lparr>sv_cache := c'\<rparr>"
      have "server_ok (li_decode env) ?s" using assms(1) g(2) by (simp add: server_ok_def)
      moreover have "list_prior cfg env data season year category w m s =
          list_answer cfg env data (dy_Shows res) season year category w m ?s"
        using True None g(1) good by (simp add: list_prior_def)
      moreover have "prior_shows env season year (sv_cache s) = dy_Shows res"
        using read_asD(3) [OF read None good] True by (simp add: prior_shows_def)
      ultimately show ?thesis
        using list_answer_result [of "li_decode env" ?s w cfg env data "dy_Shows res" season year category m]
          assms(3) by simp blast
    qed
  qed
qed

text \<open>The shows a list request answers from: those of the row it read, or of the row after a fetch.\<close>

definition served_shows :: "list_env \<Rightarrow> int \<Rightarrow> server \<Rightarrow> anilist_show list \<Rightarrow> bool" where
  "served_shows env year s shs \<longleftrightarrow>
     row_shows (li_decode env) (seen_by (li_read env) (sv_cache s)) year = Some shs
     \<or> row_shows (li_decode env) (seen_by (li_read env) (sv_cache s)) year = None
       \<and> (\<exists>c c1 b1. FetchAndStore (li_decode env) (li_marshal env) (li_fetch env) year (c, sv_backoff s) = (None, (c1, b1))
            \<and> row_shows (li_decode env) (seen_by (li_reread env) c1) year = Some shs)"

lemma list_prior_served:
  assumes "server_ok (li_decode env) s1" "list_harmless env" "untouched w"
    and "served_shows env year s (dy_Shows data)" "sv_resolver s1 = sv_resolver s"
  shows "\<exists>w' m' s'. list_prior cfg env data season year category w m s1 = (False, w', m', s') \<and> writer_ok w'
    \<and> server_ok (li_decode env) s'
    \<and> (\<not> (read_lives (li_read env) \<and> read_lives (li_reread env) \<and> read_lives (li_prior env)) \<and> sent_status w' = Some 500
       \<or> sent_status w' = Some 200 \<and> (rw_fails w' = None \<longrightarrow> rw_body w' = ''[]'') \<and> lm_outcome m' = ''degraded''
         \<and> row_shows (li_decode env) (seen_by (li_read env) (sv_cache s)) year = None
       \<or> (\<exists>shs c. served_shows env year s shs
            \<and> answered_with cfg env (sv_resolver s) shs (prior_shows env season year c) season category w'))"
  using list_prior_result [OF assms(1-3), of cfg data season year category m] assms(4) unfolding assms(5) by blast

lemma handleList_result:
  assumes "server_ok (li_decode env) s" "list_harmless env" "untouched w"
    and "list_request (li_quote env) (li_year env) (ResolverLoaded s) rq = Inr (season, year, category)"
  shows "\<exists>w' m' s'. handleList cfg env rq w m s = (False, w', m', s') \<and> writer_ok w' \<and> server_ok (li_decode env) s'
    \<and> (\<not> (read_lives (li_read env) \<and> read_lives (li_reread env) \<and> read_lives (li_prior env)) \<and> sent_status w' = Some 500
       \<or> sent_status w' = Some 200 \<and> (rw_fails w' = None \<longrightarrow> rw_body w' = ''[]'') \<and> lm_outcome m' = ''degraded''
         \<and> row_shows (li_decode env) (seen_by (li_read env) (sv_cache s)) year = None
       \<or> (\<exists>shs c. served_shows env year s shs
            \<and> answered_with cfg env (sv_resolver s) shs (prior_shows env season year c) season category w'))"
proof -
  let ?m1 = "m\<lparr>lm_season := season, lm_year := year, lm_category := category\<rparr>"
  have c: "cache_ok (decoder_of (li_decode env)) (sv_cache s)" "backoff_ok (sv_backoff s)"
    and h: "peek_harmless (li_decode env) (li_read env)" "peek_harmless (li_decode env) (li_reread env)"
      "peek_harmless (li_decode env) (fe_peek (li_fetch env))" "others_harmless (li_decode env) (fe_others (li_fetch env))"
    using assms(1,2) by (simp_all add: server_ok_def list_harmless_def)
  obtain data err c1 where g: "get_year env (li_read env) year (sv_cache s) = Some ((data, err), c1)"
    and c1: "cache_ok (decoder_of (li_decode env)) c1" and read: "read_as env (li_read env) (sv_cache s) year data err"
    by (rule get_year_result [OF c(1) h(1), where year = year])
  note start = handleList_def assms(4) g
  have ok1: "server_ok (li_decode env) (s\<lparr>sv_cache := c1\<rparr>)" using assms(1) c1 by (simp add: server_ok_def)
  show ?thesis
  proof (cases err)
    case (Some e)
    then have "handleList cfg env rq w m s = (False, internal_error w, ?m1, s\<lparr>sv_cache := c1\<rparr>)"
      by (simp add: start Let_def)
    moreover have "\<not> read_lives (li_read env)" using read_asD(1) [OF read] Some by simp
    ultimately show ?thesis using ok1 assms(3) by (simp add: internal_error_def)
  next
    case noerr: None
    let ?m2 = "?m1\<lparr>lm_cacheState := cache_state_of data\<rparr>"
    show ?thesis
    proof (cases "unusable data")
      case False
      then have run: "handleList cfg env rq w m s = list_prior cfg env data season year category w ?m2 (s\<lparr>sv_cache := c1\<rparr>)"
        using noerr by (simp add: start Let_def)
      have "served_shows env year s (dy_Shows data)" using read_asD(3) [OF read noerr False] by (simp add: served_shows_def)
      then show ?thesis
        unfolding run by (intro list_prior_served [OF ok1 assms(2,3)]) simp_all
    next
      case bad: True
      have gone: "row_shows (li_decode env) (seen_by (li_read env) (sv_cache s)) year = None" using read_asD(2) [OF read noerr bad] .
      obtain ferr c2 b2 where f: "FetchAndStore (li_decode env) (li_marshal env) (li_fetch env) year (c1, sv_backoff s)
          = (ferr, (c2, b2))"
        by (metis prod.exhaust)
      have ok2: "cache_ok (decoder_of (li_decode env)) c2" "backoff_ok b2"
        using FetchAndStore_ok [OF c1 c(2) h(3,4) f] by auto
      let ?s2 = "s\<lparr>sv_cache := c2, sv_backoff := b2\<rparr>"
      have oks: "server_ok (li_decode env) ?s2" using assms(1) ok2 by (simp add: server_ok_def)
      show ?thesis
      proof (cases ferr)
        case (Some e)
        then show ?thesis
          using noerr bad f oks gone assms(3) by (simp add: start Let_def respondEmpty_def)
      next
        case fetched: None
        obtain data2 err2 c3 where g2: "get_year env (li_reread env) year c2 = Some ((data2, err2), c3)"
          and c3: "cache_ok (decoder_of (li_decode env)) c3" and read2: "read_as env (li_reread env) c2 year data2 err2"
          by (rule get_year_result [OF ok2(1) h(2), where year = year])
        have ok3: "server_ok (li_decode env) (?s2\<lparr>sv_cache := c3\<rparr>)" using oks c3 by (simp add: server_ok_def)
        show ?thesis
        proof (cases err2)
          case (Some e)
          then have "handleList cfg env rq w m s = (False, internal_error w, ?m2, ?s2\<lparr>sv_cache := c3\<rparr>)"
            using noerr bad f fetched g2 by (simp add: start Let_def)
          moreover have "\<not> read_lives (li_reread env)" using read_asD(1) [OF read2] Some by simp
          ultimately show ?thesis using ok3 assms(3) by (simp add: internal_error_def)
        next
          case noerr2: None
          show ?thesis
          proof (cases "unusable data2")
            case True
            then show ?thesis
              using noerr bad f fetched g2 noerr2 ok3 gone assms(3) by (simp add: start Let_def respondEmpty_def)
          next
            case False
            then have run: "handleList cfg env rq w m s =
                list_prior cfg env data2 season year category w ?m2 (?s2\<lparr>sv_cache := c3\<rparr>)"
              using noerr bad f fetched g2 noerr2 by (simp add: start Let_def)
            have "served_shows env year s (dy_Shows data2)"
              using gone f fetched read_asD(3) [OF read2 noerr2 False] unfolding served_shows_def by blast
            then show ?thesis
              unfolding run by (intro list_prior_served [OF ok3 assms(2,3)]) simp_all
          qed
        qed
      qed
    qed
  qed
qed

section \<open>The routes keep the contract\<close>

lemma list_request_writer:
  "list_request quote y loaded rq = Inl respond \<Longrightarrow> writer_ok w \<Longrightarrow> writer_ok (respond w)"
  by (auto simp: list_request_def split: if_splits sum.splits prod.splits)

lemma list_answer_writer:
  "list_answer cfg env data prior season year category w m s = (p, w', m', s') \<Longrightarrow> writer_ok w \<Longrightarrow> writer_ok w'"
  by (auto simp: list_answer_def Let_def split: prod.splits)

lemma list_prior_writer:
  assumes "list_prior cfg env data season year category w m s = (p, w', m', s')" "writer_ok w"
  shows "writer_ok w'"
proof (cases "season = ''WINTER''")
  case False
  with assms show ?thesis using list_answer_writer by (simp add: list_prior_def)
next
  case True
  show ?thesis
  proof (cases "get_year env (li_prior env) (year - 1) (sv_cache s)")
    case None
    with assms True show ?thesis by (simp add: list_prior_def)
  next
    case (Some r)
    obtain d e c where "r = ((d, e), c)" by (metis prod.exhaust)
    with assms True Some list_answer_writer show ?thesis
      by (cases e) (auto simp: list_prior_def internal_error_def split: if_splits)
  qed
qed

lemma handleList_writer:
  assumes "handleList cfg env rq w m s = (p, w', m', s')" "writer_ok w"
  shows "writer_ok w'"
proof (cases "list_request (li_quote env) (li_year env) (ResolverLoaded s) rq")
  case (Inl respond)
  with assms list_request_writer [OF Inl assms(2)] show ?thesis by (simp add: handleList_def)
next
  case (Inr x)
  obtain season year category where x: "x = (season, year, category)" by (metis prod.exhaust)
  note start = handleList_def Inr x Let_def
  show ?thesis
  proof (cases "get_year env (li_read env) year (sv_cache s)")
    case None
    with assms show ?thesis by (simp add: start)
  next
    case (Some r)
    obtain d e c where r: "r = ((d, e), c)" by (metis prod.exhaust)
    obtain fe c1 b1 where f: "FetchAndStore (li_decode env) (li_marshal env) (li_fetch env) year (c, sv_backoff s) = (fe, (c1, b1))"
      by (metis prod.exhaust)
    note start = start Some r f
    show ?thesis
    proof (cases "e = None \<and> unusable d \<and> fe = None")
      case False
      with assms list_prior_writer show ?thesis
        by (cases e; cases fe) (auto simp: start internal_error_def respondEmpty_def split: if_splits)
    next
      case True
      show ?thesis
      proof (cases "get_year env (li_reread env) year c1")
        case None
        with assms True show ?thesis by (simp add: start)
      next
        case (Some r2)
        obtain d2 e2 c2 where "r2 = ((d2, e2), c2)" by (metis prod.exhaust)
        with assms True Some list_prior_writer show ?thesis
          by (cases e2) (auto simp: start internal_error_def respondEmpty_def split: if_splits)
      qed
    qed
  qed
qed

lemma handleList_keeps:
  assumes "handleList cfg env rq w m s = (p, w', m', s')" "untouched w"
    and "list_harmless env" "server_ok (li_decode env) s"
  shows "server_ok (li_decode env) s'"
proof (cases "list_request (li_quote env) (li_year env) (ResolverLoaded s) rq")
  case (Inl respond)
  with assms show ?thesis by (simp add: handleList_def)
next
  case (Inr x)
  then obtain season year category where "list_request (li_quote env) (li_year env) (ResolverLoaded s) rq
      = Inr (season, year, category)" by (metis prod.exhaust)
  from handleList_result [OF assms(4,3,2) this, of cfg m] assms(1) show ?thesis by auto
qed

lemma handleHealth_result:
  "handleHealth db ping years rq w m s =
    (if rq_Method rq \<noteq> ''GET'' \<and> rq_Method rq \<noteq> ''HEAD'' then (False, methodNotAllowed ''GET, HEAD'' w, m, s)
     else (False, writeJSON (fst (health_response (HasYearsContext db ping years (sv_cache s)) (ResolverLoaded s)))
       (marshal_health (snd (health_response (HasYearsContext db ping years (sv_cache s)) (ResolverLoaded s)))) w, m, s))"
  by (simp add: handleHealth_def split: prod.splits)

lemma handleCacheStats_result:
  "\<exists>w'. handleCacheStats db cfg rq w m s = (False, w', m, s) \<and> (writer_ok w \<longrightarrow> writer_ok w')"
  by (auto simp: handleCacheStats_def debugHandler_def split: prod.splits option.splits)

lemma ClearContext_ok:
  assumes "cache_ok dec c"
  shows "\<exists>err c'. ClearContext db c = Some (err, c') \<and> cache_ok dec c'
    \<and> (if env_error db = None then err = None \<and> year_cache c' = [] \<and> pendingLastHits c' = [] else c' = c)"
proof -
  obtain d where d: "invalidate 0 True False (decoded c) = Some d" "dc_ok dec d"
    using invalidate_ok [OF cache_okD(1) [OF assms]] .
  then show ?thesis
    using assms by (cases "env_error db")
      (auto simp: ClearContext_def execResultWithRetry_eq cache_ok_def gm.ok_emp mwf_def)
qed

lemma handleCacheClear_keeps:
  assumes "handleCacheClear db cfg rq w m s = (p, w', m', s')" "writer_ok w"
  shows "writer_ok w' \<and> (server_ok decode s \<longrightarrow> server_ok decode s')"
proof -
  have "server_ok decode s'" if ok: "server_ok decode s"
  proof -
    obtain err c' where c: "ClearContext db (sv_cache s) = Some (err, c')" "cache_ok (decoder_of decode) c'"
      using ClearContext_ok [of "decoder_of decode" "sv_cache s" db] ok by (auto simp: server_ok_def)
    then have "server_ok decode (s\<lparr>sv_cache := c'\<rparr>)" using ok by (simp add: server_ok_def)
    then show ?thesis
      using assms(1) ok c(1) by (auto simp: handleCacheClear_def debugHandler_def split: if_splits option.splits)
  qed
  moreover have "writer_ok w'"
    using assms by (auto simp: handleCacheClear_def debugHandler_def split: if_splits option.splits prod.splits)
  ultimately show ?thesis by blast
qed

interpretation web: web_server "server_routes cfg env db ping" "\<lambda>s. list_harmless env \<longrightarrow> server_ok (li_decode env) s"
  for cfg env db ping
proof (unfold_locales, goal_cases)
  case (1 p h s w rq m panicked w' m' s')
  have w: "writer_ok w" using 1(3) by simp
  from 1(1) consider "h = handleList cfg env" | "h = handleHealth db ping (PrewarmYears cfg)"
    | "h = handleCacheStats db (Some cfg)" | "h = handleCacheClear db (Some cfg)"
    by (auto simp: server_routes_def)
  then show ?case
  proof cases
    case a: 1
    then show ?thesis using 1 handleList_writer [of cfg env rq w m s] handleList_keeps [of cfg env rq w m s] w by blast
  next
    case 2
    then show ?thesis using 1 w by (auto simp: handleHealth_result split: if_splits)
  next
    case 3
    then show ?thesis using 1 w handleCacheStats_result [of db "Some cfg" rq w m s] by auto
  next
    case 4
    then show ?thesis using 1 w handleCacheClear_keeps [of db "Some cfg" rq w m s panicked w' m' s' "li_decode env"] by blast
  qed
qed

section \<open>A sample\<close>

text \<open>An empty cache, an upstream without shows for the year, and a mapping with one entry.\<close>

definition sample_peek :: peek_env where
  "sample_peek = \<lparr>pk_db = \<lparr>fails = \<lambda>_. None, waits = \<lambda>_. None\<rparr>,
     pk_read = \<lparr>ctx_start = None, ctx_absent = None, ctx_waiting = None, ctx_gate = None, ctx_decoded = None,
       ctx_end = None, others_before = \<lambda>c. c, others_read = \<lambda>c. c, others_waiting = \<lambda>c. c, others_decoding = \<lambda>c. c\<rparr>,
     pk_caps = \<lparr>raw_cap = 2, shows_cap = 0, tag_edge_caps = []\<rparr>,
     pk_clock = \<lparr>ck_now = of_unix 100, ck_year = 2024\<rparr>\<rparr>"

definition sample_list :: list_env where
  "sample_list = \<lparr>li_quote = \<lambda>s. s, li_decode = DecodeYearData (\<lambda>_. Inr []), li_marshal = \<lambda>_. Inr ''[]'', li_year = 2024,
     li_read = sample_peek,
     li_fetch = \<lparr>fe_joined = None, fe_peek = sample_peek, fe_cool = of_unix 100, fe_others = \<lambda>s. s,
       fe_upstream = Some (Inr None), fe_set_db = \<lparr>fails = \<lambda>_. None, waits = \<lambda>_. None\<rparr>,
       fe_set_clock = \<lparr>ck_now = of_unix 101, ck_year = 2024\<rparr>, fe_end = of_unix 102\<rparr>,
     li_reread = sample_peek, li_prior = sample_peek,
     li_now = \<lparr>c_year = 2024, c_month = 1, c_day = 15, c_tod = 0\<rparr>, li_resolver = \<lambda>r. r\<rparr>"

definition sample_server :: server where
  "sample_server = \<lparr>sv_cache = openCacheDB [] [], sv_backoff = new_backoff, sv_background = NewBackground,
     sv_resolver = Some (NewAnibridgeMapping [(1, 9)] [])\<rparr>"

definition sample_config :: config where
  "sample_config = \<lparr>Port = 1, PrewarmYears = [2024], IncludeTypes = [''TV''], ExcludeTags = [], CacheDBPath = [], LogLevel = [],
     FilterFutureEnabled = False, DebugEndpointsEnabled = True, AdminToken = ''t'', AnibridgeMappingPath = [], AnibridgeURL = []\<rparr>"

definition sample_request :: "string \<Rightarrow> string \<Rightarrow> request" where
  "sample_request meth path = \<lparr>rq_Method = meth, rq_Path = path,
     rq_Query = \<lambda>k. if k = ''season'' then '' winter'' else [], rq_Authorization = []\<rparr>"

lemma sample_ok: "server_ok (li_decode sample_list) sample_server" "list_harmless sample_list"
  by (simp_all add: server_ok_def sample_server_def sample_list_def openCacheDB_ok mwf_def new_backoff_ok
      bg_reach_ok [OF bg_reach.bg_new] list_harmless_def peek_harmless_def others_harmless_def keeps_ok_def sample_peek_def)

lemma sample_reads: "read_lives sample_peek"
  by (simp add: read_lives_def sample_peek_def alive_def env_error_def env_error_from.simps)

lemma sample_checked:
  "list_request (li_quote sample_list) (li_year sample_list) (ResolverLoaded sample_server) (sample_request ''GET'' ''/list'')
    = Inr (''WINTER'', 2024, ''series'')"
proof -
  have "list_season (sample_request ''GET'' ''/list'') = ''WINTER''"
    unfolding list_season_def sample_request_def by code_simp
  moreover have "list_category (li_quote sample_list) (sample_request ''GET'' ''/list'') = Inr ''series''"
    by (simp add: list_category_def sample_request_def trim_space_def)
  ultimately show ?thesis
    by (simp add: list_request_def list_year_def validSeasons_def ResolverLoaded_def sample_server_def) (simp add: sample_request_def sample_list_def)
qed

text \<open>When each check of a list request passes, and the status when one fails.\<close>

lemma list_season_eq:
  "list_season rq = (if trim_space (rq_Query rq ''season'') = [] then ''ALL'' else to_upper (trim_space (rq_Query rq ''season'')))"
  by (simp add: list_season_def to_upper_def Let_def)

lemma list_year_Inr:
  "list_year this_year yearStr = Inr year \<longleftrightarrow>
    (if yearStr = [] then year = this_year else atoi yearStr = Some year \<and> 0 < year \<and> \<bar>year - this_year\<bar> \<le> 10)"
  by (auto simp: list_year_def split: option.splits)

lemma list_category_Inr:
  "list_category quote rq = Inr category \<longleftrightarrow>
    category = (if trim_space (rq_Query rq ''category'') = [] then ''series'' else trim_space (rq_Query rq ''category''))
    \<and> category \<in> {''series'', ''series-new''}"
  by (auto simp: list_category_def Let_def)

lemma list_request_Inr:
  "list_request quote this_year loaded rq = Inr (season, year, category) \<longleftrightarrow>
    (rq_Method rq = ''GET'' \<or> rq_Method rq = ''HEAD'') \<and> season = list_season rq
    \<and> season \<in> {''WINTER'', ''SPRING'', ''SUMMER'', ''FALL'', ''ALL''} \<and> loaded
    \<and> list_year this_year (rq_Query rq ''year'') = Inr year \<and> list_category quote rq = Inr category"
  by (auto simp: list_request_def validSeasons_def split: sum.splits)

lemma list_request_Inl:
  assumes "list_request quote this_year loaded rq = Inl respond" "untouched w"
  shows "sent_status (respond w) = Some (if rq_Method rq \<noteq> ''GET'' \<and> rq_Method rq \<noteq> ''HEAD'' then 405
    else if list_season rq \<notin> {''WINTER'', ''SPRING'', ''SUMMER'', ''FALL'', ''ALL''} then 400
    else if \<not> loaded then 503 else 400)"
  using assms by (auto simp: list_request_def validSeasons_def split: if_splits sum.splits)

section \<open>Properties\<close>

text \<open>
  Claim C10. Every request to the server is answered and logged: a panic never gets past the middleware, the
  status in the log line is the status that was sent (200 when the handler sent none), a status
  from 400 on and a failed write are logged as failed warnings, only good answers of \<open>/health\<close> are
  not logged, and cache, failures and background tasks stay well formed.
\<close>

theorem server_answers:
  assumes "server_ok (li_decode env) s" "list_harmless env"
  shows "\<exists>w log s'. serve (server_routes cfg env db ping) ms broken rq s = Some (w, log, s') \<and> server_ok (li_decode env) s'
    \<and> (log = None \<longrightarrow> rq_Path rq = ''/health'' \<and> rw_status w < 400 \<and> rw_writeErr w = None)
    \<and> (\<forall>level msg attrs. log = Some (level, msg, attrs) \<longrightarrow>
        map_of attrs ''status'' = Some (AInt (case sent_status w of None \<Rightarrow> 200 | Some code \<Rightarrow> code))
        \<and> (400 \<le> rw_status w \<or> rw_writeErr w \<noteq> None \<longrightarrow>
            level = LevelWarn \<and> map_of attrs ''outcome'' = Some (AStr ''failed'')))"
proof -
  from web.served [of env s cfg db ping ms broken rq] assms show ?thesis by simp blast
qed

lemma server_answers_witness:
  "\<exists>w log s'. serve (server_routes sample_config sample_list (pk_db sample_peek) None) 3 None (sample_request ''PUT'' ''/list'') sample_server
      = Some (w, log, s') \<and> log \<noteq> None"
proof -
  from server_answers [OF sample_ok, of sample_config "pk_db sample_peek" None 3 None "sample_request ''PUT'' ''/list''"]
  obtain w log s' where run: "serve (server_routes sample_config sample_list (pk_db sample_peek) None) 3 None (sample_request ''PUT'' ''/list'') sample_server
      = Some (w, log, s')" and log: "log = None \<longrightarrow> rq_Path (sample_request ''PUT'' ''/list'') = ''/health''"
    by blast
  have "rq_Path (sample_request ''PUT'' ''/list'') \<noteq> ''/health''" by (simp add: sample_request_def)
  with run log show ?thesis by blast
qed

text \<open>
  Claim C11. A list request that passes the checks never panics. It is answered with 500 only if a statement
  or the context of a read failed; with an empty list, logged as degraded, only if the year's row could not
  be decoded or was absent when it was read; and otherwise with 200 and the JSON of what \<open>Process\<close> makes of the
  shows that the row (or the row after a fetch) decodes to and, in winter, of those of the year before.
\<close>

theorem handleList_answers:
  assumes "server_ok (li_decode env) s" "list_harmless env" "untouched w"
    and "list_request (li_quote env) (li_year env) (ResolverLoaded s) rq = Inr (season, year, category)"
  shows "\<exists>w' m' s'. handleList cfg env rq w m s = (False, w', m', s') \<and> writer_ok w' \<and> server_ok (li_decode env) s'
    \<and> (\<not> (read_lives (li_read env) \<and> read_lives (li_reread env) \<and> read_lives (li_prior env)) \<and> sent_status w' = Some 500
       \<or> sent_status w' = Some 200 \<and> (rw_fails w' = None \<longrightarrow> rw_body w' = ''[]'') \<and> lm_outcome m' = ''degraded''
         \<and> row_shows (li_decode env) (seen_by (li_read env) (sv_cache s)) year = None
       \<or> (\<exists>shs c. served_shows env year s shs
            \<and> answered_with cfg env (sv_resolver s) shs (prior_shows env season year c) season category w'))"
  by (rule handleList_result [OF assms])

lemma handleList_answers_witness:
  "\<exists>w' m' s'. handleList sample_config sample_list (sample_request ''GET'' ''/list'') (new_writer None) no_metadata sample_server
      = (False, w', m', s') \<and> sent_status w' = Some 200"
proof -
  have "read_lives (li_read sample_list) \<and> read_lives (li_reread sample_list) \<and> read_lives (li_prior sample_list)"
    using sample_reads by (simp add: sample_list_def)
  with handleList_answers [OF sample_ok new_writer_ok(1) sample_checked, where cfg = sample_config and m = no_metadata]
  show ?thesis unfolding answered_with_def by blast
qed

text \<open>
  Claim C36. A list request passes the checks with a season, a year and a category exactly when it is a GET or HEAD, the
  season is the one asked for (any case, blanks around it, ALL without one) and a known one, the mapping is loaded, the year
  is this year when none is asked for and else the number asked for, positive and at most ten years from this year, and the
  category is the one asked for (blanks around it, series without one) and series or series-new. A request for which there are
  no such season, year and category is answered at once and changes nothing: with 405 for another method, else with 400 for
  an unknown season, else with 503 before a mapping is loaded, else with 400. Season and category are given in ASCII, where
  blanks and case are what the model says.
\<close>

theorem list_request_checks:
  assumes "untouched w" "\<forall>key \<in> {''season'', ''category''}. \<forall>c \<in> set (rq_Query rq key). (of_char c :: nat) < 128"
  shows "(\<forall>season year category.
      list_request (li_quote env) (li_year env) (ResolverLoaded s) rq = Inr (season, year, category) \<longleftrightarrow>
        (rq_Method rq = ''GET'' \<or> rq_Method rq = ''HEAD'')
        \<and> season = (if trim_space (rq_Query rq ''season'') = [] then ''ALL'' else to_upper (trim_space (rq_Query rq ''season'')))
        \<and> season \<in> {''WINTER'', ''SPRING'', ''SUMMER'', ''FALL'', ''ALL''}
        \<and> sv_resolver s \<noteq> None
        \<and> (if rq_Query rq ''year'' = [] then year = li_year env
           else atoi (rq_Query rq ''year'') = Some year \<and> 0 < year \<and> \<bar>year - li_year env\<bar> \<le> 10)
        \<and> category = (if trim_space (rq_Query rq ''category'') = [] then ''series'' else trim_space (rq_Query rq ''category''))
        \<and> category \<in> {''series'', ''series-new''})
    \<and> (\<forall>respond. list_request (li_quote env) (li_year env) (ResolverLoaded s) rq = Inl respond \<longrightarrow>
        handleList cfg env rq w m s = (False, respond w, m, s)
        \<and> sent_status (respond w) = Some (if rq_Method rq \<noteq> ''GET'' \<and> rq_Method rq \<noteq> ''HEAD'' then 405
            else if trim_space (rq_Query rq ''season'') \<noteq> []
              \<and> to_upper (trim_space (rq_Query rq ''season'')) \<notin> {''WINTER'', ''SPRING'', ''SUMMER'', ''FALL'', ''ALL''} then 400
            else if sv_resolver s = None then 503 else 400))"
proof (intro conjI allI impI)
  fix season year category
  show "list_request (li_quote env) (li_year env) (ResolverLoaded s) rq = Inr (season, year, category) \<longleftrightarrow>
        (rq_Method rq = ''GET'' \<or> rq_Method rq = ''HEAD'')
        \<and> season = (if trim_space (rq_Query rq ''season'') = [] then ''ALL'' else to_upper (trim_space (rq_Query rq ''season'')))
        \<and> season \<in> {''WINTER'', ''SPRING'', ''SUMMER'', ''FALL'', ''ALL''}
        \<and> sv_resolver s \<noteq> None
        \<and> (if rq_Query rq ''year'' = [] then year = li_year env
           else atoi (rq_Query rq ''year'') = Some year \<and> 0 < year \<and> \<bar>year - li_year env\<bar> \<le> 10)
        \<and> category = (if trim_space (rq_Query rq ''category'') = [] then ''series'' else trim_space (rq_Query rq ''category''))
        \<and> category \<in> {''series'', ''series-new''}"
    unfolding list_request_Inr list_year_Inr list_category_Inr list_season_eq ResolverLoaded_def by blast
next
  fix respond
  assume Inl: "list_request (li_quote env) (li_year env) (ResolverLoaded s) rq = Inl respond"
  then show "handleList cfg env rq w m s = (False, respond w, m, s)" by (simp add: handleList_def)
  from list_request_Inl [OF Inl assms(1)]
  show "sent_status (respond w) = Some (if rq_Method rq \<noteq> ''GET'' \<and> rq_Method rq \<noteq> ''HEAD'' then 405
            else if trim_space (rq_Query rq ''season'') \<noteq> []
              \<and> to_upper (trim_space (rq_Query rq ''season'')) \<notin> {''WINTER'', ''SPRING'', ''SUMMER'', ''FALL'', ''ALL''} then 400
            else if sv_resolver s = None then 503 else 400)"
    by (simp add: list_season_eq ResolverLoaded_def)
qed

text \<open>The last year allowed and the other category: accepted. Another method: refused, nothing changes.\<close>

lemma list_request_checks_witness:
  "list_request (li_quote sample_list) (li_year sample_list) (ResolverLoaded sample_server)
      \<lparr>rq_Method = ''HEAD'', rq_Path = ''/list'', rq_Query = (\<lambda>_. [])(''year'' := ''2034'', ''category'' := '' series-new''),
       rq_Authorization = []\<rparr>
    = Inr (''ALL'', 2034, ''series-new'')
   \<and> handleList sample_config sample_list (sample_request ''PUT'' ''/list'') (new_writer None) no_metadata sample_server
    = (False, methodNotAllowed ''GET, HEAD'' (new_writer None), no_metadata, sample_server)
   \<and> sent_status (methodNotAllowed ''GET, HEAD'' (new_writer None)) = Some 405"
proof (intro conjI)
  note checks = list_request_checks [OF new_writer_ok(1) [of None], where env = sample_list and s = sample_server
      and cfg = sample_config and m = no_metadata]
  let ?rq = "\<lparr>rq_Method = ''HEAD'', rq_Path = ''/list'', rq_Query = (\<lambda>_. [])(''year'' := ''2034'', ''category'' := '' series-new''),
       rq_Authorization = []\<rparr>"
  have ascii: "\<forall>key \<in> {''season'', ''category''}. \<forall>c \<in> set (rq_Query ?rq key). (of_char c :: nat) < 128"
    "\<forall>key \<in> {''season'', ''category''}. \<forall>c \<in> set (rq_Query (sample_request ''PUT'' ''/list'') key). (of_char c :: nat) < 128"
    by (simp, simp add: sample_request_def)
  have "atoi ''2034'' = Some 2034" by code_simp
  moreover have "trim_space '' series-new'' = ''series-new''" by code_simp
  ultimately show "list_request (li_quote sample_list) (li_year sample_list) (ResolverLoaded sample_server) ?rq
      = Inr (''ALL'', 2034, ''series-new'')"
    using checks [OF ascii(1), THEN conjunct1, THEN spec, THEN spec, THEN spec, of "''ALL''" 2034 "''series-new''", THEN iffD2]
    by (simp add: sample_server_def sample_list_def trim_space_def)
  have "list_request (li_quote sample_list) (li_year sample_list) (ResolverLoaded sample_server) (sample_request ''PUT'' ''/list'')
      = Inl (methodNotAllowed ''GET, HEAD'')"
    by (simp add: list_request_def) (simp add: sample_request_def)
  from checks [OF ascii(2), THEN conjunct2, THEN spec, THEN mp, OF this]
  show "handleList sample_config sample_list (sample_request ''PUT'' ''/list'') (new_writer None) no_metadata sample_server
      = (False, methodNotAllowed ''GET, HEAD'' (new_writer None), no_metadata, sample_server)"
    "sent_status (methodNotAllowed ''GET, HEAD'' (new_writer None)) = Some 405"
    by (simp_all add: sample_request_def)
qed

text \<open>
  Claim C37. The cache is cleared by a POST with debug endpoints enabled and, when a token is configured, the
  header \<open>Bearer\<close> with exactly that token, and by nothing else: another method gets 405, a request
  without authorization 404, and both leave everything as it is. A clear that succeeds removes every year
  and every pending access; one that fails changes nothing.
\<close>

theorem cache_clear_guarded:
  assumes "server_ok decode s" "untouched w"
  shows "\<exists>w' s'. handleCacheClear db (Some cfg) rq w m s = (False, w', m, s') \<and> server_ok decode s'
    \<and> (if rq_Method rq \<noteq> ''POST'' then sent_status w' = Some 405 \<and> s' = s
       else if DebugEndpointsEnabled cfg \<and> (AdminToken cfg = [] \<or> rq_Authorization rq = ''Bearer '' @ AdminToken cfg)
       then (if env_error db = None
             then sent_status w' = Some 200 \<and> year_cache (sv_cache s') = [] \<and> pendingLastHits (sv_cache s') = []
               \<and> sv_background s' = sv_background s \<and> sv_resolver s' = sv_resolver s
             else sent_status w' = Some 500 \<and> s' = s)
       else sent_status w' = Some 404 \<and> s' = s)"
proof -
  obtain err c' where c: "ClearContext db (sv_cache s) = Some (err, c')" "cache_ok (decoder_of decode) c'"
    and e: "if env_error db = None then err = None \<and> year_cache c' = [] \<and> pendingLastHits c' = [] else c' = sv_cache s"
    using ClearContext_ok [of "decoder_of decode" "sv_cache s" db] assms(1) by (auto simp: server_ok_def)
  have failed: "env_error db \<noteq> None \<Longrightarrow> err \<noteq> None"
    using c(1) by (cases "env_error db") (simp_all add: ClearContext_def execResultWithRetry_eq, metis option.distinct(1))
  have "server_ok decode (s\<lparr>sv_cache := c'\<rparr>)" using assms(1) c(2) by (simp add: server_ok_def)
  then show ?thesis
    using assms c(1) e failed
    by (cases err) (auto simp: handleCacheClear_def debugHandler_def authorizedDebugRequest_def split: if_splits)
qed

lemma cache_clear_guarded_witness:
  "\<exists>w'. handleCacheClear (pk_db sample_peek) (Some sample_config) (sample_request ''POST'' ''/cache/clear'') (new_writer None) no_metadata
      sample_server = (False, w', no_metadata, sample_server) \<and> sent_status w' = Some 404"
  using cache_clear_guarded [OF sample_ok(1) new_writer_ok(1), of "pk_db sample_peek" sample_config
      "sample_request ''POST'' ''/cache/clear''" None no_metadata]
  by (auto simp: sample_request_def sample_config_def)

lemma year_set:
  "mwf m \<Longrightarrow> mwf (fold (\<lambda>y. mput y ()) years m)
    \<and> set (mkeys (fold (\<lambda>y. mput y ()) years m)) = set years \<union> set (mkeys m)"
proof (induction years arbitrary: m)
  case (Cons y years)
  have "set (mkeys (mput y () m)) = insert y (set (mkeys m))" by (auto simp: gm.keys_get)
  with Cons.IH [of "mput y () m"] Cons.prems show ?case by (auto simp: gm.ok_put)
qed simp

text \<open>\<open>HasYearsContext\<close> says whether every configured year has a row.\<close>

lemma HasYears_result:
  assumes "mwf (year_cache c)"
  shows "HasYearsContext db ping years c =
    (if years = [] then (case ping of Some e \<Rightarrow> Inl e | None \<Rightarrow> Inr True)
     else (case env_error db of Some e \<Rightarrow> Inl e | None \<Rightarrow> Inr (\<forall>y \<in> set years. mget (year_cache c) y \<noteq> None)))"
proof -
  let ?u = "mkeys (fold (\<lambda>y. mput y ()) years [])"
  have u: "distinct ?u" "set ?u = set years"
    using year_set [of "[]" years] gm.ok_emp gm.keys_distinct by (auto simp: mkeys_def mwf_def)
  let ?hits = "filter (\<lambda>y. List.member ?u y) (mkeys (year_cache c))"
  have hits: "distinct ?hits" "set ?hits = set years \<inter> {y. mget (year_cache c) y \<noteq> None}"
    using gm.keys_distinct [OF assms] u(2) by (auto simp: gm.keys_get)
  have "length ?hits = length ?u \<longleftrightarrow> card (set years \<inter> {y. mget (year_cache c) y \<noteq> None}) = card (set years)"
    using distinct_card [OF hits(1)] distinct_card [OF u(1)] unfolding hits(2) u(2) by simp
  also have "\<dots> \<longleftrightarrow> set years \<inter> {y. mget (year_cache c) y \<noteq> None} = set years"
    by (metis Int_lower1 List.finite_set card_subset_eq)
  finally have "length ?hits = length ?u \<longleftrightarrow> (\<forall>y \<in> set years. mget (year_cache c) y \<noteq> None)" by blast
  then have count: "length (filter (List.member ?u) (mkeys (year_cache c))) = length ?u
      \<longleftrightarrow> (\<forall>y \<in> set years. mget (year_cache c) y \<noteq> None)"
    .
  show ?thesis
    unfolding HasYearsContext_def queryRowWithRetry_eq Let_def
    by (cases "env_error db") (simp_all only: option.case sum.case count)
qed

lemma health_result:
  fixes db ping years
  assumes "mwf (year_cache (sv_cache s))" "untouched w" "rw_fails w = None" "rq_Method rq = ''GET'' \<or> rq_Method rq = ''HEAD''"
  defines "readable \<equiv> if years = [] then ping = None else env_error db = None"
  shows "\<exists>w' h. handleHealth db ping years rq w m s = (False, w', m, s) \<and> rw_body w' = marshal_health h
    \<and> sent_status w' = Some (if readable \<and> sv_resolver s \<noteq> None then 200 else 503)
    \<and> hr_Status h = (if \<not> readable then StatusUnhealthy else if sv_resolver s = None then StatusDegraded else StatusOK)
    \<and> hr_Reason h = (if readable \<and> sv_resolver s = None then ''resolver not loaded'' else [])
    \<and> hr_Cache h = (if \<not> readable then StatusUnhealthy
        else if \<forall>y \<in> set years. mget (year_cache (sv_cache s)) y \<noteq> None then StatusOK else StatusWarming)
    \<and> hr_Resolver h = (if sv_resolver s = None then StatusDegraded else StatusOK)"
proof -
  let ?has = "HasYearsContext db ping years (sv_cache s)"
  have has: "if readable then ?has = Inr (\<forall>y \<in> set years. mget (year_cache (sv_cache s)) y \<noteq> None) else isl ?has"
    using HasYears_result [OF assms(1), of db ping years] by (auto simp: readable_def split: option.splits)
  let ?h = "health_response ?has (ResolverLoaded s)"
  have "handleHealth db ping years rq w m s = (False, writeJSON (fst ?h) (marshal_health (snd ?h)) w, m, s)"
    using assms(4) by (auto simp: handleHealth_result)
  moreover have "rw_body (writeJSON (fst ?h) (marshal_health (snd ?h)) w) = marshal_health (snd ?h)
      \<and> sent_status (writeJSON (fst ?h) (marshal_health (snd ?h)) w) = Some (fst ?h)"
    using assms(2,3) by simp
  moreover have "(readable \<longrightarrow> ?h = health_response (Inr (\<forall>y \<in> set years. mget (year_cache (sv_cache s)) y \<noteq> None)) (ResolverLoaded s))
      \<and> (\<not> readable \<longrightarrow> (\<exists>e. ?h = health_response (Inl e) (ResolverLoaded s)))"
    using has by (auto simp: isl_def intro: exI [of _ "projl ?has"])
  ultimately show ?thesis
    by (cases readable; cases "sv_resolver s") (auto simp: health_response_def ResolverLoaded_def Let_def)
qed

text \<open>
  Claim C38. The health endpoint answers 200 exactly when the cache can be read and a mapping is loaded, and
  503 otherwise (405 for other methods), with a body that says which of the two fails: the cache is ok
  when every configured year is stored, warming while one is missing, unhealthy when it cannot be read.
  It changes nothing.
\<close>

theorem health_reports:
  fixes db ping years
  assumes "mwf (year_cache (sv_cache s))" "untouched w" "rw_fails w = None" "rq_Method rq = ''GET'' \<or> rq_Method rq = ''HEAD''"
  defines "readable \<equiv> if years = [] then ping = None else env_error db = None"
  shows "\<exists>w' h. handleHealth db ping years rq w m s = (False, w', m, s) \<and> rw_body w' = marshal_health h
    \<and> sent_status w' = Some (if readable \<and> sv_resolver s \<noteq> None then 200 else 503)
    \<and> hr_Status h = (if \<not> readable then StatusUnhealthy else if sv_resolver s = None then StatusDegraded else StatusOK)
    \<and> hr_Reason h = (if readable \<and> sv_resolver s = None then ''resolver not loaded'' else [])
    \<and> hr_Cache h = (if \<not> readable then StatusUnhealthy
        else if \<forall>y \<in> set years. mget (year_cache (sv_cache s)) y \<noteq> None then StatusOK else StatusWarming)
    \<and> hr_Resolver h = (if sv_resolver s = None then StatusDegraded else StatusOK)"
  using health_result [OF assms(1-4), where years = years and ping = ping and db = db and m = m] unfolding readable_def .

lemma health_reports_witness:
  "\<exists>w'. handleHealth (pk_db sample_peek) None [2024] (sample_request ''GET'' ''/health'') (new_writer None) no_metadata sample_server
      = (False, w', no_metadata, sample_server) \<and> sent_status w' = Some 200
    \<and> rw_body w' = marshal_health \<lparr>hr_Status = StatusOK, hr_Reason = [], hr_Cache = StatusWarming, hr_Resolver = StatusOK\<rparr>"
proof -
  have "mwf (year_cache (sv_cache sample_server))" "rw_fails (new_writer None) = None" "env_error (pk_db sample_peek) = None"
    "rq_Method (sample_request ''GET'' ''/health'') = ''GET'' \<or> rq_Method (sample_request ''GET'' ''/health'') = ''HEAD''"
    and s: "sv_resolver sample_server \<noteq> None" "mget (year_cache (sv_cache sample_server)) 2024 = None"
    by (simp_all add: sample_server_def openCacheDB_def mwf_def new_writer_def sample_peek_def env_error_def
        env_error_from.simps sample_request_def)
  from health_reports [OF this(1) new_writer_ok(1) this(2) this(4), where years = "[2024]" and ping = None and db = "pk_db sample_peek" and m = no_metadata] this(3) s
  obtain w' h where run: "handleHealth (pk_db sample_peek) None [2024] (sample_request ''GET'' ''/health'') (new_writer None) no_metadata sample_server
      = (False, w', no_metadata, sample_server)" "rw_body w' = marshal_health h" "sent_status w' = Some 200"
    and h: "hr_Status h = StatusOK" "hr_Reason h = []" "hr_Cache h = StatusWarming" "hr_Resolver h = StatusOK"
    by auto
  have "h = \<lparr>hr_Status = StatusOK, hr_Reason = [], hr_Cache = StatusWarming, hr_Resolver = StatusOK\<rparr>"
    using h by (cases h) simp
  with run show ?thesis by blast
qed

end
