(* ===== verification/Decode_Gate.thy ===== *)
theory Decode_Gate
  imports Go_Calendar
begin

text \<open>
  The gates that let one goroutine at a time decode a year (\<open>acquire\<close> of \<open>internal/cache/decoded_year.go\<close>).
  A gate is an object that several goroutines share, so gates live in a list and the map and the
  goroutines hold their indices. Each critical section of \<open>d.mu\<close> and each operation on the token channel is one
  step; the callers release exactly once, as \<open>defer release()\<close> does.
\<close>

section \<open>State\<close>

text \<open>The token channel has capacity 1; \<open>gate_token\<close> counts what is in it.\<close>

record decodeGate =
  gate_token :: nat
  gate_refs :: int

text \<open>What a goroutine in \<open>acquire\<close> does next: wait for the token, put it back, or take its reference away.\<close>

datatype gate_phase = Awaiting | Decoding | Leaving

type_synonym gate_user = "gate_phase \<times> int \<times> nat"

record gates =
  gt_map :: "(int, nat) gomap"
  gt_heap :: "decodeGate list"
  gt_users :: "gate_user list"

definition new_gates :: gates where
  "new_gates = \<lparr>gt_map = [], gt_heap = [], gt_users = []\<rparr>"

section \<open>Operations\<close>

text \<open>The critical section of \<open>acquire\<close>: the gate of the year, made with its token if there is none.\<close>

definition acquire_enter :: "int \<Rightarrow> gates \<Rightarrow> gates" where
  "acquire_enter year s =
     (let (a, s1) =
        (case mget (gt_map s) year of
           Some a \<Rightarrow> (a, s)
         | None \<Rightarrow> (length (gt_heap s),
             s\<lparr>gt_heap := gt_heap s @ [\<lparr>gate_token = 1, gate_refs = 0\<rparr>],
               gt_map := mput year (length (gt_heap s)) (gt_map s)\<rparr>));
        gate = gt_heap s1 ! a
      in s1\<lparr>gt_heap := (gt_heap s1)[a := gate\<lparr>gate_refs := gate_refs gate + 1\<rparr>],
            gt_users := (Awaiting, year, a) # gt_users s1\<rparr>)"

definition move_user :: "gate_user \<Rightarrow> gate_user list \<Rightarrow> gates \<Rightarrow> gates" where
  "move_user u us s = s\<lparr>gt_users := us @ remove1 u (gt_users s)\<rparr>"

text \<open>The two cases of the \<open>select\<close>; receiving is possible while the channel holds a token.\<close>

definition take_token :: "int \<Rightarrow> nat \<Rightarrow> gates \<Rightarrow> gates option" where
  "take_token year a s =
     (let gate = gt_heap s ! a in
      if gate_token gate = 0 then None
      else Some (move_user (Awaiting, year, a) [(Decoding, year, a)]
             (s\<lparr>gt_heap := (gt_heap s)[a := gate\<lparr>gate_token := gate_token gate - 1\<rparr>]\<rparr>)))"

definition give_up :: "int \<Rightarrow> nat \<Rightarrow> gates \<Rightarrow> gates" where
  "give_up year a s = move_user (Awaiting, year, a) [(Leaving, year, a)] s"

text \<open>The function \<open>acquire\<close> returns: sending blocks (\<^const>\<open>None\<close>) on a full channel.\<close>

definition release :: "int \<Rightarrow> nat \<Rightarrow> gates \<Rightarrow> gates option" where
  "release year a s =
     (let gate = gt_heap s ! a in
      if 1 \<le> gate_token gate then None
      else Some (move_user (Decoding, year, a) [(Leaving, year, a)]
             (s\<lparr>gt_heap := (gt_heap s)[a := gate\<lparr>gate_token := gate_token gate + 1\<rparr>]\<rparr>)))"

definition unref :: "int \<Rightarrow> nat \<Rightarrow> gates \<Rightarrow> gates" where
  "unref year a s =
     (let gate = gt_heap s ! a; refs = gate_refs gate - 1;
          s1 = move_user (Leaving, year, a) [] (s\<lparr>gt_heap := (gt_heap s)[a := gate\<lparr>gate_refs := refs\<rparr>]\<rparr>)
      in if refs = 0 then s1\<lparr>gt_map := mdel year (gt_map s1)\<rparr> else s1)"

inductive gate_step :: "gates \<Rightarrow> gates \<Rightarrow> bool" where
  enter: "gate_step s (acquire_enter year s)"
| take_it: "(Awaiting, year, a) \<in> set (gt_users s) \<Longrightarrow> take_token year a s = Some s' \<Longrightarrow> gate_step s s'"
| cancelled: "(Awaiting, year, a) \<in> set (gt_users s) \<Longrightarrow> gate_step s (give_up year a s)"
| put_back: "(Decoding, year, a) \<in> set (gt_users s) \<Longrightarrow> release year a s = Some s' \<Longrightarrow> gate_step s s'"
| leave: "(Leaving, year, a) \<in> set (gt_users s) \<Longrightarrow> gate_step s (unref year a s)"

inductive gate_reach :: "gates \<Rightarrow> bool" where
  gate_new: "gate_reach new_gates"
| gate_more: "gate_reach s \<Longrightarrow> gate_step s s' \<Longrightarrow> gate_reach s'"

section \<open>The invariant\<close>

definition users_of :: "nat \<Rightarrow> gates \<Rightarrow> nat" where
  "users_of a s = length (filter (\<lambda>(p, y, b). b = a) (gt_users s))"

definition decoders_of :: "nat \<Rightarrow> gates \<Rightarrow> nat" where
  "decoders_of a s = length (filter (\<lambda>(p, y, b). p = Decoding \<and> b = a) (gt_users s))"

text \<open>
  A gate counts the goroutines that refer to it, its token is in the channel or with one of them; the map
  holds for each year the gate its goroutines refer to, and no gate without one.
\<close>

definition gates_ok :: "gates \<Rightarrow> bool" where
  "gates_ok s \<longleftrightarrow> mwf (gt_map s)
     \<and> (\<forall>a < length (gt_heap s). gate_refs (gt_heap s ! a) = int (users_of a s)
          \<and> gate_token (gt_heap s ! a) + decoders_of a s = 1)
     \<and> (\<forall>u \<in> set (gt_users s). mget (gt_map s) (fst (snd u)) = Some (snd (snd u)))
     \<and> (\<forall>y a. mget (gt_map s) y = Some a \<longrightarrow> a < length (gt_heap s) \<and> 0 < users_of a s)
     \<and> (\<forall>y y' a. mget (gt_map s) y = Some a \<longrightarrow> mget (gt_map s) y' = Some a \<longrightarrow> y = y')"

lemma gates_okI:
  assumes "mwf (gt_map s)"
    and "\<And>a. a < length (gt_heap s) \<Longrightarrow> gate_refs (gt_heap s ! a) = int (users_of a s) \<and> gate_token (gt_heap s ! a) + decoders_of a s = 1"
    and "\<And>u. u \<in> set (gt_users s) \<Longrightarrow> mget (gt_map s) (fst (snd u)) = Some (snd (snd u))"
    and "\<And>y a. mget (gt_map s) y = Some a \<Longrightarrow> a < length (gt_heap s) \<and> 0 < users_of a s"
    and "\<And>y y' a. mget (gt_map s) y = Some a \<Longrightarrow> mget (gt_map s) y' = Some a \<Longrightarrow> y = y'"
  shows "gates_ok s"
  using assms unfolding gates_ok_def by blast

lemma gates_ok_map:
  assumes "gates_ok s" "mget (gt_map s) y = Some a"
  shows "a < length (gt_heap s)" "0 < users_of a s" "mget (gt_map s) y' = Some a \<Longrightarrow> y' = y"
  using assms unfolding gates_ok_def by blast+

lemma filter_remove1_length:
  "x \<in> set xs \<Longrightarrow> length (filter P (remove1 x xs)) + (if P x then 1 else 0) = length (filter P xs)"
  by (induction xs) auto

text \<open>One goroutine moves on: how the counts change.\<close>

lemma counts_move:
  assumes "(p, y, b) \<in> set (gt_users s)"
  shows "users_of a (move_user (p, y, b) us s) + (if b = a then 1 else 0)
      = users_of a s + length (filter (\<lambda>(p, y, b). b = a) us)"
    and "decoders_of a (move_user (p, y, b) us s) + (if p = Decoding \<and> b = a then 1 else 0)
      = decoders_of a s + length (filter (\<lambda>(p, y, b). p = Decoding \<and> b = a) us)"
  using filter_remove1_length [OF assms, of "\<lambda>(p, y, b). b = a"]
    filter_remove1_length [OF assms, of "\<lambda>(p, y, b). p = Decoding \<and> b = a"]
  by (simp_all add: users_of_def decoders_of_def move_user_def)

lemma counts_frame [simp]:
  "users_of a (s\<lparr>gt_heap := h\<rparr>) = users_of a s" "decoders_of a (s\<lparr>gt_heap := h\<rparr>) = decoders_of a s"
  "users_of a (s\<lparr>gt_map := m\<rparr>) = users_of a s" "decoders_of a (s\<lparr>gt_map := m\<rparr>) = decoders_of a s"
  "gt_users (s\<lparr>gt_heap := h\<rparr>) = gt_users s" "gt_map (move_user u us s) = gt_map s" "gt_heap (move_user u us s) = gt_heap s"
  by (simp_all add: users_of_def decoders_of_def move_user_def)

lemma moved_users: "u \<in> set (gt_users (move_user v us s)) \<Longrightarrow> u \<in> set us \<or> u \<in> set (gt_users s)"
  using set_remove1_subset [of v "gt_users s"] by (auto simp: move_user_def)

lemma users_pos: "(p, y, a) \<in> set (gt_users s) \<Longrightarrow> 0 < users_of a s"
  unfolding users_of_def by (force simp: filter_empty_conv)

lemma users_zero: "users_of a s = 0 \<Longrightarrow> u \<in> set (gt_users s) \<Longrightarrow> snd (snd u) \<noteq> a"
  using users_pos [of "fst u" "fst (snd u)" a s] by auto

lemma gates_okD:
  assumes "gates_ok s" "(p, y, a) \<in> set (gt_users s)"
  shows "mget (gt_map s) y = Some a" "a < length (gt_heap s)" "0 < users_of a s"
    "gate_refs (gt_heap s ! a) = int (users_of a s)" "gate_token (gt_heap s ! a) + decoders_of a s = 1"
  using assms unfolding gates_ok_def by (auto dest!: bspec)

text \<open>A goroutine that changes phase and moves tokens keeps the invariant.\<close>

lemma phase_ok:
  assumes "gates_ok s" "(p, y, a) \<in> set (gt_users s)"
    and "gate' = (gt_heap s ! a)\<lparr>gate_token := k\<rparr>"
    and "k + (if q = Decoding then 1 else 0) = gate_token (gt_heap s ! a) + (if p = Decoding then 1 else 0)"
  shows "gates_ok (move_user (p, y, a) [(q, y, a)] (s\<lparr>gt_heap := (gt_heap s)[a := gate']\<rparr>))"
proof -
  let ?s = "s\<lparr>gt_heap := (gt_heap s)[a := gate']\<rparr>"
  let ?t = "move_user (p, y, a) [(q, y, a)] ?s"
  have mem: "(p, y, a) \<in> set (gt_users ?s)" using assms(2) by simp
  have users: "users_of b ?t = users_of b s" for b using counts_move(1) [OF mem, of b "[(q, y, a)]"] by (auto split: if_splits)
  have dec: "decoders_of b ?t + (if p = Decoding \<and> a = b then 1 else 0) = decoders_of b s + (if q = Decoding \<and> a = b then 1 else 0)" for b
    using counts_move(2) [OF mem, of b "[(q, y, a)]"] by (auto split: if_splits)
  have "gate_refs (gt_heap ?t ! b) = int (users_of b ?t) \<and> gate_token (gt_heap ?t ! b) + decoders_of b ?t = 1"
    if b: "b < length (gt_heap ?t)" for b
  proof (cases "b = a")
    case True
    then show ?thesis using gates_okD(2,4,5) [OF assms(1,2)] dec [of a] assms(3,4) users [of a] by (auto split: if_splits)
  next
    case False
    then show ?thesis using assms(1) dec [of b] users [of b] b by (auto simp: gates_ok_def)
  qed
  moreover have "\<forall>u \<in> set (gt_users ?t). mget (gt_map ?t) (fst (snd u)) = Some (snd (snd u))"
    using assms(1) gates_okD(1) [OF assms(1,2)] by (auto simp: gates_ok_def dest!: moved_users)
  ultimately show ?thesis using assms(1) users unfolding gates_ok_def by (auto simp: users)
qed

lemma fresh_gate_ok:
  assumes "gates_ok s" "mget (gt_map s) year = None"
  shows "gates_ok (s\<lparr>gt_map := mput year (length (gt_heap s)) (gt_map s),
      gt_heap := gt_heap s @ [\<lparr>gate_token = 1, gate_refs = 1\<rparr>],
      gt_users := (Awaiting, year, length (gt_heap s)) # gt_users s\<rparr>)" (is "gates_ok ?t")
proof -
  have below: "snd (snd u) < length (gt_heap s) \<and> fst (snd u) \<noteq> year" if "u \<in> set (gt_users s)" for u
    using that assms by (fastforce simp: gates_ok_def)
  then have fresh: "users_of (length (gt_heap s)) s = 0" "decoders_of (length (gt_heap s)) s = 0"
    by (fastforce simp: users_of_def decoders_of_def filter_empty_conv)+
  have users: "users_of b ?t = users_of b s + (if b = length (gt_heap s) then 1 else 0)" for b by (simp add: users_of_def)
  have dec: "decoders_of b ?t = decoders_of b s" for b by (simp add: decoders_of_def)
  have "gate_refs (gt_heap ?t ! b) = int (users_of b ?t) \<and> gate_token (gt_heap ?t ! b) + decoders_of b ?t = 1"
    if "b < length (gt_heap ?t)" for b
    using that assms(1) fresh users [of b] dec [of b]
    by (cases "b = length (gt_heap s)") (auto simp: gates_ok_def nth_append)
  moreover have "mget (gt_map ?t) (fst (snd u)) = Some (snd (snd u))" if "u \<in> set (gt_users ?t)" for u
    using that assms(1) below [of u] by (auto simp: gates_ok_def gm.get_put)
  moreover have "b < length (gt_heap ?t) \<and> 0 < users_of b ?t"
    if "mget (gt_map ?t) y = Some b" for y b
    using that assms(1) users [of b] by (fastforce simp: gates_ok_def gm.get_put split: if_splits)
  moreover have new: "y = year \<longleftrightarrow> b = length (gt_heap s)"
    if "mget (gt_map ?t) y = Some b" for y b
    using that assms(1) users [of b] by (fastforce simp: gates_ok_def gm.get_put split: if_splits)
  moreover have "y = y'" if eqs: "mget (gt_map ?t) y = Some b" "mget (gt_map ?t) y' = Some b" for y y' b
  proof (cases "y = year")
    case True
    then show ?thesis using new [OF eqs(1)] new [OF eqs(2)] by blast
  next
    case False
    then have "y' \<noteq> year" using new [OF eqs(1)] new [OF eqs(2)] by blast
    then show ?thesis using False eqs gates_ok_map(3) [OF assms(1)] by (simp add: gm.get_put)
  qed
  moreover have "mwf (gt_map ?t)" using assms(1) by (simp add: gates_ok_def gm.ok_put)
  ultimately show ?thesis by (intro gates_okI)
qed

lemma known_gate_ok:
  assumes "gates_ok s" "mget (gt_map s) year = Some a"
  shows "gates_ok (s\<lparr>gt_heap := (gt_heap s)[a := (gt_heap s ! a)\<lparr>gate_refs := gate_refs (gt_heap s ! a) + 1\<rparr>],
      gt_users := (Awaiting, year, a) # gt_users s\<rparr>)" (is "gates_ok ?t")
proof -
  have users: "users_of b ?t = users_of b s + (if b = a then 1 else 0)" for b by (simp add: users_of_def)
  have dec: "decoders_of b ?t = decoders_of b s" for b by (simp add: decoders_of_def)
  have "gate_refs (gt_heap ?t ! b) = int (users_of b ?t) \<and> gate_token (gt_heap ?t ! b) + decoders_of b ?t = 1"
    if "b < length (gt_heap ?t)" for b
    using that assms users [of b] dec [of b] by (cases "b = a") (auto simp: gates_ok_def)
  moreover have "b < length (gt_heap ?t) \<and> 0 < users_of b ?t" if "mget (gt_map ?t) y = Some b" for y b
    using that assms(1) users [of b] by (auto simp: gates_ok_def)
  ultimately show ?thesis using assms unfolding gates_ok_def by simp
qed

lemma acquire_enter_ok: "gates_ok s \<Longrightarrow> gates_ok (acquire_enter year s)"
  using fresh_gate_ok [of s year] known_gate_ok [of s year]
  by (auto simp: acquire_enter_def nth_append Let_def split: option.splits)

lemma unref_ok:
  assumes "gates_ok s" "(Leaving, year, a) \<in> set (gt_users s)"
  shows "gates_ok (unref year a s)"
proof -
  let ?gate = "(gt_heap s ! a)\<lparr>gate_refs := gate_refs (gt_heap s ! a) - 1\<rparr>"
  let ?s = "s\<lparr>gt_heap := (gt_heap s)[a := ?gate]\<rparr>"
  obtain t where t: "t = move_user (Leaving, year, a) [] ?s" by blast
  have mem: "(Leaving, year, a) \<in> set (gt_users ?s)" using assms(2) by simp
  note D = gates_okD [OF assms]
  have users: "users_of b t + (if a = b then 1 else 0) = users_of b s" for b
    using counts_move(1) [OF mem, of b "[]"] unfolding t by (auto split: if_splits)
  have dec: "decoders_of b t = decoders_of b s" for b using counts_move(2) [OF mem, of b "[]"] unfolding t by simp
  have frame: "gt_map t = gt_map s" "gt_heap t = (gt_heap s)[a := ?gate]" by (simp_all add: t)
  have heap: "gate_refs (gt_heap t ! b) = int (users_of b t) \<and> gate_token (gt_heap t ! b) + decoders_of b t = 1"
    if "b < length (gt_heap t)" for b
    using that D assms(1) users [of b] dec [of b] by (cases "b = a") (auto simp: gates_ok_def frame)
  have ref: "mget (gt_map s) (fst (snd u)) = Some (snd (snd u)) \<and> (users_of a t = 0 \<longrightarrow> snd (snd u) \<noteq> a)"
    if "u \<in> set (gt_users t)" for u
    using that assms(1) users_zero [of a t u] unfolding t by (auto simp: gates_ok_def dest!: moved_users)
  have zero: "gate_refs (gt_heap s ! a) - 1 = 0 \<longleftrightarrow> users_of a t = 0" using D(3,4) users [of a] by auto
  have only: "mget (gt_map s) y = Some a \<longleftrightarrow> y = year" for y using assms(1) D(1) by (auto simp: gates_ok_def)
  have pos: "0 < users_of b t" if "mget (gt_map s) y = Some b" "b \<noteq> a \<or> users_of a t \<noteq> 0" for y b
    using that assms(1) users [of b] by (cases "b = a") (auto simp: gates_ok_def)
  show ?thesis
  proof (cases "users_of a t = 0")
    case True
    have eq: "unref year a s = t\<lparr>gt_map := mdel year (gt_map s)\<rparr>" using zero True by (simp add: unref_def Let_def t)
    have "0 < users_of b t" if "mget (mdel year (gt_map s)) y = Some b" for y b
      using that pos [of y b] only [of y] assms(1) by (cases "b = a") (auto simp: gates_ok_def gm.get_del split: if_splits)
    moreover have "mget (mdel year (gt_map s)) (fst (snd u)) = Some (snd (snd u))" if "u \<in> set (gt_users t)" for u
      using ref [OF that] True D(1) assms(1) by (auto simp: gates_ok_def gm.get_del)
    ultimately show ?thesis using assms(1) heap unfolding eq gates_ok_def
      by (auto simp: gm.ok_del gm.get_del frame split: if_splits)
  next
    case False
    have eq: "unref year a s = t" using zero False by (simp add: unref_def Let_def t)
    show ?thesis using assms(1) heap ref pos False unfolding eq gates_ok_def by (auto simp: frame)
  qed
qed

lemma gate_step_ok: "gate_step s s' \<Longrightarrow> gates_ok s \<Longrightarrow> gates_ok s'"
proof (induction rule: gate_step.induct)
  case (take_it year a s s')
  have "gate_token (gt_heap s ! a) \<noteq> 0" using take_it(2) by (auto simp: take_token_def Let_def split: if_splits)
  then show ?case
    using take_it phase_ok [OF take_it(3,1) refl, of "gate_token (gt_heap s ! a) - 1" Decoding]
    by (auto simp: take_token_def Let_def)
next
  case (cancelled year a s)
  then show ?case
    using phase_ok [OF cancelled(2,1) refl, of "gate_token (gt_heap s ! a)" Leaving] by (simp add: give_up_def)
next
  case (put_back year a s s')
  then show ?case
    using phase_ok [OF put_back(3,1) refl, of "gate_token (gt_heap s ! a) + 1" Leaving]
    by (auto simp: release_def Let_def split: if_splits)
qed (simp_all add: acquire_enter_ok unref_ok)

lemma gate_reach_ok: "gate_reach s \<Longrightarrow> gates_ok s"
  by (induction rule: gate_reach.induct) (auto simp: gate_step_ok, simp add: gates_ok_def new_gates_def gm.ok_emp gm.get_emp)

section \<open>Properties\<close>

lemma decoders_pos: "decoders_of a s \<noteq> 0 \<longleftrightarrow> (\<exists>y. (Decoding, y, a) \<in> set (gt_users s))"
  by (force simp: decoders_of_def filter_empty_conv)

lemma decoding_year:
  assumes "gates_ok s"
  shows "length (filter (\<lambda>(p, y, b). p = Decoding \<and> y = year) (gt_users s)) \<le> 1"
proof (cases "mget (gt_map s) year")
  case None
  then have "filter (\<lambda>(p, y, b). p = Decoding \<and> y = year) (gt_users s) = []"
    using assms by (force simp: gates_ok_def filter_empty_conv)
  then show ?thesis by simp
next
  case (Some a)
  have "filter (\<lambda>(p, y, b). p = Decoding \<and> y = year) (gt_users s) = filter (\<lambda>(p, y, b). p = Decoding \<and> b = a) (gt_users s)"
    using assms Some gates_okD(1) [OF assms] gates_ok_map(3) [OF assms] by (intro filter_cong) fastforce+
  moreover have "gate_token (gt_heap s ! a) + decoders_of a s = 1" using assms gates_ok_map(1) [OF assms Some] by (simp add: gates_ok_def)
  ultimately show ?thesis by (simp add: decoders_of_def)
qed

text \<open>
  Claim C17. However goroutines enter, give up and release, at most one at a time decodes a year; putting its token
  back never blocks; one that waits is kept waiting only by a goroutine that decodes that year; and the map
  holds a gate for exactly the years some goroutine is at, so that gates are neither lost nor left behind.
\<close>

theorem decode_gates_exclusive:
  assumes "gate_reach s"
  shows "length (filter (\<lambda>(p, y, b). p = Decoding \<and> y = year) (gt_users s)) \<le> 1
    \<and> ((Decoding, year, a) \<in> set (gt_users s) \<longrightarrow> release year a s \<noteq> None)
    \<and> ((Awaiting, year, a) \<in> set (gt_users s) \<longrightarrow>
        take_token year a s \<noteq> None \<or> (Decoding, year, a) \<in> set (gt_users s))
    \<and> (mget (gt_map s) year \<noteq> None \<longleftrightarrow> (\<exists>p b. (p, year, b) \<in> set (gt_users s)))"
proof -
  have ok: "gates_ok s" by (rule gate_reach_ok [OF assms])
  have rel: "release year a s \<noteq> None" if "(Decoding, year, a) \<in> set (gt_users s)"
    using gates_okD(5) [OF ok that] that decoders_pos [of a s] by (auto simp: release_def Let_def)
  have tok: "take_token year a s \<noteq> None \<or> (Decoding, year, a) \<in> set (gt_users s)" if w: "(Awaiting, year, a) \<in> set (gt_users s)"
  proof (cases "decoders_of a s = 0")
    case True
    then show ?thesis using gates_okD(5) [OF ok w] by (simp add: take_token_def Let_def)
  next
    case False
    then obtain y where y: "(Decoding, y, a) \<in> set (gt_users s)" using decoders_pos by blast
    have "y = year" by (rule gates_ok_map(3) [OF ok gates_okD(1) [OF ok w] gates_okD(1) [OF ok y]])
    then show ?thesis using y by blast
  qed
  have "\<exists>p b. (p, year, b) \<in> set (gt_users s)" if m: "mget (gt_map s) year = Some b" for b
  proof -
    have "filter (\<lambda>(p, y, c). c = b) (gt_users s) \<noteq> []" using gates_ok_map(2) [OF ok m] by (simp add: users_of_def)
    then obtain p y where u: "(p, y, b) \<in> set (gt_users s)" by (auto simp: filter_empty_conv)
    have "y = year" by (rule gates_ok_map(3) [OF ok m gates_okD(1) [OF ok u]])
    then show ?thesis using u by blast
  qed
  then have "mget (gt_map s) year \<noteq> None \<longleftrightarrow> (\<exists>p b. (p, year, b) \<in> set (gt_users s))"
    using gates_okD(1) [OF ok] by blast
  then show ?thesis using rel tok decoding_year [OF ok] by blast
qed

text \<open>Two goroutines for one year: one decodes, the other waits.\<close>

lemma decode_gates_exclusive_witness:
  "let s = \<lparr>gt_map = [(2024, 0)], gt_heap = [\<lparr>gate_token = 0, gate_refs = 2\<rparr>],
       gt_users = [(Decoding, 2024, 0), (Awaiting, 2024, 0)]\<rparr>
   in gate_reach s \<and> length (filter (\<lambda>(p, y, b). p = Decoding \<and> y = 2024) (gt_users s)) \<le> 1
    \<and> release 2024 0 s \<noteq> None"
proof -
  let ?s = "\<lparr>gt_map = [(2024, 0)], gt_heap = [\<lparr>gate_token = 0, gate_refs = 2\<rparr>],
       gt_users = [(Decoding, 2024, 0), (Awaiting, 2024, 0)]\<rparr> :: gates"
  let ?two = "acquire_enter 2024 (acquire_enter 2024 new_gates)"
  have "gate_reach ?two" by (rule gate_more [OF gate_more [OF gate_new enter] enter])
  moreover have "take_token 2024 0 ?two = Some ?s" "(Awaiting, 2024, 0) \<in> set (gt_users ?two)" by code_simp+
  ultimately have "gate_reach ?s" using gate_more take_it by blast
  then show ?thesis using decode_gates_exclusive [of ?s 2024 0] unfolding Let_def by simp
qed

end
