(* ===== verification/Cache_Open.thy ===== *)
theory Cache_Open
  imports Year_Cache Data_Path
begin

text \<open>
  Opening the year cache (\<open>Open\<close>, \<open>validateDBPath\<close>, \<open>openDB\<close> and \<open>sqliteOpenName\<close> of \<open>internal/cache/cache.go\<close>).
  How the attempts of each statement end is an input, as in the theory of the cache; a table the file does
  not have is \<^const>\<open>None\<close>.
\<close>

section \<open>The name SQLite opens\<close>

text \<open>\<open>net/url\<close>: which bytes stay in a path and in a query component, and the escaping of the others.\<close>

definition unreserved :: "char \<Rightarrow> bool" where
  "unreserved c \<longleftrightarrow> (let b = (of_char c :: nat) in
     48 \<le> b \<and> b \<le> 57 \<or> 65 \<le> b \<and> b \<le> 90 \<or> 97 \<le> b \<and> b \<le> 122) \<or> c \<in> set ''-_.~''"

definition path_safe :: "char \<Rightarrow> bool" where
  "path_safe c \<longleftrightarrow> unreserved c \<or> c \<in> set ''$&+,/:;=@''"

definition upper_hex :: "nat \<Rightarrow> char" where
  "upper_hex d = (if d < 10 then char_of (d + 48) else char_of (d + 55))"

definition escape_char :: "char \<Rightarrow> string" where
  "escape_char c = [CHR ''%'', upper_hex (of_char c div 16), upper_hex (of_char c mod 16)]"

definition escape_path :: "string \<Rightarrow> string" where
  "escape_path p = (if p = ''*'' then p else concat (map (\<lambda>c. if path_safe c then [c] else escape_char c) p))"

definition query_escape :: "string \<Rightarrow> string" where
  "query_escape s = concat (map (\<lambda>c. if unreserved c then [c] else if c = CHR '' '' then ''+'' else escape_char c) s)"

definition query_encode :: "(string \<times> string) list \<Rightarrow> string" where
  "query_encode kvs = join CHR ''&'' (map (\<lambda>(k, v). query_escape k @ ''='' @ query_escape v) kvs)"

definition open_pragmas :: "(string \<times> string) list" where
  "open_pragmas = [(''_pragma'', ''journal_mode(WAL)''), (''_pragma'', ''busy_timeout(5000)''),
     (''_pragma'', ''synchronous(NORMAL)''), (''_pragma'', ''wal_autocheckpoint(1000)'')]"

definition sqliteOpenName :: "string \<Rightarrow> string" where
  "sqliteOpenName path =
     (if path = '':memory:'' then path
      else ''file:'' @ (if path = [] then [] else ''//'') @ escape_path path @ ''?'' @ query_encode open_pragmas)"

section \<open>Opening\<close>

record sqlite =
  sq_years :: "(int, year_row) gomap option"
  sq_seen :: "(seen_key, seen_row) gomap option"
  sq_pragmas :: "(string, string) gomap"
  sq_max_open :: int
  sq_max_idle :: int
  sq_lifetime :: duration
  sq_open :: bool

record open_env =
  op_sql :: "string option"
  op_wal :: db_env
  op_timeout :: db_env
  op_synchronous :: db_env
  op_autocheckpoint :: db_env
  op_years :: db_env
  op_seen :: db_env
  op_count :: db_env
  op_checkpoint :: db_env
  op_ping :: "db_err option"

datatype open_err =
    OpenSqlite string
  | EnableWAL db_err
  | SetBusyTimeout db_err
  | SetSynchronous db_err
  | SetAutocheckpoint db_err
  | CreateYearCache db_err
  | CreateSeenMappings db_err
  | DiagnosticRead db_err
  | StartupCheckpoint db_err
  | PingSqlite db_err

text \<open>\<open>execDBWithRetry\<close> with the background context, whose waits are never cut short.\<close>

definition execDBWithRetry :: "db_env \<Rightarrow> (sqlite \<Rightarrow> sqlite) \<Rightarrow> sqlite \<Rightarrow> db_err option \<times> sqlite" where
  "execDBWithRetry env stmt s =
     (case execResultWithRetry (env\<lparr>waits := \<lambda>_. None\<rparr>) (\<lambda>s. ((), stmt s)) s of
        (Inl e, s1) \<Rightarrow> (Some e, s1)
      | (Inr _, s1) \<Rightarrow> (None, s1))"

definition closeDBOnOpenError :: "sqlite \<Rightarrow> sqlite" where
  "closeDBOnOpenError s = s\<lparr>sq_open := False\<rparr>"

text \<open>A statement whose failure ends \<open>openDB\<close>, and one for which only a busy database does.\<close>

type_synonym open_step = "sqlite \<Rightarrow> open_err option \<times> sqlite"

definition must :: "(db_err \<Rightarrow> open_err) \<Rightarrow> db_env \<Rightarrow> (sqlite \<Rightarrow> sqlite) \<Rightarrow> open_step \<Rightarrow> open_step" where
  "must err env stmt rest s =
     (case execDBWithRetry env stmt s of
        (Some e, s1) \<Rightarrow> (Some (err e), closeDBOnOpenError s1)
      | (None, s1) \<Rightarrow> rest s1)"

definition unless_busy :: "(db_err \<Rightarrow> open_err) \<Rightarrow> db_env \<Rightarrow> (sqlite \<Rightarrow> sqlite) \<Rightarrow> open_step \<Rightarrow> open_step" where
  "unless_busy err env stmt rest s =
     (case execDBWithRetry env stmt s of
        (Some e, s1) \<Rightarrow> if isBusy e then (Some (err e), closeDBOnOpenError s1) else rest s1
      | (None, s1) \<Rightarrow> rest s1)"

definition set_pragma :: "string \<Rightarrow> string \<Rightarrow> sqlite \<Rightarrow> sqlite" where
  "set_pragma k v s = s\<lparr>sq_pragmas := mput k v (sq_pragmas s)\<rparr>"

definition create_years :: "sqlite \<Rightarrow> sqlite" where
  "create_years s = s\<lparr>sq_years := Some (case sq_years s of None \<Rightarrow> [] | Some t \<Rightarrow> t)\<rparr>"

definition create_seen :: "sqlite \<Rightarrow> sqlite" where
  "create_seen s = s\<lparr>sq_seen := Some (case sq_seen s of None \<Rightarrow> [] | Some t \<Rightarrow> t)\<rparr>"

definition pool :: "string \<Rightarrow> sqlite \<Rightarrow> sqlite" where
  "pool path s =
     (if path = '':memory:'' then s\<lparr>sq_max_open := 1, sq_max_idle := 1, sq_lifetime := 0\<rparr>
      else s\<lparr>sq_max_open := 5, sq_max_idle := 1, sq_lifetime := 5 * minute\<rparr>)"

text \<open>
  \<open>openDB\<close>: the error and the handle, over the tables stored under the path. The diagnostic read and the checkpoint
  leave the tables as they are.
\<close>

definition openDB :: "open_env \<Rightarrow> string \<Rightarrow> sqlite \<Rightarrow> open_err option \<times> sqlite" where
  "openDB env validatedPath stored =
     (case op_sql env of
        Some e \<Rightarrow> (Some (OpenSqlite e), stored)
      | None \<Rightarrow>
          must EnableWAL (op_wal env) (set_pragma ''journal_mode'' ''WAL'')
         (must SetBusyTimeout (op_timeout env) (set_pragma ''busy_timeout'' ''5000'')
         (must SetSynchronous (op_synchronous env) (set_pragma ''synchronous'' ''NORMAL'')
         (unless_busy SetAutocheckpoint (op_autocheckpoint env) (set_pragma ''wal_autocheckpoint'' ''1000'')
         (must CreateYearCache (op_years env) create_years
         (must CreateSeenMappings (op_seen env) create_seen
         (must DiagnosticRead (op_count env) (\<lambda>s. s)
         (unless_busy StartupCheckpoint (op_checkpoint env) (\<lambda>s. s)
         (\<lambda>s. case op_ping env of
                 Some e \<Rightarrow> (Some (PingSqlite e), closeDBOnOpenError s)
               | None \<Rightarrow> (None, s)))))))))
         (pool validatedPath (stored\<lparr>sq_open := True\<rparr>)))"

datatype cache_open_err = BadDBPath path_err | OpenCacheDB open_err

definition validateDBPath :: "string \<Rightarrow> string \<Rightarrow> cache_open_err + string" where
  "validateDBPath tmp path =
     (if path = '':memory:'' then Inr path
      else (case Validate tmp path of Inl e \<Rightarrow> Inl (BadDBPath e) | Inr cleaned \<Rightarrow> Inr cleaned))"

text \<open>The tables of a database: those of a file by its path, none for one in memory.\<close>

definition stored_at :: "(string, sqlite) gomap \<Rightarrow> string \<Rightarrow> sqlite" where
  "stored_at files path =
     (case (if path = '':memory:'' then None else mget files path) of
        Some s \<Rightarrow> s\<lparr>sq_pragmas := [], sq_max_open := 0, sq_max_idle := 2, sq_lifetime := 0, sq_open := False\<rparr>
      | None \<Rightarrow> \<lparr>sq_years = None, sq_seen = None, sq_pragmas = [], sq_max_open = 0, sq_max_idle = 2, sq_lifetime = 0,
                  sq_open = False\<rparr>)"

definition table_of :: "'t list option \<Rightarrow> 't list" where
  "table_of t = (case t of None \<Rightarrow> [] | Some rows \<Rightarrow> rows)"

definition Open :: "string \<Rightarrow> open_env \<Rightarrow> (string, sqlite) gomap \<Rightarrow> string \<Rightarrow> (cache_open_err + cache) \<times> sqlite option" where
  "Open tmp env files path =
     (case validateDBPath tmp path of
        Inl e \<Rightarrow> (Inl e, None)
      | Inr p \<Rightarrow>
          (case openDB env p (stored_at files p) of
             (Some e, db) \<Rightarrow> (Inl (OpenCacheDB e), Some db)
           | (None, db) \<Rightarrow> (Inr (openCacheDB (table_of (sq_years db)) (table_of (sq_seen db))), Some db)))"

section \<open>What SQLite reads from the name\<close>

text \<open>
  The reading of a URI that SQLite documents: after \<open>file:\<close> an empty authority, then the path up to a question
  mark or a hash, with \<open>%HH\<close> decoded and everything from a NUL byte on dropped; a name that does not start with
  \<open>file:\<close> is the path itself.
\<close>

definition hex_value :: "char \<Rightarrow> nat option" where
  "hex_value c = (let b = of_char c in
     if 48 \<le> b \<and> b \<le> 57 then Some (b - 48)
     else if 65 \<le> b \<and> b \<le> 70 then Some (b - 55)
     else if 97 \<le> b \<and> b \<le> 102 then Some (b - 87)
     else None)"

fun uri_decode :: "string \<Rightarrow> string" where
  "uri_decode (c # h # l # s) =
     (if c = CHR ''%''
      then (case (hex_value h, hex_value l) of
              (Some x, Some y) \<Rightarrow> char_of (16 * x + y) # uri_decode s
            | _ \<Rightarrow> c # uri_decode (h # l # s))
      else c # uri_decode (h # l # s))"
| "uri_decode (c # s) = c # uri_decode s"
| "uri_decode [] = []"

definition uri_filename :: "string \<Rightarrow> string" where
  "uri_filename name =
     (if \<not> has_prefix name ''file://'' then name
      else takeWhile (\<lambda>c. of_char c \<noteq> (0 :: nat))
             (uri_decode (takeWhile (\<lambda>c. c \<noteq> CHR ''?'' \<and> c \<noteq> CHR ''#'') (drop 7 name))))"

definition uri_query :: "string \<Rightarrow> (string \<times> string) list" where
  "uri_query name =
     map (\<lambda>kv. (uri_decode (takeWhile (\<lambda>c. c \<noteq> CHR ''='') kv), uri_decode (tl (dropWhile (\<lambda>c. c \<noteq> CHR ''='') kv))))
       (split_on CHR ''&'' (tl (dropWhile (\<lambda>c. c \<noteq> CHR ''?'') name)))"

lemma upper_hex_ok:
  assumes "d < 16"
  shows "hex_value (upper_hex d) = Some d" "upper_hex d \<notin> set ''?#''"
proof -
  show *: "hex_value (upper_hex d) = Some d" using assms by (auto simp: hex_value_def upper_hex_def Let_def)
  have "hex_value CHR ''?'' = None" "hex_value CHR ''#'' = None" by (simp_all add: hex_value_def)
  with * show "upper_hex d \<notin> set ''?#''" by auto
qed

lemma char_nibbles: "of_char c div 16 < (16 :: nat)" "char_of (16 * (of_char c div 16) + of_char c mod (16 :: nat)) = c"
proof -
  have "of_char c < (256 :: nat)" by (rule nat_of_char_less_256)
  then show "of_char c div 16 < (16 :: nat)" by (intro less_mult_imp_div_less) simp
qed (simp add: mult.commute [of 16])

lemma uri_decode_other [simp]: "c \<noteq> CHR ''%'' \<Longrightarrow> uri_decode (c # s) = c # uri_decode s"
  by (cases s; cases "tl s") auto

lemma uri_decode_escaped [simp]: "uri_decode (escape_char c @ s) = c # uri_decode s"
  using char_nibbles(1) [of c] by (simp add: escape_char_def char_nibbles(2) upper_hex_ok)

lemma path_safe_not: "\<not> path_safe CHR ''%''" "\<not> path_safe CHR ''?''" "\<not> path_safe CHR ''#''"
  by code_simp+

lemma escape_path_decodes: "uri_decode (escape_path p @ s) = p @ uri_decode s"
proof (cases "p = ''*''")
  case False
  have "uri_decode (concat (map (\<lambda>c. if path_safe c then [c] else escape_char c) p) @ s) = p @ uri_decode s"
  proof (induction p)
    case (Cons c p)
    then show ?case using path_safe_not(1) by (cases "c = CHR ''%''") auto
  qed simp
  then show ?thesis using False by (simp add: escape_path_def)
qed (simp add: escape_path_def)

lemma escape_path_plain: "c \<in> set (escape_path p) \<Longrightarrow> c \<noteq> CHR ''?'' \<and> c \<noteq> CHR ''#''"
proof (cases "p = ''*''")
  case False
  have "c \<noteq> CHR ''?'' \<and> c \<noteq> CHR ''#''" if "c \<in> set (escape_char d)" for d
    using that upper_hex_ok(2) [OF char_nibbles(1) [of d]] upper_hex_ok(2) [of "of_char d mod 16"] by (auto simp: escape_char_def)
  then show "c \<in> set (escape_path p) \<Longrightarrow> c \<noteq> CHR ''?'' \<and> c \<noteq> CHR ''#''"
    using False path_safe_not(2,3) by (auto simp: escape_path_def split: if_splits)
qed (auto simp: escape_path_def)


lemma query_text:
  "query_encode open_pragmas = ''_pragma=journal_mode%28WAL%29&_pragma=busy_timeout%285000%29&_pragma=synchronous%28NORMAL%29&_pragma=wal_autocheckpoint%281000%29''"
  by (simp add: query_encode_def open_pragmas_def query_escape_def unreserved_def escape_char_def upper_hex_def) code_simp

lemma query_pragmas:
  "map (\<lambda>kv. (uri_decode (takeWhile (\<lambda>c. c \<noteq> CHR ''='') kv), uri_decode (tl (dropWhile (\<lambda>c. c \<noteq> CHR ''='') kv))))
    (split_on CHR ''&'' (query_encode open_pragmas)) = open_pragmas"
  unfolding query_text by (simp add: open_pragmas_def hex_value_def) code_simp

section \<open>How opening ends\<close>

text \<open>The error a statement ends with after its retries, none of which is cut short.\<close>

definition final_error :: "db_env \<Rightarrow> db_err option" where
  "final_error env = env_error (env\<lparr>waits := \<lambda>_. None\<rparr>)"

fun first_some :: "'a option list \<Rightarrow> 'a option" where
  "first_some [] = None"
| "first_some (None # xs) = first_some xs"
| "first_some (Some x # xs) = Some x"

lemma first_some_one [simp]: "first_some [x] = x"
  by (cases x) auto

definition busy_only :: "db_err option \<Rightarrow> db_err option" where
  "busy_only e = (if e = Some Busy then e else None)"

definition open_failure :: "open_env \<Rightarrow> open_err option" where
  "open_failure env = first_some
     [map_option OpenSqlite (op_sql env), map_option EnableWAL (final_error (op_wal env)),
      map_option SetBusyTimeout (final_error (op_timeout env)), map_option SetSynchronous (final_error (op_synchronous env)),
      map_option SetAutocheckpoint (busy_only (final_error (op_autocheckpoint env))),
      map_option CreateYearCache (final_error (op_years env)), map_option CreateSeenMappings (final_error (op_seen env)),
      map_option DiagnosticRead (final_error (op_count env)),
      map_option StartupCheckpoint (busy_only (final_error (op_checkpoint env))), map_option PingSqlite (op_ping env)]"

lemma execDBWithRetry_eq:
  "execDBWithRetry env stmt s = (case final_error env of Some e \<Rightarrow> (Some e, s) | None \<Rightarrow> (None, stmt s))"
  by (simp add: execDBWithRetry_def execResultWithRetry_eq final_error_def split: option.splits)

text \<open>The handle agrees with what was stored on the rows of both tables.\<close>

definition same_rows :: "sqlite \<Rightarrow> sqlite \<Rightarrow> bool" where
  "same_rows s t \<longleftrightarrow> table_of (sq_years s) = table_of (sq_years t) \<and> table_of (sq_seen s) = table_of (sq_seen t)"

definition opened_ok :: "sqlite \<Rightarrow> open_err option list \<Rightarrow> open_err option \<times> sqlite \<Rightarrow> bool" where
  "opened_ok stored errs r \<longleftrightarrow> fst r = first_some errs \<and> same_rows (snd r) stored \<and> (sq_open (snd r) \<longleftrightarrow> fst r = None)"

lemma must_ok:
  assumes "same_rows s stored" "sq_open s" "\<And>t. same_rows (stmt t) t \<and> sq_open (stmt t) = sq_open t"
    and "\<And>t. same_rows t stored \<Longrightarrow> sq_open t \<Longrightarrow> opened_ok stored errs (rest t)"
  shows "opened_ok stored (map_option err (final_error env) # errs) (must err env stmt rest s)"
    and "opened_ok stored (map_option err (busy_only (final_error env)) # errs) (unless_busy err env stmt rest s)"
proof -
  have "same_rows (stmt s) stored" "sq_open (stmt s)" using assms(1,2) assms(3) [of s] by (auto simp: same_rows_def)
  then show "opened_ok stored (map_option err (final_error env) # errs) (must err env stmt rest s)"
    and "opened_ok stored (map_option err (busy_only (final_error env)) # errs) (unless_busy err env stmt rest s)"
    using assms(1,2,4)
    by (auto simp: must_def unless_busy_def execDBWithRetry_eq opened_ok_def closeDBOnOpenError_def same_rows_def busy_only_def
        isBusy_def split: option.splits)
qed

lemma stmt_rows:
  "same_rows (set_pragma k v t) t \<and> sq_open (set_pragma k v t) = sq_open t"
  "same_rows (create_years t) t \<and> sq_open (create_years t) = sq_open t"
  "same_rows (create_seen t) t \<and> sq_open (create_seen t) = sq_open t"
  "same_rows (pool path t) t \<and> sq_open (pool path t) = sq_open t"
  by (auto simp: same_rows_def set_pragma_def create_years_def create_seen_def pool_def table_of_def split: option.splits)

lemma openDB_ok:
  assumes "\<not> sq_open stored"
  shows "opened_ok stored [open_failure env] (openDB env path stored)"
proof (cases "op_sql env")
  case None
  let ?s = "pool path (stored\<lparr>sq_open := True\<rparr>)"
  have start: "same_rows ?s stored" "sq_open ?s" using stmt_rows(4) [of path "stored\<lparr>sq_open := True\<rparr>"] by (auto simp: same_rows_def)
  have ping: "opened_ok stored [map_option PingSqlite (op_ping env)]
      (case op_ping env of Some e \<Rightarrow> (Some (PingSqlite e), closeDBOnOpenError t) | None \<Rightarrow> (None, t))"
    if "same_rows t stored" "sq_open t" for t
    using that by (auto simp: opened_ok_def closeDBOnOpenError_def same_rows_def split: option.splits)
  have id: "same_rows ((\<lambda>s. s) t) t \<and> sq_open ((\<lambda>s. s) t) = sq_open t" for t by (simp add: same_rows_def)
  have "opened_ok stored (tl [map_option OpenSqlite (op_sql env), map_option EnableWAL (final_error (op_wal env)),
      map_option SetBusyTimeout (final_error (op_timeout env)), map_option SetSynchronous (final_error (op_synchronous env)),
      map_option SetAutocheckpoint (busy_only (final_error (op_autocheckpoint env))),
      map_option CreateYearCache (final_error (op_years env)), map_option CreateSeenMappings (final_error (op_seen env)),
      map_option DiagnosticRead (final_error (op_count env)),
      map_option StartupCheckpoint (busy_only (final_error (op_checkpoint env))), map_option PingSqlite (op_ping env)])
      (openDB env path stored)"
    unfolding openDB_def None option.case list.sel
    by (intro must_ok start stmt_rows id ping)
  then show ?thesis by (simp add: opened_ok_def open_failure_def None)
next
  case (Some e)
  then show ?thesis using assms by (simp add: openDB_def opened_ok_def open_failure_def same_rows_def)
qed

text \<open>Primary keys are unique in the stored tables.\<close>

definition files_ok :: "(string, sqlite) gomap \<Rightarrow> bool" where
  "files_ok files \<longleftrightarrow>
     (\<forall>p db. mget files p = Some db \<longrightarrow> mwf (table_of (sq_years db)) \<and> mwf (table_of (sq_seen db)))"

lemma Open_result:
  assumes "files_ok files"
  shows "case Open tmp env files path of
      (Inl (BadDBPath e), db) \<Rightarrow> path \<noteq> '':memory:'' \<and> Validate tmp path = Inl e \<and> db = None
    | (Inl (OpenCacheDB e), db) \<Rightarrow> open_failure env = Some e
        \<and> (\<exists>p s. validateDBPath tmp path = Inr p \<and> db = Some s \<and> \<not> sq_open s \<and> same_rows s (stored_at files p))
    | (Inr c, db) \<Rightarrow> open_failure env = None
        \<and> (\<exists>p s. validateDBPath tmp path = Inr p \<and> db = Some s \<and> sq_open s \<and> same_rows s (stored_at files p)
             \<and> year_cache c = table_of (sq_years (stored_at files p)) \<and> seen_mappings c = table_of (sq_seen (stored_at files p)))
        \<and> cache_ok dec c"
proof (cases "validateDBPath tmp path")
  case (Inl e)
  then show ?thesis by (auto simp: Open_def validateDBPath_def split: if_splits sum.splits)
next
  case (Inr p)
  have closed: "\<not> sq_open (stored_at files p)" by (simp add: stored_at_def split: option.splits)
  have "mwf (table_of (sq_years (stored_at files p))) \<and> mwf (table_of (sq_seen (stored_at files p)))"
    using assms by (auto simp: files_ok_def stored_at_def table_of_def mwf_def split: option.splits if_splits)
  then show ?thesis
    using Inr openDB_ok [OF closed, of env p] openCacheDB_ok
    by (auto simp: Open_def opened_ok_def same_rows_def openCacheDB_def split: option.splits prod.splits)
qed

section \<open>Properties\<close>

text \<open>
  Claim C39. The name given to SQLite stands for exactly the validated path: whatever bytes but NUL the path has, reading
  the name as a URI gives the path back, and the parameters it carries are the four pragmas and nothing the path added.
\<close>

theorem sqliteOpenName_names:
  assumes "validateDBPath tmp path = Inr p" "CHR 0x00 \<notin> set p"
  shows "uri_filename (sqliteOpenName p) = p \<and> (p \<noteq> '':memory:'' \<longrightarrow> uri_query (sqliteOpenName p) = open_pragmas)"
proof (cases "p = '':memory:''")
  case False
  then have "p \<noteq> []" using assms(1) by (auto simp: validateDBPath_def Validate_def Let_def is_abs_def has_prefix_iff split: if_splits sum.splits)
  then have name: "sqliteOpenName p = ''file://'' @ escape_path p @ CHR ''?'' # query_encode open_pragmas"
    using False by (simp add: sqliteOpenName_def)
  have plain: "\<forall>c \<in> set (escape_path p). c \<noteq> CHR ''?'' \<and> c \<noteq> CHR ''#''" using escape_path_plain by blast
  have nul: "\<forall>c \<in> set p. of_char c \<noteq> (0 :: nat)"
  proof
    fix c assume c: "c \<in> set p"
    have "c = CHR 0x00" if "of_char c = (0 :: nat)" using that of_char_eq_iff [of c "CHR 0x00", where 'a = nat] by simp
    with c assms(2) show "of_char c \<noteq> (0 :: nat)" by blast
  qed
  have "takeWhile (\<lambda>c. c \<noteq> CHR ''?'' \<and> c \<noteq> CHR ''#'') (drop 7 (sqliteOpenName p)) = escape_path p"
    using plain by (simp add: name takeWhile_append2)
  moreover have "uri_decode (escape_path p) = p" using escape_path_decodes [of p "[]"] by simp
  ultimately have "uri_filename (sqliteOpenName p) = p" using nul by (simp add: uri_filename_def name has_prefix_iff)
  moreover have "dropWhile (\<lambda>c. c \<noteq> CHR ''?'') (sqliteOpenName p) = CHR ''?'' # query_encode open_pragmas"
    using plain by (simp add: name dropWhile_append2)
  ultimately show ?thesis using query_pragmas by (simp add: uri_query_def)
next
  case True
  have "\<not> has_prefix '':memory:'' ''file://''" by code_simp
  then show ?thesis by (simp add: True sqliteOpenName_def uri_filename_def)
qed

lemma sqliteOpenName_names_witness:
  "uri_filename (sqliteOpenName ''/data/50%25#1.db'') = ''/data/50%25#1.db''
   \<and> uri_query (sqliteOpenName ''/data/50%25#1.db'') = open_pragmas"
proof -
  have "validateDBPath ''/tmp'' ''/data/50%25#1.db'' = Inr ''/data/50%25#1.db''" by code_simp
  from sqliteOpenName_names [OF this] show ?thesis by simp
qed

text \<open>
  Claim C40. Opening the cache fails with the first fatal error in the order of the code - a bad path, a failed
  statement, for the autocheckpoint and the startup checkpoint only a database that stayed busy - and then the
  handle is closed; otherwise the handle is open and the cache starts well formed. The rows of the file are kept in
  every case, and they are the rows the cache starts with.
\<close>

theorem Open_outcome:
  assumes "files_ok files"
  shows "case Open tmp env files path of
      (Inl (BadDBPath e), db) \<Rightarrow> path \<noteq> '':memory:'' \<and> Validate tmp path = Inl e \<and> db = None
    | (Inl (OpenCacheDB e), db) \<Rightarrow> open_failure env = Some e
        \<and> (\<exists>p s. validateDBPath tmp path = Inr p \<and> db = Some s \<and> \<not> sq_open s \<and> same_rows s (stored_at files p))
    | (Inr c, db) \<Rightarrow> open_failure env = None
        \<and> (\<exists>p s. validateDBPath tmp path = Inr p \<and> db = Some s \<and> sq_open s \<and> same_rows s (stored_at files p)
             \<and> year_cache c = table_of (sq_years (stored_at files p)) \<and> seen_mappings c = table_of (sq_seen (stored_at files p)))
        \<and> cache_ok dec c"
  by (rule Open_result [OF assms])

text \<open>A database with one year whose checkpoint fails, and one that stays busy.\<close>

lemma Open_outcome_witness:
  "let row = \<lparr>yr_data = ''[]'', fetched_at = 1, last_hit = 1\<rparr>;
       db = \<lparr>sq_years = Some [(2024, row)], sq_seen = None, sq_pragmas = [], sq_max_open = 0, sq_max_idle = 2,
              sq_lifetime = 0, sq_open = False\<rparr>;
       good = \<lparr>fails = \<lambda>_. None, waits = \<lambda>_. None\<rparr>; bad = good\<lparr>fails := \<lambda>_. Some (DbFault [])\<rparr>;
       env = \<lparr>op_sql = None, op_wal = good, op_timeout = good, op_synchronous = good, op_autocheckpoint = bad,
              op_years = good, op_seen = good, op_count = good, op_checkpoint = bad, op_ping = None\<rparr>
   in \<exists>c s. Open ''/tmp'' env [(''/data/c.db'', db)] ''/data/c.db'' = (Inr c, Some s) \<and> sq_open s
      \<and> year_cache c = [(2024, row)] \<and> cache_ok (\<lambda>_. None) c"
proof -
  let ?row = "\<lparr>yr_data = ''[]'', fetched_at = 1, last_hit = 1\<rparr>"
  let ?db = "\<lparr>sq_years = Some [(2024, ?row)], sq_seen = None, sq_pragmas = [], sq_max_open = 0, sq_max_idle = 2,
              sq_lifetime = 0, sq_open = False\<rparr> :: sqlite"
  let ?good = "\<lparr>fails = \<lambda>_. None, waits = \<lambda>_. None\<rparr> :: db_env"
  let ?bad = "?good\<lparr>fails := \<lambda>_. Some (DbFault [])\<rparr>"
  let ?env = "\<lparr>op_sql = None, op_wal = ?good, op_timeout = ?good, op_synchronous = ?good, op_autocheckpoint = ?bad,
              op_years = ?good, op_seen = ?good, op_count = ?good, op_checkpoint = ?bad, op_ping = None\<rparr>"
  let ?files = "[(''/data/c.db'', ?db)]"
  have path: "validateDBPath ''/tmp'' ''/data/c.db'' = Inr ''/data/c.db''" "Validate ''/tmp'' ''/data/c.db'' = Inr ''/data/c.db''"
    by code_simp+
  have none: "open_failure ?env = None"
    by (simp add: open_failure_def final_error_def env_error_def env_error_from.simps busy_only_def isBusy_def)
  have rows: "table_of (sq_years (stored_at ?files ''/data/c.db'')) = [(2024, ?row)]"
    by (simp add: stored_at_def table_of_def mget_def)
  have "\<forall>p db. mget ?files p = Some db \<longrightarrow> mwf (table_of (sq_years db)) \<and> mwf (table_of (sq_seen db))"
    by (simp add: mget_def mwf_def table_of_def)
  then have "files_ok ?files" unfolding files_ok_def .
  from Open_outcome [OF this, where tmp = "''/tmp''" and env = ?env and path = "''/data/c.db''" and dec = "\<lambda>_. None"] none path rows
  show ?thesis unfolding Let_def
    by (auto split: prod.splits sum.splits cache_open_err.splits)
qed

end
