(* ===== verification/Server_Run.thy ===== *)
theory Server_Run
  imports Http_Server Cache_Open Mapping_Loader "HOL-Library.Sublist"
begin

text \<open>
  The life of the process (\<open>cmd/server/main.go\<close>): the checks of the data directories, \<open>runContext\<close> from startup to
  shutdown with its deferred calls, and \<open>runHealthcheck\<close>. What the operating system, the requests and the other
  goroutines do in between is an input.
\<close>

section \<open>Data directories\<close>

datatype dir_err =
    StatFailed string
  | NotADirectory
  | ReadDirFailed string
  | WriteProbe string
  | CloseProbe string
  | RemoveProbe string

record probe_env =
  pe_stat :: "string option"
  pe_read :: "string option"
  pe_create :: "string option"
  pe_random :: string
  pe_write :: "(nat \<times> string) option"
  pe_close :: "string option"
  pe_remove :: "string option"

definition probe_name :: "probe_env \<Rightarrow> string \<Rightarrow> string" where
  "probe_name pe dir = dir @ ''/.sonarr-anime-bridge-write-test-'' @ pe_random pe"

definition validateRuntimeDataDir :: "probe_env \<Rightarrow> string \<Rightarrow> disk \<Rightarrow> dir_err option \<times> disk" where
  "validateRuntimeDataDir pe dir d =
     (case (pe_stat pe, mget d dir) of
        (Some e, _) \<Rightarrow> (Some (StatFailed e), d)
      | (None, None) \<Rightarrow> (Some (StatFailed ''no such file or directory''), d)
      | (None, Some (File _)) \<Rightarrow> (Some NotADirectory, d)
      | (None, Some Directory) \<Rightarrow>
          (case (pe_read pe, pe_create pe) of
             (Some e, _) \<Rightarrow> (Some (ReadDirFailed e), d)
           | (None, Some e) \<Rightarrow> (Some (WriteProbe e), d)
           | (None, None) \<Rightarrow>
               (let probe = probe_name pe dir;
                    d1 = mput probe (File []) d;
                    d2 = mput probe (File (case pe_write pe of None \<Rightarrow> ''ok'' | Some (n, _) \<Rightarrow> take n ''ok'')) d1;
                    d3 = (if pe_remove pe = None then mdel probe d2 else d2)
                in (case (pe_write pe, pe_close pe, pe_remove pe) of
                      (Some (_, e), _, _) \<Rightarrow> Some (WriteProbe e)
                    | (None, Some e, _) \<Rightarrow> Some (CloseProbe e)
                    | (None, None, Some e) \<Rightarrow> Some (RemoveProbe e)
                    | (None, None, None) \<Rightarrow> None, d3))))"

text \<open>The directories to check and the variables that ask for each.\<close>

definition add_label :: "string \<Rightarrow> string \<Rightarrow> (string, string list) gomap \<Rightarrow> (string, string list) gomap" where
  "add_label path label dirs =
     (let dir = clean_path (dir_name path) in
      mput dir ((case mget dirs dir of None \<Rightarrow> [] | Some labels \<Rightarrow> labels) @ [label]) dirs)"

definition data_dirs :: "config \<Rightarrow> (string, string list) gomap" where
  "data_dirs cfg =
     (let dirs1 = (if CacheDBPath cfg \<noteq> [] \<and> CacheDBPath cfg \<noteq> '':memory:''
                   then add_label (CacheDBPath cfg) ''CACHE_DB_PATH'' [] else [])
      in if AnibridgeMappingPath cfg \<noteq> [] then add_label (AnibridgeMappingPath cfg) ''MAPPING_PATH'' dirs1 else dirs1)"

fun validate_dirs ::
    "(string \<Rightarrow> probe_env) \<Rightarrow> (string, string list) gomap \<Rightarrow> string list \<Rightarrow> disk \<Rightarrow>
     (string list \<times> string \<times> dir_err) option \<times> disk" where
  "validate_dirs pe dirs [] d = (None, d)"
| "validate_dirs pe dirs (dir # rest) d =
     (case validateRuntimeDataDir (pe dir) dir d of
        (Some e, d1) \<Rightarrow> (Some ((case mget dirs dir of None \<Rightarrow> [] | Some labels \<Rightarrow> labels), dir, e), d1)
      | (None, d1) \<Rightarrow> validate_dirs pe dirs rest d1)"

text \<open>\<open>visit\<close> is the order in which Go ranges over the map.\<close>

definition validateRuntimeDataDirs ::
    "(string \<Rightarrow> probe_env) \<Rightarrow> string list \<Rightarrow> config option \<Rightarrow> disk \<Rightarrow>
     (string list \<times> string \<times> dir_err) option \<times> disk" where
  "validateRuntimeDataDirs pe visit cfg d =
     (case cfg of None \<Rightarrow> (None, d) | Some cf \<Rightarrow> validate_dirs pe (data_dirs cf) visit d)"

section \<open>The run\<close>

datatype run_err =
    DataDirs "string list \<times> string \<times> dir_err"
  | OpenCache cache_open_err
  | ListenFailed string
  | ServerFailed string
  | PrewarmShutdown
  | ShutdownFailed string
  | ServerCloseFailed string
  | TasksRunning ctx_err
  | CloseCache db_err

datatype action =
    ValidatingDirs | OpeningCache | LoadingMapping | Listening | StartingWorkers | Serving | Cancelling
  | AwaitingPrewarm | ShuttingDown | ClosingServer | AwaitingTasks | ClosingListener | ClosingCache

record run_env =
  rn_probe :: "string \<Rightarrow> probe_env"
  rn_visit :: "string list"
  rn_open :: open_env
  rn_gate :: "ctx_err option"
  rn_after :: "ctx_err option"
  rn_load :: load_env
  rn_cancelled :: bool
  rn_listen :: "string option"
  rn_serving :: "server \<Rightarrow> server"
  rn_server_err :: "string option"
  rn_stopping :: "server \<Rightarrow> server"
  rn_prewarm_done :: bool
  rn_shutdown :: "string option"
  rn_close :: "string option"
  rn_waiting :: "server \<Rightarrow> server"
  rn_final :: flush_env
  rn_db_close :: "db_err option"

record run_result =
  rr_errs :: "run_err list"
  rr_trace :: "action list"
  rr_server :: "server option"
  rr_log :: "log_line option"

text \<open>The first deferred call: the last log line (without the duration).\<close>

definition stop_log :: "bool \<Rightarrow> bool \<Rightarrow> run_err list \<Rightarrow> log_line option" where
  "stop_log startupComplete ctxDone errs =
     (if errs \<noteq> []
      then Some (LevelError, ''bridge stopped with an error'', [(''type'', AStr ''system''),
             (''task'', AStr (if startupComplete then ''service'' else ''startup'')), (''outcome'', AStr ''failed'')])
      else if ctxDone
      then Some (LevelInfo, ''bridge stopped'', [(''type'', AStr ''system''), (''task'', AStr ''shutdown''),
             (''outcome'', AStr ''succeeded'')])
      else None)"

text \<open>From the start of the workers to the end of \<open>Wait\<close>, whose context ends after five seconds.\<close>

definition on_background :: "(background \<Rightarrow> background) \<Rightarrow> server \<Rightarrow> server" where
  "on_background f s = s\<lparr>sv_background := f (sv_background s)\<rparr>"

definition serve_until_stopped :: "run_env \<Rightarrow> server \<Rightarrow> run_err list \<times> action list \<times> server" where
  "serve_until_stopped env s =
     (let s1 = rn_serving env (on_background (StartBackground None) s);
          errs1 = (case rn_server_err env of None \<Rightarrow> [] | Some e \<Rightarrow> [ServerFailed e]);
          s2 = rn_stopping env (on_background (\<lambda>b. b\<lparr>appCtx := Some Canceled\<rparr>) s1);
          errs2 = (if rn_prewarm_done env then [] else [PrewarmShutdown]);
          errs3 = (case rn_shutdown env of None \<Rightarrow> []
                   | Some e \<Rightarrow> ShutdownFailed e # (case rn_close env of None \<Rightarrow> [] | Some e \<Rightarrow> [ServerCloseFailed e]));
          s3 = rn_waiting env (on_background Wait_call s2);
          errs4 = (case Wait_return (Some DeadlineExceeded) (sv_background s3) of
                     Some (Some e) \<Rightarrow> [TasksRunning e] | _ \<Rightarrow> [])
      in (errs1 @ errs2 @ errs3 @ errs4,
          [StartingWorkers, Serving, Cancelling, AwaitingPrewarm, ShuttingDown]
            @ (if rn_shutdown env = None then [] else [ClosingServer]) @ [AwaitingTasks], s3))"

text \<open>The deferred \<open>db.Close\<close>; \<^const>\<open>None\<close> is a panic in it.\<close>

definition close_deferred :: "run_env \<Rightarrow> bool \<Rightarrow> bool \<Rightarrow> run_err list \<Rightarrow> action list \<Rightarrow> server \<Rightarrow> run_result option" where
  "close_deferred env startupComplete ctxDone errs trace s =
     (case Close (rn_final env) (rn_db_close env) (sv_cache s) of
        None \<Rightarrow> None
      | Some (err, c) \<Rightarrow>
          (let errs1 = errs @ (case err of None \<Rightarrow> [] | Some e \<Rightarrow> [CloseCache e])
           in Some \<lparr>rr_errs = errs1, rr_trace = trace @ [ClosingCache], rr_server = Some (s\<lparr>sv_cache := c\<rparr>),
                    rr_log = stop_log startupComplete ctxDone errs1\<rparr>))"

definition runContext ::
    "codecs \<Rightarrow> string \<Rightarrow> run_env \<Rightarrow> config \<Rightarrow> (string, sqlite) gomap \<Rightarrow> disk \<Rightarrow> run_result option" where
  "runContext cd tmp env cfg files d =
     (case validateRuntimeDataDirs (rn_probe env) (rn_visit env) (Some cfg) d of
        (Some e, d1) \<Rightarrow> Some \<lparr>rr_errs = [DataDirs e], rr_trace = [ValidatingDirs], rr_server = None,
            rr_log = stop_log False False [DataDirs e]\<rparr>
      | (None, d1) \<Rightarrow>
          (case Open tmp (rn_open env) files (CacheDBPath cfg) of
             (Inl e, _) \<Rightarrow> Some \<lparr>rr_errs = [OpenCache e], rr_trace = [ValidatingDirs, OpeningCache], rr_server = None,
                 rr_log = stop_log False False [OpenCache e]\<rparr>
           | (Inr c, _) \<Rightarrow>
               (let (_, (_, resolver)) = loadResolver cd (rn_gate env) (rn_after env) (rn_load env) cfg ((None, d1), NewResolver);
                    s = \<lparr>sv_cache = c, sv_backoff = new_backoff, sv_background = NewBackground, sv_resolver = resolver\<rparr>;
                    started = [ValidatingDirs, OpeningCache, LoadingMapping]
                in if rn_cancelled env then close_deferred env False True [] started s
                   else (case rn_listen env of
                           Some e \<Rightarrow> close_deferred env False False [ListenFailed e] (started @ [Listening]) s
                         | None \<Rightarrow>
                             (case serve_until_stopped env s of
                                (errs, trace, s1) \<Rightarrow>
                                  close_deferred env True True errs (started @ Listening # trace @ [ClosingListener]) s1)))))"

text \<open>\<open>setupLogging\<close>: the level of the handler.\<close>

definition setupLogging :: "string \<Rightarrow> log_level" where
  "setupLogging level =
     (let l = to_lower level in
      if l = ''debug'' then LevelDebug
      else if l = ''warn'' \<or> l = ''warning'' then LevelWarn
      else if l = ''error'' then LevelError
      else LevelInfo)"

text \<open>\<open>get\<close> is the GET of the client: an error, or the status of the answer.\<close>

definition runHealthcheck :: "(string \<Rightarrow> string + int) \<Rightarrow> config \<Rightarrow> string option" where
  "runHealthcheck get cfg =
     (case get (''http://127.0.0.1:'' @ fmt_d (Port cfg) @ ''/health'') of
        Inl e \<Rightarrow> Some e
      | Inr status \<Rightarrow> if status \<noteq> 200 then Some (''unexpected status '' @ fmt_d status) else None)"

section \<open>Lemmas\<close>

definition probe_ok :: "probe_env \<Rightarrow> string \<Rightarrow> disk \<Rightarrow> bool" where
  "probe_ok pe dir d \<longleftrightarrow> mget d dir = Some Directory \<and> pe_stat pe = None \<and> pe_read pe = None \<and> pe_create pe = None
     \<and> pe_write pe = None \<and> pe_close pe = None \<and> pe_remove pe = None"

lemma probe_result:
  "fst (validateRuntimeDataDir pe dir d) = None \<longleftrightarrow> probe_ok pe dir d"
  by (simp add: validateRuntimeDataDir_def probe_ok_def Let_def split: option.splits node.splits)

lemma probe_error_cong:
  "mget d dir = mget d' dir \<Longrightarrow> fst (validateRuntimeDataDir pe dir d) = fst (validateRuntimeDataDir pe dir d')"
  by (simp add: validateRuntimeDataDir_def Let_def split: option.splits node.splits)

text \<open>Nothing but the probe is touched, and it is gone unless it could not be removed.\<close>

lemma probe_disk:
  assumes "mget d (probe_name pe dir) = None"
  shows "mget (snd (validateRuntimeDataDir pe dir d)) k = mget d k \<or> k = probe_name pe dir \<and> pe_remove pe \<noteq> None"
  using assms by (auto simp: validateRuntimeDataDir_def Let_def split: option.splits node.splits)

lemma validate_dirs_result:
  assumes "\<And>dir. mget d (probe_name (pe dir) dir) = None" "\<And>k. mget d0 k = mget d k"
  shows "case validate_dirs pe dirs visit d0 of
      (None, d1) \<Rightarrow> (\<forall>dir \<in> set visit. probe_ok (pe dir) dir d) \<and> (\<forall>k. mget d1 k = mget d k)
    | (Some (labels, dir, e), d1) \<Rightarrow> dir \<in> set visit \<and> fst (validateRuntimeDataDir (pe dir) dir d) = Some e
        \<and> labels = (case mget dirs dir of None \<Rightarrow> [] | Some labels \<Rightarrow> labels)
        \<and> (\<forall>k. mget d1 k = mget d k \<or> k = probe_name (pe dir) dir \<and> pe_remove (pe dir) \<noteq> None)"
  using assms(2)
proof (induction visit arbitrary: d0)
  case (Cons dir visit)
  obtain e d1 where run: "validateRuntimeDataDir (pe dir) dir d0 = (e, d1)" by fastforce
  have e: "e = fst (validateRuntimeDataDir (pe dir) dir d)"
    using probe_error_cong [of d0 dir d "pe dir"] run Cons.prems [of dir] by simp
  have d1: "mget d1 k = mget d k \<or> k = probe_name (pe dir) dir \<and> pe_remove (pe dir) \<noteq> None" for k
    using probe_disk [of d0 "pe dir" dir k] run Cons.prems assms(1) by simp
  show ?case
  proof (cases e)
    case None
    then have ok: "probe_ok (pe dir) dir d" using e probe_result [of "pe dir" dir d] by simp
    then have "\<And>k. mget d1 k = mget d k" using d1 by (auto simp: probe_ok_def)
    note IH = Cons.IH [OF this]
    obtain r d2 where rec: "validate_dirs pe dirs visit d1 = (r, d2)" by fastforce
    show ?thesis
    proof (cases r)
      case (Some x)
      obtain labels dir' err where "x = (labels, dir', err)" by (cases x)
      then show ?thesis using IH run None rec Some by simp
    qed (use IH run None ok rec in simp)
  next
    case (Some err)
    then show ?thesis using run e d1 by simp
  qed
qed simp

lemma data_dirs_labels: "mget (data_dirs cfg) dir = Some labels \<Longrightarrow>
    labels \<noteq> [] \<and> (''CACHE_DB_PATH'' \<in> set labels \<longrightarrow> dir = clean_path (dir_name (CacheDBPath cfg)))
    \<and> (''MAPPING_PATH'' \<in> set labels \<longrightarrow> dir = clean_path (dir_name (AnibridgeMappingPath cfg)))"
  and data_dirs_ok: "mwf (data_dirs cfg)"
  by (auto simp: data_dirs_def add_label_def Let_def gm.ok_put gm.ok_emp split: if_splits)

text \<open>Interference that keeps the server well formed and only steps its background tasks.\<close>

definition others_run :: "(string \<Rightarrow> string + anilist_show list) \<Rightarrow> (server \<Rightarrow> server) \<Rightarrow> bool" where
  "others_run decode f \<longleftrightarrow>
     (\<forall>s. (server_ok decode s \<longrightarrow> server_ok decode (f s)) \<and> bg_step\<^sup>*\<^sup>* (sv_background s) (sv_background (f s)))"

definition run_harmless :: "(string \<Rightarrow> string + anilist_show list) \<Rightarrow> run_env \<Rightarrow> bool" where
  "run_harmless decode env \<longleftrightarrow>
     others_run decode (rn_serving env) \<and> others_run decode (rn_stopping env) \<and> others_run decode (rn_waiting env)"

definition live_server :: "(string \<Rightarrow> string + anilist_show list) \<Rightarrow> server \<Rightarrow> bool" where
  "live_server decode s \<longleftrightarrow> server_ok decode s \<and> bg_reach (sv_background s)"

lemma bg_reach_steps: "bg_step\<^sup>*\<^sup>* s s' \<Longrightarrow> bg_reach s \<Longrightarrow> bg_reach s'"
  by (induction rule: rtranclp_induct) (auto intro: bg_reach.bg_more)

lemma live_others: "others_run decode f \<Longrightarrow> live_server decode s \<Longrightarrow> live_server decode (f s)"
  using bg_reach_steps unfolding others_run_def live_server_def by blast

lemma live_background:
  assumes "live_server decode s" "bg_step (sv_background s) (f (sv_background s))"
  shows "live_server decode (on_background f s)"
proof -
  have reach: "bg_reach (f (sv_background s))" using assms by (auto simp: live_server_def intro: bg_reach.bg_more)
  from bg_reach_ok [OF this] assms(1) reach show ?thesis by (simp add: live_server_def server_ok_def on_background_def)
qed

lemma bg_starts: "bg_step b (StartBackground None b)" if "\<not> waitStarted b" for b
  using that by (rule bg_step.start)

lemma serve_result:
  assumes "run_harmless decode env" "live_server decode s" "\<not> waitStarted (sv_background s)"
    and "serve_until_stopped env s = (errs, trace, s')"
  shows "live_server decode s' \<and> (TasksRunning DeadlineExceeded \<in> set errs \<or> waitDone (sv_background s') \<and> tasks (sv_background s') = [])
    \<and> trace = [StartingWorkers, Serving, Cancelling, AwaitingPrewarm, ShuttingDown]
            @ (if rn_shutdown env = None then [] else [ClosingServer]) @ [AwaitingTasks]
    \<and> (errs = [] \<longleftrightarrow> rn_server_err env = None \<and> rn_prewarm_done env \<and> rn_shutdown env = None \<and> waitDone (sv_background s'))"
proof -
  let ?s1 = "rn_serving env (on_background (StartBackground None) s)"
  let ?s2 = "rn_stopping env (on_background (\<lambda>b. b\<lparr>appCtx := Some Canceled\<rparr>) ?s1)"
  let ?s3 = "rn_waiting env (on_background Wait_call ?s2)"
  note H = assms(1) [unfolded run_harmless_def]
  have "live_server decode ?s1"
    using H live_background [of decode s "StartBackground None", OF assms(2) bg_starts [OF assms(3)]] by (blast intro: live_others)
  then have "live_server decode ?s2" using H by (blast intro: live_others live_background bg_step.shutdown)
  then have live: "live_server decode ?s3" using H by (blast intro: live_others live_background bg_step.wait_call)
  have s': "s' = ?s3" using assms(4) by (simp add: serve_until_stopped_def Let_def)
  have "tasks (sv_background ?s3) = []" if "waitDone (sv_background ?s3)"
    using bg_reach_ok [of "sv_background ?s3"] live that by (simp add: live_server_def bg_ok_def)
  then show ?thesis
    using assms(4) live unfolding s'
    by (auto simp: serve_until_stopped_def Let_def Wait_return_def split: option.splits if_splits)
qed

section \<open>Closing the cache\<close>

lemma settle_ok: "mwf p \<Longrightarrow> mwf (settle_pending batch p)"
  unfolding settle_pending_def
proof (induction batch arbitrary: p)
  case (Cons b batch)
  then show ?case by (cases b) (auto simp: gm.ok_del split: option.splits)
qed simp

lemma update_last_hits_ok: "mwf t \<Longrightarrow> mwf (update_last_hits batch t)"
  by (simp add: mwf_def update_last_hits_def comp_def case_prod_beta)

text \<open>The flush of a worker that nobody interferes with.\<close>

lemma quiet_flush:
  assumes "cache_ok dec c"
  shows "cache_ok dec (flushLastHits env (\<lambda>x. x) (\<lambda>x. x) c)"
    and "fst (flush_write env (pendingLastHits c) (year_cache c)) = None \<Longrightarrow>
      mget (pendingLastHits (flushLastHits env (\<lambda>x. x) (\<lambda>x. x) c)) y = None"
    and "lastHitCancelled (flushLastHits env (\<lambda>x. x) (\<lambda>x. x) c) = lastHitCancelled c"
proof -
  let ?b = "pendingLastHits c" and ?f = "flushLastHits env (\<lambda>x. x) (\<lambda>x. x) c"
  obtain err rows where w: "flush_write env ?b (year_cache c) = (err, rows)" by fastforce
  have f: "?f = (if ?b = [] then c else flush_finish ?b err (c\<lparr>year_cache := rows\<rparr>))"
    by (simp add: flushLastHits_def Let_def w)
  have rows: "mwf rows"
    using w cache_okD(2) [OF assms] update_last_hits_ok [of "year_cache c" ?b]
    by (auto simp: flush_write_def Let_def split: option.splits if_splits)
  have "dc_ok dec (decoded ?f)" "mwf (year_cache ?f)" "mwf (seen_mappings ?f)" "mwf (lastHitTimes ?f)" "mwf (pendingLastHits ?f)"
    using cache_okD(1-5) [OF assms] rows settle_ok [of ?b ?b] by (simp_all add: f flush_finish_def gm.ok_emp split: option.splits)
  moreover have "mget (lastHitTimes ?f) y = Some t" if "mget (pendingLastHits ?f) y = Some t" for y t
    using that cache_okD(5,6) [OF assms]
    by (auto simp: f flush_finish_def mget_settle_pending split: option.splits if_splits)
  ultimately show "cache_ok dec ?f" by (simp add: cache_ok_def)
  show "fst (flush_write env (pendingLastHits c) (year_cache c)) = None \<Longrightarrow> mget (pendingLastHits ?f) y = None"
    using cache_okD(5) [OF assms] by (auto simp: w f flush_finish_def mget_settle_pending gm.get_emp split: option.splits)
  show "lastHitCancelled ?f = lastHitCancelled c" by (simp add: f flush_finish_def split: option.splits)
qed

lemma Close_ok:
  assumes "cache_ok dec c"
  shows "\<exists>c'. Close final err c = Some (err, c') \<and> cache_ok dec c' \<and> lastHitCancelled c'
    \<and> (lastHitDone c \<or> fst (flush_write final (pendingLastHits c) (year_cache c)) \<noteq> None
       \<or> (\<forall>y. mget (pendingLastHits c') y = None))"
proof -
  obtain d' where d': "invalidate 0 True True (decoded c) = Some d'" "dc_ok dec d'"
    using invalidate_ok [OF cache_okD(1) [OF assms]] by blast
  let ?c1 = "if lastHitCancelled c then c else c\<lparr>decoded := d', lastHitCancelled := True\<rparr>"
  let ?f = "flushLastHits final (\<lambda>x. x) (\<lambda>x. x) ?c1"
  have c1: "cache_ok dec ?c1" using assms cache_ok_decoded [OF assms d'(2)] by (simp add: cache_ok_def)
  have close: "Close final err c = Some (err, if lastHitDone ?c1 then ?c1 else ?f\<lparr>lastHitDone := True\<rparr>)"
    by (simp add: Close_def d'(1))
  have same: "lastHitCancelled ?c1" "lastHitDone ?c1 = lastHitDone c" "pendingLastHits ?c1 = pendingLastHits c"
    "year_cache ?c1 = year_cache c" by simp_all
  have "cache_ok dec (?f\<lparr>lastHitDone := True\<rparr>)" using quiet_flush(1) [OF c1, of final] by (simp add: cache_ok_def)
  moreover have "lastHitCancelled ?f" using quiet_flush(3) [OF c1, of final] same(1) by simp
  ultimately show ?thesis
    unfolding close using c1 same quiet_flush(2) [OF c1, of final] by auto
qed

section \<open>The run\<close>

definition shutdown_order :: "action list" where
  "shutdown_order = [ValidatingDirs, OpeningCache, LoadingMapping, Listening, StartingWorkers, Serving, Cancelling,
     AwaitingPrewarm, ShuttingDown, ClosingServer, AwaitingTasks, ClosingListener, ClosingCache]"

lemma live_started: "cache_ok (decoder_of decode) c \<Longrightarrow>
    live_server decode \<lparr>sv_cache = c, sv_backoff = new_backoff, sv_background = NewBackground, sv_resolver = r\<rparr>"
  using bg_reach_ok [OF bg_reach.bg_new] by (simp add: live_server_def server_ok_def new_backoff_ok bg_reach.bg_new)

lemma close_deferred_result:
  assumes "live_server decode s"
  shows "\<exists>s'. close_deferred env sc cx errs trace s = Some \<lparr>rr_errs = errs @ (case rn_db_close env of None \<Rightarrow> [] | Some e \<Rightarrow> [CloseCache e]),
      rr_trace = trace @ [ClosingCache], rr_server = Some s',
      rr_log = stop_log sc cx (errs @ (case rn_db_close env of None \<Rightarrow> [] | Some e \<Rightarrow> [CloseCache e]))\<rparr> \<and> live_server decode s' \<and> lastHitCancelled (sv_cache s')
      \<and> sv_background s' = sv_background s"
proof -
  have "cache_ok (decoder_of decode) (sv_cache s)" using assms by (simp add: live_server_def server_ok_def)
  from Close_ok [OF this, of "rn_final env" "rn_db_close env"] obtain c' where
    "Close (rn_final env) (rn_db_close env) (sv_cache s) = Some (rn_db_close env, c')" "cache_ok (decoder_of decode) c'" "lastHitCancelled c'"
    by blast
  then show ?thesis using assms by (simp add: close_deferred_def live_server_def server_ok_def Let_def)
qed

text \<open>A finished run: what closing the cache leaves.\<close>

definition run_ends :: "(string \<Rightarrow> string + anilist_show list) \<Rightarrow> run_result \<Rightarrow> bool" where
  "run_ends decode r \<longleftrightarrow> subseq (rr_trace r) shutdown_order
     \<and> (rr_server r = None \<longleftrightarrow> ClosingCache \<notin> set (rr_trace r)) \<and> (rr_server r = None \<longrightarrow> rr_errs r \<noteq> [])
     \<and> (StartingWorkers \<in> set (rr_trace r) \<longrightarrow>
          {Cancelling, AwaitingPrewarm, ShuttingDown, AwaitingTasks, ClosingListener, ClosingCache} \<subseteq> set (rr_trace r))
     \<and> (\<forall>s. rr_server r = Some s \<longrightarrow> live_server decode s \<and> lastHitCancelled (sv_cache s)
          \<and> (tasks (sv_background s) = [] \<or> TasksRunning DeadlineExceeded \<in> set (rr_errs r)))
     \<and> rr_log r = stop_log (StartingWorkers \<in> set (rr_trace r)) True (rr_errs r)"

lemma close_deferred_ends:
  assumes "live_server decode s" "subseq (trace @ [ClosingCache]) shutdown_order"
    and "StartingWorkers \<in> set trace \<Longrightarrow> {Cancelling, AwaitingPrewarm, ShuttingDown, AwaitingTasks, ClosingListener} \<subseteq> set trace"
    and "tasks (sv_background s) = [] \<or> TasksRunning DeadlineExceeded \<in> set errs"
    and "sc \<longleftrightarrow> StartingWorkers \<in> set trace" "cx \<or> errs \<noteq> []"
  shows "\<exists>r. close_deferred env sc cx errs trace s = Some r \<and> run_ends decode r \<and> (rr_errs r = [] \<longleftrightarrow> errs = [] \<and> rn_db_close env = None)"
proof -
  obtain s' where s': "close_deferred env sc cx errs trace s = Some \<lparr>rr_errs = errs @ (case rn_db_close env of None \<Rightarrow> [] | Some e \<Rightarrow> [CloseCache e]),
      rr_trace = trace @ [ClosingCache], rr_server = Some s',
      rr_log = stop_log sc cx (errs @ (case rn_db_close env of None \<Rightarrow> [] | Some e \<Rightarrow> [CloseCache e]))\<rparr>" "live_server decode s'" "lastHitCancelled (sv_cache s')"
      "sv_background s' = sv_background s"
    using close_deferred_result [OF assms(1), of env sc cx errs trace] by blast
  then show ?thesis using assms(2-6) by (auto simp: run_ends_def stop_log_def split: option.splits)
qed

lemma run_result:
  assumes "files_ok files" "run_harmless decode env"
  shows "\<exists>r. runContext cd tmp env cfg files d = Some r \<and> run_ends decode r
    \<and> (rr_errs r = [] \<longrightarrow> rn_db_close env = None \<and> (rn_cancelled env
         \<or> rn_listen env = None \<and> rn_server_err env = None \<and> rn_prewarm_done env \<and> rn_shutdown env = None))"
proof -
  obtain e d1 where dirs: "validateRuntimeDataDirs (rn_probe env) (rn_visit env) (Some cfg) d = (e, d1)" by fastforce
  obtain oc db where opened: "Open tmp (rn_open env) files (CacheDBPath cfg) = (oc, db)" by fastforce
  show ?thesis
  proof (cases "e = None \<and> \<not> isl oc")
    case False
    then show ?thesis using dirs opened
      by (cases e; cases oc) (auto simp: runContext_def run_ends_def shutdown_order_def stop_log_def)
  next
    case True
    then obtain c where c: "oc = Inr c" by (cases oc) auto
    obtain err st resolver where load: "loadResolver cd (rn_gate env) (rn_after env) (rn_load env) cfg ((None, d1), NewResolver)
        = (err, (st, resolver))" by (metis prod_cases3)
    let ?s = "\<lparr>sv_cache = c, sv_backoff = new_backoff, sv_background = NewBackground, sv_resolver = resolver\<rparr>"
    have "cache_ok (decoder_of decode) c"
      using Open_result [OF assms(1), where tmp = tmp and env = "rn_open env" and path = "CacheDBPath cfg" and dec = "decoder_of decode"] opened c
      by simp
    then have live: "live_server decode ?s" by (rule live_started)
    let ?pre = "[ValidatingDirs, OpeningCache, LoadingMapping]"
    have run: "runContext cd tmp env cfg files d = (if rn_cancelled env then close_deferred env False True [] ?pre ?s
        else (case rn_listen env of
            Some e \<Rightarrow> close_deferred env False False [ListenFailed e] (?pre @ [Listening]) ?s
          | None \<Rightarrow> (case serve_until_stopped env ?s of
              (errs, trace, s1) \<Rightarrow> close_deferred env True True errs (?pre @ Listening # trace @ [ClosingListener]) s1)))"
      using True dirs opened c load by (simp add: runContext_def Let_def)
    obtain errs trace s1 where served: "serve_until_stopped env ?s = (errs, trace, s1)" by (metis prod_cases3)
    have "\<not> waitStarted (sv_background ?s)" by (simp add: NewBackground_def)
    note S = serve_result [OF assms(2) live this served]
    have early: "\<exists>r. close_deferred env False cx es (?pre @ more) ?s = Some r \<and> run_ends decode r \<and> (rr_errs r = [] \<longleftrightarrow> es = [] \<and> rn_db_close env = None)"
      if "more = [] \<or> more = [Listening]" "cx \<or> es \<noteq> []" for cx es more
      using that by (intro close_deferred_ends [OF live]) (auto simp: shutdown_order_def NewBackground_def)
    have late: "\<exists>r. close_deferred env True True errs (?pre @ Listening # trace @ [ClosingListener]) s1 = Some r \<and> run_ends decode r
        \<and> (rr_errs r = [] \<longleftrightarrow> errs = [] \<and> rn_db_close env = None)"
      using S by (intro close_deferred_ends) (auto simp: shutdown_order_def split: if_splits)
    consider "rn_cancelled env" | e where "\<not> rn_cancelled env" "rn_listen env = Some e"
      | "\<not> rn_cancelled env" "rn_listen env = None"
      by (cases "rn_listen env") blast+
    then show ?thesis
    proof cases
      case 1
      then show ?thesis using early [of "[]" True "[]"] unfolding run by auto
    next
      case 2
      then show ?thesis using early [of "[Listening]" False "[ListenFailed e]"] unfolding run by auto
    next
      case 3
      have "errs = [] \<longrightarrow> rn_server_err env = None \<and> rn_prewarm_done env \<and> rn_shutdown env = None" using S by blast
      with 3 late show ?thesis unfolding run by (simp add: served) blast
    qed
  qed
qed

section \<open>A sample\<close>

definition sample_probe :: probe_env where
  "sample_probe = \<lparr>pe_stat = None, pe_read = None, pe_create = None, pe_random = ''1'', pe_write = None, pe_close = None,
     pe_remove = None\<rparr>"

definition sample_paths :: config where
  "sample_paths = sample_config\<lparr>CacheDBPath := ''/data/c.db'', AnibridgeMappingPath := ''/data/m'', AnibridgeURL := ''u''\<rparr>"

definition sample_disk :: disk where
  "sample_disk = [(''/data'', Directory), (''/data/m'', File ''z'')]"

text \<open>The server is asked to stop at once; the workers do not end in time.\<close>

definition sample_run :: run_env where
  "sample_run =
     (let good = \<lparr>fails = \<lambda>_. None, waits = \<lambda>_. None\<rparr> in
      \<lparr>rn_probe = \<lambda>_. sample_probe, rn_visit = [''/data''],
       rn_open = \<lparr>op_sql = None, op_wal = good, op_timeout = good, op_synchronous = good, op_autocheckpoint = good,
                  op_years = good, op_seen = good, op_count = good, op_checkpoint = good, op_ping = None\<rparr>,
       rn_gate = None, rn_after = None, rn_load = sample_load, rn_cancelled = False, rn_listen = None,
       rn_serving = \<lambda>s. s, rn_server_err = None, rn_stopping = \<lambda>s. s, rn_prewarm_done = True, rn_shutdown = None,
       rn_close = None, rn_waiting = \<lambda>s. s,
       rn_final = \<lparr>conn_err = None, pragma_err = None, update_err = None, reset_err = None, close_err = None\<rparr>,
       rn_db_close = None\<rparr>)"

lemma sample_dirs: "data_dirs sample_paths = [(''/data'', [''CACHE_DB_PATH'', ''MAPPING_PATH''])]"
proof -
  have "clean_path (dir_name ''/data/c.db'') = ''/data''" "clean_path (dir_name ''/data/m'') = ''/data''" by code_simp+
  then show ?thesis by (simp add: data_dirs_def add_label_def sample_paths_def mput_def mget_def)
qed

lemma sample_probe_name: "mget sample_disk (probe_name sample_probe dir) = None"
proof -
  have "CHR ''-'' \<in> set (probe_name sample_probe dir)" by (simp add: probe_name_def)
  then show ?thesis by (auto simp: sample_disk_def mget_def)
qed

lemma sample_harmless: "run_harmless decode sample_run"
  by (simp add: run_harmless_def others_run_def sample_run_def Let_def)

section \<open>Properties\<close>

text \<open>
  The startup check succeeds exactly if every directory that is to hold the database or the mapping exists and
  can be listed and written, and then leaves the disk as it was; otherwise it names a directory that fails, with the
  variables that ask for it, and at most the probe that could not be removed is left behind.
\<close>

lemma runtime_dirs_checked:
  assumes "\<And>dir. mget d (probe_name (pe dir) dir) = None" "set visit = set (mkeys (data_dirs cfg))"
  shows "case validateRuntimeDataDirs pe visit (Some cfg) d of
      (None, d1) \<Rightarrow> (\<forall>dir \<in> set (mkeys (data_dirs cfg)). probe_ok (pe dir) dir d) \<and> (\<forall>k. mget d1 k = mget d k)
    | (Some (labels, dir, e), d1) \<Rightarrow> \<not> probe_ok (pe dir) dir d \<and> mget (data_dirs cfg) dir = Some labels
        \<and> labels \<noteq> [] \<and> (''CACHE_DB_PATH'' \<in> set labels \<longrightarrow> dir = clean_path (dir_name (CacheDBPath cfg)))
        \<and> (''MAPPING_PATH'' \<in> set labels \<longrightarrow> dir = clean_path (dir_name (AnibridgeMappingPath cfg)))
        \<and> (\<forall>k. mget d1 k = mget d k \<or> k = probe_name (pe dir) dir \<and> pe_remove (pe dir) \<noteq> None)"
proof -
  obtain r d1 where run: "validate_dirs pe (data_dirs cfg) visit d = (r, d1)" by fastforce
  note R = validate_dirs_result [where d = d and pe = pe and dirs = "data_dirs cfg" and visit = visit, OF assms(1) refl]
  show ?thesis
  proof (cases r)
    case None
    then show ?thesis using R run assms(2) by (simp add: validateRuntimeDataDirs_def)
  next
    case (Some x)
    obtain labels dir e where x: "x = (labels, dir, e)" by (cases x)
    have fact: "dir \<in> set visit" "fst (validateRuntimeDataDir (pe dir) dir d) = Some e"
      "labels = (case mget (data_dirs cfg) dir of None \<Rightarrow> [] | Some labels \<Rightarrow> labels)"
      "\<forall>k. mget d1 k = mget d k \<or> k = probe_name (pe dir) dir \<and> pe_remove (pe dir) \<noteq> None"
      using R run Some x by simp_all
    have "mget (data_dirs cfg) dir \<noteq> None" using fact(1) assms(2) data_dirs_ok [of cfg] by (simp add: gm.keys_get)
    then have labels: "mget (data_dirs cfg) dir = Some labels" using fact(3) by auto
    have "\<not> probe_ok (pe dir) dir d" using fact(2) probe_result [of "pe dir" dir d] by simp
    with labels data_dirs_labels [OF labels] fact(4) show ?thesis
      unfolding validateRuntimeDataDirs_def option.case run Some x prod.case by (intro conjI) blast+
  qed
qed

lemma runtime_dirs_checked_witness:
  "\<exists>d1. validateRuntimeDataDirs (\<lambda>_. sample_probe) [''/data''] (Some sample_paths) sample_disk = (None, d1)
    \<and> (\<forall>k. mget d1 k = mget sample_disk k)"
proof -
  have "\<exists>d1. validateRuntimeDataDirs (\<lambda>_. sample_probe) [''/data''] (Some sample_paths) sample_disk = (None, d1)"
    by (simp add: validateRuntimeDataDirs_def validateRuntimeDataDir_def sample_probe_def sample_disk_def mget_def Let_def)
  moreover have "set [''/data''] = set (mkeys (data_dirs sample_paths))" by (simp add: sample_dirs mkeys_def)
  ultimately show ?thesis
    using runtime_dirs_checked [where pe = "\<lambda>_. sample_probe" and visit = "[''/data'']" and cfg = sample_paths, OF sample_probe_name]
    by fastforce
qed

text \<open>
  Claim C16. Whatever the requests and the other goroutines do, a run ends without a panic and passes its stages in the
  order of the code: once the workers are started, it cancels the context, waits for the prewarm, shuts the server
  down and waits for the tasks before it closes the listener and last the cache, which is closed exactly if it was
  opened; then no task is running unless the error of \<open>Wait\<close> is reported. A run without an error met none, and the last log line says so or
  whether it was the startup or the service that failed.
\<close>

theorem runContext_stops:
  assumes "files_ok files" "run_harmless decode env"
  shows "\<exists>r. runContext cd tmp env cfg files d = Some r \<and> subseq (rr_trace r) shutdown_order
    \<and> (rr_server r = None \<longleftrightarrow> ClosingCache \<notin> set (rr_trace r)) \<and> (rr_server r = None \<longrightarrow> rr_errs r \<noteq> [])
    \<and> (StartingWorkers \<in> set (rr_trace r) \<longrightarrow>
         {Cancelling, AwaitingPrewarm, ShuttingDown, AwaitingTasks, ClosingListener, ClosingCache} \<subseteq> set (rr_trace r))
    \<and> (\<forall>s. rr_server r = Some s \<longrightarrow> server_ok decode s \<and> lastHitCancelled (sv_cache s)
         \<and> (tasks (sv_background s) = [] \<or> TasksRunning DeadlineExceeded \<in> set (rr_errs r)))
    \<and> rr_log r = stop_log (StartingWorkers \<in> set (rr_trace r)) True (rr_errs r)
    \<and> (rr_errs r = [] \<longrightarrow> rn_db_close env = None \<and> (rn_cancelled env
         \<or> rn_listen env = None \<and> rn_server_err env = None \<and> rn_prewarm_done env \<and> rn_shutdown env = None))"
proof -
  obtain r where "runContext cd tmp env cfg files d = Some r" and ends: "run_ends decode r"
    and none: "rr_errs r = [] \<longrightarrow> rn_db_close env = None \<and> (rn_cancelled env
         \<or> rn_listen env = None \<and> rn_server_err env = None \<and> rn_prewarm_done env \<and> rn_shutdown env = None)"
    using run_result [OF assms, of cd tmp cfg d] by blast
  then show ?thesis
    using ends [unfolded run_ends_def live_server_def] by (intro exI [of _ r] conjI) simp_all
qed

lemma runContext_stops_witness:
  "\<exists>r. runContext sample_codecs ''/tmp'' sample_run sample_paths [] sample_disk = Some r \<and> subseq (rr_trace r) shutdown_order"
proof -
  have "files_ok []" by (simp add: files_ok_def mget_def)
  from runContext_stops [OF this sample_harmless [of "\<lambda>_. Inr []"], of sample_codecs "''/tmp''" sample_paths sample_disk]
  show ?thesis by blast
qed

text \<open>
  The health check of the container agrees with the server: against a server that answers, it succeeds exactly
  when the cache can be read and a mapping is loaded.
\<close>

lemma healthcheck_agrees:
  assumes "mwf (year_cache (sv_cache s))" "rq_Method rq = ''GET''" "rq_Path rq = ''/health''"
    and "serve (server_routes cfg env db ping) ms None rq s = Some (w, log, s')"
    and "get (''http://127.0.0.1:'' @ fmt_d (Port cfg) @ ''/health'') = Inr (case sent_status w of Some code \<Rightarrow> code | None \<Rightarrow> 200)"
  shows "runHealthcheck get cfg = None \<longleftrightarrow>
    (if PrewarmYears cfg = [] then ping = None else env_error db = None) \<and> sv_resolver s \<noteq> None"
proof -
  obtain w' h where run: "handleHealth db ping (PrewarmYears cfg) rq (new_writer None) no_metadata s = (False, w', no_metadata, s)"
    and st: "sent_status w' = Some (if (if PrewarmYears cfg = [] then ping = None else env_error db = None) \<and> sv_resolver s \<noteq> None
        then 200 else 503)"
    using health_result [OF assms(1) new_writer_ok(1), where rq = rq and years = "PrewarmYears cfg" and ping = ping and db = db and m = no_metadata] assms(2)
    by (auto simp: new_writer_def)
  have "w = w'"
    using assms(3,4) run by (simp add: serve_def loggingMiddleware_def recoveryMiddleware_def mux_def server_routes_def Let_def)
  then show ?thesis using st assms(5) by (simp add: runHealthcheck_def)
qed

lemma healthcheck_agrees_witness:
  "\<exists>w log s'. serve (server_routes sample_config sample_list (pk_db sample_peek) None) 3 None (sample_request ''GET'' ''/health'') sample_server
      = Some (w, log, s')
    \<and> runHealthcheck (\<lambda>_. Inr (case sent_status w of Some code \<Rightarrow> code | None \<Rightarrow> 200)) sample_config = None"
proof -
  have ok: "mwf (year_cache (sv_cache sample_server))" "rq_Method (sample_request ''GET'' ''/health'') = ''GET''"
    "rq_Path (sample_request ''GET'' ''/health'') = ''/health''"
    by (simp_all add: sample_server_def openCacheDB_def mwf_def sample_request_def)
  obtain w log s' where run: "serve (server_routes sample_config sample_list (pk_db sample_peek) None) 3 None
      (sample_request ''GET'' ''/health'') sample_server = Some (w, log, s')"
    using web.served [OF impI [OF sample_ok(1)], of sample_config "pk_db sample_peek" None 3 None "sample_request ''GET'' ''/health''"]
    by blast
  have "env_error (pk_db sample_peek) = None" "sv_resolver sample_server \<noteq> None"
    by (simp_all add: sample_peek_def sample_server_def env_error_def env_error_from.simps)
  with run healthcheck_agrees [OF ok run, of "\<lambda>_. Inr (case sent_status w of Some code \<Rightarrow> code | None \<Rightarrow> 200)"] show ?thesis by auto
qed

end
