(* ===== verification/Json_Struct.thy ===== *)
theory Json_Struct
  imports Json_Codec
begin

text \<open>
  Structs as \<open>encoding/json\<close> writes and reads them. \<open>json.Unmarshal\<close> into a struct takes the field whose
  name is the key, or else equals it up to case, ignores other keys, leaves a value alone on null (a pointer becomes nil),
  and lets a later member change what an earlier one set. Of a slice that a repeated key shortens the elements beyond the
  new length are forgotten here, while Go would meet them again if a third member lengthened it. Keys are compared up to
  the case of ASCII letters.
\<close>

section \<open>Writing\<close>

definition json_int :: "int \<Rightarrow> json" where
  "json_int n = JNum (fmt_d n)"

definition json_opt :: "('a \<Rightarrow> json) \<Rightarrow> 'a option \<Rightarrow> json" where
  "json_opt f x = (case x of None \<Rightarrow> JNull | Some v \<Rightarrow> f v)"

text \<open>A slice; an empty one is written as null exactly if it is nil.\<close>

definition json_list :: "bool \<Rightarrow> ('a \<Rightarrow> json) \<Rightarrow> 'a list \<Rightarrow> json" where
  "json_list nil f xs = (if xs = [] \<and> nil then JNull else JArr (map f xs))"

section \<open>Reading\<close>

type_synonym 'a setter = "json \<Rightarrow> 'a \<Rightarrow> string + 'a"

definition type_error :: "string + 'a" where
  "type_error = Inl ''json: cannot unmarshal''"

definition set_int :: "int setter" where
  "set_int v old =
     (case v of
        JNum n \<Rightarrow> (case atoi n of Some i \<Rightarrow> Inr i | None \<Rightarrow> type_error)
      | JNull \<Rightarrow> Inr old
      | _ \<Rightarrow> type_error)"

definition set_string :: "string setter" where
  "set_string v old = (case v of JStr s \<Rightarrow> Inr s | JNull \<Rightarrow> Inr old | _ \<Rightarrow> type_error)"

definition set_pointer :: "'a setter \<Rightarrow> 'a \<Rightarrow> 'a option setter" where
  "set_pointer f zero v old =
     (case v of
        JNull \<Rightarrow> Inr None
      | _ \<Rightarrow> (case f v (case old of None \<Rightarrow> zero | Some x \<Rightarrow> x) of Inl e \<Rightarrow> Inl e | Inr x \<Rightarrow> Inr (Some x)))"

text \<open>The elements of an array are read into those the slice has, which keep what the array does not set.\<close>

fun set_elements :: "'a setter \<Rightarrow> 'a \<Rightarrow> 'a list \<Rightarrow> json list \<Rightarrow> string + 'a list" where
  "set_elements f zero olds [] = Inr []"
| "set_elements f zero olds (v # vs) =
     (case f v (if olds = [] then zero else hd olds) of
        Inl e \<Rightarrow> Inl e
      | Inr x \<Rightarrow> (case set_elements f zero (tl olds) vs of Inl e \<Rightarrow> Inl e | Inr xs \<Rightarrow> Inr (x # xs)))"

definition set_slice :: "'a setter \<Rightarrow> 'a \<Rightarrow> 'a list setter" where
  "set_slice f zero v old =
     (case v of JArr vs \<Rightarrow> set_elements f zero old vs | JNull \<Rightarrow> Inr [] | _ \<Rightarrow> type_error)"

definition find_field :: "(string \<times> 'a setter) list \<Rightarrow> string \<Rightarrow> 'a setter option" where
  "find_field fs k =
     (case map_of fs k of
        Some f \<Rightarrow> Some f
      | None \<Rightarrow> map_option snd (List.find (\<lambda>(name, f). equal_fold name k) fs))"

fun set_members :: "(string \<times> 'a setter) list \<Rightarrow> (string \<times> json) list \<Rightarrow> 'a \<Rightarrow> string + 'a" where
  "set_members fs [] x = Inr x"
| "set_members fs ((k, v) # kvs) x =
     (case find_field fs k of
        None \<Rightarrow> set_members fs kvs x
      | Some f \<Rightarrow> (case f v x of Inl e \<Rightarrow> Inl e | Inr y \<Rightarrow> set_members fs kvs y))"

definition set_struct :: "(string \<times> 'a setter) list \<Rightarrow> 'a setter" where
  "set_struct fs v old =
     (case v of JObj kvs \<Rightarrow> set_members fs kvs old | JNull \<Rightarrow> Inr old | _ \<Rightarrow> type_error)"

definition at_field :: "('r \<Rightarrow> 'a) \<Rightarrow> ('a \<Rightarrow> 'r \<Rightarrow> 'r) \<Rightarrow> 'a setter \<Rightarrow> 'r setter" where
  "at_field get put f v r = (case f v (get r) of Inl e \<Rightarrow> Inl e | Inr x \<Rightarrow> Inr (put x r))"

section \<open>What a codec promises\<close>

text \<open>Reading what was written into a zero value gives the value with its strings cleaned.\<close>

locale codec =
  fixes enc :: "'a \<Rightarrow> json" and dec :: "'a setter" and zero :: 'a
    and ok :: "'a \<Rightarrow> bool" and clean :: "'a \<Rightarrow> 'a" and height :: nat
  assumes dec_enc: "ok x \<Longrightarrow> dec (json_clean (enc x)) zero = Inr (clean x)"
    and numbers: "numbers_ok (enc x)"
    and not_null: "json_clean (enc x) \<noteq> JNull"
    and depth_le: "depth (enc x) \<le> height"
begin

lemma elements: "list_all ok xs \<Longrightarrow> set_elements dec zero [] (map (\<lambda>x. json_clean (enc x)) xs) = Inr (map clean xs)"
  by (induction xs) (auto simp: dec_enc)

lemma slice: "list_all ok xs \<Longrightarrow> set_slice dec zero (json_clean (json_list nil enc xs)) [] = Inr (map clean xs)"
  using elements [of xs] by (auto simp: set_slice_def json_list_def comp_def)

lemma pointer:
  "pred_option ok x \<Longrightarrow> set_pointer dec zero (json_clean (json_opt enc x)) None = Inr (map_option clean x)"
proof (cases x)
  case (Some a)
  assume "pred_option ok x"
  then show ?thesis
    using Some not_null [of a] dec_enc [of a] by (cases "json_clean (enc a)") (auto simp: set_pointer_def json_opt_def)
qed (simp add: set_pointer_def json_opt_def)

lemma list_numbers: "numbers_ok (json_list nil enc xs)"
  by (auto simp: json_list_def list_all_iff numbers)

lemma opt_numbers: "numbers_ok (json_opt enc x)"
  by (auto simp: json_opt_def numbers split: option.splits)

lemma list_depth: "depth (json_list nil enc xs) \<le> Suc height"
proof -
  have "foldr max (map (\<lambda>x. depth (enc x)) xs) 0 \<le> height" by (induction xs) (auto simp: depth_le)
  then show ?thesis by (auto simp: json_list_def comp_def)
qed

lemma opt_depth: "depth (json_opt enc x) \<le> height"
  by (auto simp: json_opt_def depth_le split: option.splits)

end

interpretation ints: codec json_int set_int 0 in_int64 "\<lambda>n. n" 0
  by unfold_locales (auto simp: json_int_def set_int_def atoi_fmt_d integer_number)

interpretation strings: codec JStr set_string "[]" "\<lambda>_. True" utf8_clean 0
  by unfold_locales (auto simp: set_string_def)

lemma find_field_known: "map_of fs k = Some f \<Longrightarrow> find_field fs k = Some f"
  by (simp add: find_field_def)

end
