(* ===== verification/Data_Codec.thy ===== *)
theory Data_Codec
  imports Json_Struct Http_Server
begin

text \<open>
  The JSON of the program's data: the shows of a year as the cache stores them, with the field names of the structs of
  \<open>internal/anilist/anilist.go\<close>, and the bodies of the responses.
\<close>

section \<open>Writing\<close>

definition title_json :: "show_title \<Rightarrow> json" where
  "title_json t = JObj [(''english'', json_opt JStr (English t)), (''romaji'', json_opt JStr (Romaji t))]"

definition date_json :: "fuzzy_date \<Rightarrow> json" where
  "date_json d = JObj [(''year'', json_opt json_int (fd_Year d)), (''month'', json_opt json_int (fd_Month d)),
     (''day'', json_opt json_int (fd_Day d))]"

definition tag_json :: "tag \<Rightarrow> json" where
  "tag_json t = JObj [(''name'', JStr (tag_Name t))]"

definition edge_json :: "relation_edge \<Rightarrow> json" where
  "edge_json e = JObj [(''relationType'', JStr (RelationType e))]"

definition relations_json :: "bool \<Rightarrow> relation_block \<Rightarrow> json" where
  "relations_json nil r = JObj [(''edges'', json_list nil edge_json (Edges r))]"

text \<open>Of each show, whether its empty tags and its empty edges are nil.\<close>

definition show_json :: "(anilist_show \<Rightarrow> bool \<times> bool) \<Rightarrow> anilist_show \<Rightarrow> json" where
  "show_json nil s = JObj
     ([(''id'', json_int (sh_ID s)), (''idMal'', json_opt json_int (sh_IDMal s)), (''title'', title_json (sh_Title s)),
       (''format'', JStr (sh_Format s)), (''duration'', json_opt json_int (sh_Duration s)),
       (''tags'', json_list (fst (nil s)) tag_json (sh_Tags s)), (''season'', JStr (sh_Season s)),
       (''startDate'', date_json (sh_StartDate s))]
      @ (case sh_Relations s of None \<Rightarrow> [] | Some r \<Rightarrow> [(''relations'', relations_json (snd (nil s)) r)]))"

definition marshal_year :: "(anilist_show \<Rightarrow> bool \<times> bool) \<Rightarrow> anilist_show list option \<Rightarrow> string + string" where
  "marshal_year nil shs = Inr (json_text (case shs of None \<Rightarrow> JNull | Some l \<Rightarrow> JArr (map (show_json nil) l)))"

section \<open>Reading\<close>

definition set_title :: "show_title setter" where
  "set_title = set_struct
     [(''english'', at_field English (\<lambda>x r. r\<lparr>English := x\<rparr>) (set_pointer set_string [])),
      (''romaji'', at_field Romaji (\<lambda>x r. r\<lparr>Romaji := x\<rparr>) (set_pointer set_string []))]"

definition set_date :: "fuzzy_date setter" where
  "set_date = set_struct
     [(''year'', at_field fd_Year (\<lambda>x r. r\<lparr>fd_Year := x\<rparr>) (set_pointer set_int 0)),
      (''month'', at_field fd_Month (\<lambda>x r. r\<lparr>fd_Month := x\<rparr>) (set_pointer set_int 0)),
      (''day'', at_field fd_Day (\<lambda>x r. r\<lparr>fd_Day := x\<rparr>) (set_pointer set_int 0))]"

definition set_tag :: "tag setter" where
  "set_tag = set_struct [(''name'', at_field tag_Name (\<lambda>x r. r\<lparr>tag_Name := x\<rparr>) set_string)]"

definition set_edge :: "relation_edge setter" where
  "set_edge = set_struct [(''relationType'', at_field RelationType (\<lambda>x r. r\<lparr>RelationType := x\<rparr>) set_string)]"

definition set_relations :: "relation_block setter" where
  "set_relations = set_struct
     [(''edges'', at_field Edges (\<lambda>x r. r\<lparr>Edges := x\<rparr>) (set_slice set_edge \<lparr>RelationType = []\<rparr>))]"

definition zero_show :: anilist_show where
  "zero_show = \<lparr>sh_ID = 0, sh_IDMal = None, sh_Title = \<lparr>English = None, Romaji = None\<rparr>, sh_Format = [], sh_Duration = None,
     sh_Tags = [], sh_Season = [], sh_StartDate = \<lparr>fd_Year = None, fd_Month = None, fd_Day = None\<rparr>, sh_Relations = None\<rparr>"

definition set_show :: "anilist_show setter" where
  "set_show = set_struct
     [(''id'', at_field sh_ID (\<lambda>x r. r\<lparr>sh_ID := x\<rparr>) set_int),
      (''idMal'', at_field sh_IDMal (\<lambda>x r. r\<lparr>sh_IDMal := x\<rparr>) (set_pointer set_int 0)),
      (''title'', at_field sh_Title (\<lambda>x r. r\<lparr>sh_Title := x\<rparr>) set_title),
      (''format'', at_field sh_Format (\<lambda>x r. r\<lparr>sh_Format := x\<rparr>) set_string),
      (''duration'', at_field sh_Duration (\<lambda>x r. r\<lparr>sh_Duration := x\<rparr>) (set_pointer set_int 0)),
      (''tags'', at_field sh_Tags (\<lambda>x r. r\<lparr>sh_Tags := x\<rparr>) (set_slice set_tag \<lparr>tag_Name = []\<rparr>)),
      (''season'', at_field sh_Season (\<lambda>x r. r\<lparr>sh_Season := x\<rparr>) set_string),
      (''startDate'', at_field sh_StartDate (\<lambda>x r. r\<lparr>sh_StartDate := x\<rparr>) set_date),
      (''relations'', at_field sh_Relations (\<lambda>x r. r\<lparr>sh_Relations := x\<rparr>) (set_pointer set_relations \<lparr>Edges = []\<rparr>))]"

definition unmarshal_year :: "string \<Rightarrow> string + anilist_show list" where
  "unmarshal_year s =
     (case read_json s of None \<Rightarrow> Inl ''invalid JSON'' | Some v \<Rightarrow> set_slice set_show zero_show v [])"

section \<open>What is read back\<close>

text \<open>The names of the fields are ASCII.\<close>

lemma names_clean [simp]:
  "utf8_clean ''english'' = ''english''" "utf8_clean ''romaji'' = ''romaji''" "utf8_clean ''year'' = ''year''"
  "utf8_clean ''month'' = ''month''" "utf8_clean ''day'' = ''day''" "utf8_clean ''name'' = ''name''"
  "utf8_clean ''relationType'' = ''relationType''" "utf8_clean ''edges'' = ''edges''" "utf8_clean ''id'' = ''id''"
  "utf8_clean ''idMal'' = ''idMal''" "utf8_clean ''title'' = ''title''" "utf8_clean ''format'' = ''format''"
  "utf8_clean ''duration'' = ''duration''" "utf8_clean ''tags'' = ''tags''" "utf8_clean ''season'' = ''season''"
  "utf8_clean ''startDate'' = ''startDate''" "utf8_clean ''relations'' = ''relations''"
  by (simp_all add: utf8_clean_ascii)

lemma tag_codec: "set_tag (json_clean (tag_json t)) \<lparr>tag_Name = []\<rparr> = Inr \<lparr>tag_Name = utf8_clean (tag_Name t)\<rparr>"
  by (simp add: set_tag_def tag_json_def set_struct_def find_field_known at_field_def set_string_def)

interpretation tags: codec tag_json set_tag "\<lparr>tag_Name = []\<rparr>" "\<lambda>_. True" "\<lambda>t. \<lparr>tag_Name = utf8_clean (tag_Name t)\<rparr>" 1
  by unfold_locales (auto simp: tag_codec, auto simp: tag_json_def)

interpretation edges: codec edge_json set_edge "\<lparr>RelationType = []\<rparr>" "\<lambda>_. True"
  "\<lambda>e. \<lparr>RelationType = utf8_clean (RelationType e)\<rparr>" 1
  by unfold_locales
    (auto simp: edge_json_def set_edge_def set_struct_def find_field_known at_field_def set_string_def)

definition clean_title :: "show_title \<Rightarrow> show_title" where
  "clean_title t = \<lparr>English = map_option utf8_clean (English t), Romaji = map_option utf8_clean (Romaji t)\<rparr>"

interpretation titles: codec title_json set_title "\<lparr>English = None, Romaji = None\<rparr>" "\<lambda>_. True" clean_title 1
proof unfold_locales
  fix t :: show_title
  show "set_title (json_clean (title_json t)) \<lparr>English = None, Romaji = None\<rparr> = Inr (clean_title t)"
    using strings.pointer [of "English t"] strings.pointer [of "Romaji t"]
    by (simp add: set_title_def title_json_def set_struct_def find_field_known at_field_def clean_title_def option.pred_True)
qed (use strings.opt_depth in \<open>auto simp: title_json_def strings.opt_numbers\<close>)

definition date_ok :: "fuzzy_date \<Rightarrow> bool" where
  "date_ok d \<longleftrightarrow> pred_option in_int64 (fd_Year d) \<and> pred_option in_int64 (fd_Month d) \<and> pred_option in_int64 (fd_Day d)"

interpretation dates: codec date_json set_date "\<lparr>fd_Year = None, fd_Month = None, fd_Day = None\<rparr>" date_ok "\<lambda>d. d" 1
proof unfold_locales
  fix d assume "date_ok d"
  then show "set_date (json_clean (date_json d)) \<lparr>fd_Year = None, fd_Month = None, fd_Day = None\<rparr> = Inr d"
    using ints.pointer [of "fd_Year d"] ints.pointer [of "fd_Month d"] ints.pointer [of "fd_Day d"]
    by (cases d) (simp add: set_date_def date_json_def set_struct_def find_field_known at_field_def date_ok_def option.map_ident)
qed (use ints.opt_depth in \<open>auto simp: date_json_def ints.opt_numbers\<close>)

definition clean_relations :: "relation_block \<Rightarrow> relation_block" where
  "clean_relations r = \<lparr>Edges = map (\<lambda>e. \<lparr>RelationType = utf8_clean (RelationType e)\<rparr>) (Edges r)\<rparr>"

interpretation relations: codec "relations_json nil" set_relations "\<lparr>Edges = []\<rparr>" "\<lambda>_. True" clean_relations 3
  for nil
proof unfold_locales
  fix r
  show "set_relations (json_clean (relations_json nil r)) \<lparr>Edges = []\<rparr> = Inr (clean_relations r)"
    using edges.slice [of "Edges r" nil]
    by (simp add: set_relations_def relations_json_def set_struct_def find_field_known at_field_def clean_relations_def
        list_all_iff)
qed (use edges.list_depth [of nil] in \<open>auto simp: relations_json_def edges.list_numbers numeral_eq_Suc\<close>)

text \<open>The integers of a show fit a machine word; \<open>clean_show\<close> cleans every string of it.\<close>

definition show_ok :: "anilist_show \<Rightarrow> bool" where
  "show_ok s \<longleftrightarrow> in_int64 (sh_ID s) \<and> pred_option in_int64 (sh_IDMal s) \<and> pred_option in_int64 (sh_Duration s)
     \<and> date_ok (sh_StartDate s)"

definition clean_show :: "anilist_show \<Rightarrow> anilist_show" where
  "clean_show s = s\<lparr>sh_Title := clean_title (sh_Title s), sh_Format := utf8_clean (sh_Format s),
     sh_Tags := map (\<lambda>t. \<lparr>tag_Name = utf8_clean (tag_Name t)\<rparr>) (sh_Tags s), sh_Season := utf8_clean (sh_Season s),
     sh_Relations := map_option clean_relations (sh_Relations s)\<rparr>"

lemma show_codec:
  assumes "show_ok s"
  shows "set_show (json_clean (show_json nil s)) zero_show = Inr (clean_show s)"
proof -
  note facts = ints.dec_enc [of "sh_ID s"] ints.pointer [of "sh_IDMal s"] titles.dec_enc [of "sh_Title s"]
    ints.pointer [of "sh_Duration s"] tags.slice [of "sh_Tags s" "fst (nil s)"] dates.dec_enc [of "sh_StartDate s"]
    strings.dec_enc [of "sh_Format s"] strings.dec_enc [of "sh_Season s"]
  have rel: "set_pointer set_relations \<lparr>Edges = []\<rparr> (json_clean (relations_json (snd (nil s)) r)) None = Inr (Some (clean_relations r))" for r
    using relations.pointer [of "Some r" "snd (nil s)"] by (simp add: json_opt_def)
  show ?thesis
    using facts rel assms
    by (cases s; cases "sh_Relations s")
      (simp_all add: set_show_def show_json_def set_struct_def find_field_known at_field_def zero_show_def clean_show_def
        show_ok_def list_all_iff option.map_ident)
qed

interpretation anime: codec "show_json nil" set_show zero_show show_ok clean_show 4 for nil
proof unfold_locales
  fix s show "depth (show_json nil s) \<le> 4"
    using ints.opt_depth titles.depth_le [of "sh_Title s"] tags.list_depth [of "fst (nil s)" "sh_Tags s"] dates.depth_le [of "sh_StartDate s"]
      relations.depth_le [of "snd (nil s)"] by (auto simp: show_json_def ints.depth_le [simplified] split: option.splits)
next
  fix s show "numbers_ok (show_json nil s)"
    by (auto simp: show_json_def ints.numbers ints.opt_numbers titles.numbers tags.list_numbers dates.numbers relations.numbers
        split: option.splits)
qed (auto simp: show_codec, auto simp: show_json_def)

section \<open>The data of a year\<close>

lemma year_text_depth: "depth (JArr (map (show_json nil) l)) \<le> maxNesting"
proof -
  have "foldr max (map depth (map (show_json nil) l)) 0 \<le> 4" by (induction l) (auto simp: anime.depth_le)
  then show ?thesis by (simp add: maxNesting_def)
qed

lemma read_year_text:
  "read_json (json_text (JArr (map (show_json nil) l))) = Some (json_clean (JArr (map (show_json nil) l)))"
  by (rule read_json_text [OF _ year_text_depth]) (simp add: list_all_iff anime.numbers)

text \<open>A text in brackets is not trimmed.\<close>

lemma trim_brackets: "trim_space (CHR ''['' # s @ '']'') = CHR ''['' # s @ '']''"
  by (simp add: trim_space_def is_space_def)

lemma year_decodes:
  assumes "list_all show_ok l" "marshal_year nil (Some l) = Inr data"
  shows "DecodeYearData unmarshal_year data = Inr (map clean_show l)"
proof -
  have data: "data = json_text (JArr (map (show_json nil) l))" using assms(2) by (simp add: marshal_year_def)
  then have "trim_space data = data" using trim_brackets by (simp add: json_array_def)
  moreover have "unmarshal_year data = Inr (map clean_show l)"
    using read_year_text [of nil l] anime.elements [OF assms(1), of nil]
    by (simp add: data unmarshal_year_def set_slice_def comp_def)
  ultimately show ?thesis by (simp add: data DecodeYearData_def json_array_def)
qed

section \<open>Bodies\<close>

definition shows_json :: "response_show list \<Rightarrow> json" where
  "shows_json shs = JArr (map (\<lambda>x. JObj ((''tvdbId'', json_int (TVDBID' x))
     # (if Title' x = [] then [] else [(''title'', JStr (Title' x))]))) shs)"

definition health_json :: "healthResponse \<Rightarrow> json" where
  "health_json h =
     (let check = (\<lambda>s. JObj [(''status'', JStr (health_text s))])
      in JObj ((''status'', JStr (health_text (hr_Status h)))
           # (if hr_Reason h = [] then [] else [(''reason'', JStr (hr_Reason h))])
           @ [(''checks'', JObj [(''cache'', check (hr_Cache h)), (''resolver'', check (hr_Resolver h))])]))"

lemma marshal_shows_text: "marshal_shows shs = json_text (shows_json shs)"
  by (simp add: marshal_shows_def shows_json_def json_int_def comp_def if_distrib cong: if_cong)

lemma marshal_health_text: "marshal_health h = json_text (health_json h)"
  by (simp add: marshal_health_def health_json_def Let_def)

lemma shows_json_ok: "numbers_ok (shows_json shs)" "depth (shows_json shs) \<le> maxNesting"
proof -
  show "numbers_ok (shows_json shs)" by (simp add: shows_json_def list_all_iff json_int_def integer_number)
  have "foldr max (map (depth \<circ> (\<lambda>x. JObj ((''tvdbId'', json_int (TVDBID' x))
     # (if Title' x = [] then [] else [(''title'', JStr (Title' x))])))) shs) 0 \<le> 1"
    by (induction shs) (auto simp: json_int_def)
  then show "depth (shows_json shs) \<le> maxNesting" by (simp add: shows_json_def maxNesting_def comp_def)
qed

lemma read_shows: "read_json (marshal_shows shs) = Some (json_clean (shows_json shs))"
  unfolding marshal_shows_text by (rule read_json_text [OF shows_json_ok])

section \<open>Properties\<close>

text \<open>
  What the cache stores of a year is read back: the text \<open>json.Marshal\<close> writes for any shows whose integers
  fit a machine word decodes to the same shows, in order, with nothing changed but bytes of strings that are not UTF-8 -
  whatever characters titles and tags have, and whether empty slices are nil or not.
\<close>

lemma year_data_roundtrip:
  assumes "list_all show_ok l"
  shows "\<exists>data. marshal_year nil (Some l) = Inr data \<and> DecodeYearData unmarshal_year data = Inr (map clean_show l)
    \<and> (list_all (\<lambda>s. clean_show s = s) l \<longrightarrow> DecodeYearData unmarshal_year data = Inr l)"
proof -
  obtain data where data: "marshal_year nil (Some l) = Inr data" by (simp add: marshal_year_def)
  have "list_all (\<lambda>s. clean_show s = s) l \<Longrightarrow> map clean_show l = l" by (induction l) auto
  with data year_decodes [OF assms data] show ?thesis by auto
qed

definition sample_show :: anilist_show where
  "sample_show = \<lparr>sh_ID = 7, sh_IDMal = Some 1, sh_Title = \<lparr>English = None, Romaji = Some ''A \"B\" <C>''\<rparr>, sh_Format = ''TV'',
     sh_Duration = Some 24, sh_Tags = [\<lparr>tag_Name = ''Drama''\<rparr>], sh_Season = ''SPRING'',
     sh_StartDate = \<lparr>fd_Year = Some 2024, fd_Month = Some 4, fd_Day = None\<rparr>, sh_Relations = None\<rparr>"

lemma sample_show_ok: "show_ok sample_show" "clean_show sample_show = sample_show"
  by (simp_all add: sample_show_def show_ok_def date_ok_def in_int64_def min_int64_def max_int64_def clean_show_def
      clean_title_def utf8_clean_ascii)

lemma year_data_roundtrip_witness:
  "\<exists>data. marshal_year (\<lambda>_. (True, True)) (Some [sample_show]) = Inr data \<and> DecodeYearData unmarshal_year data = Inr [sample_show]"
proof -
  have "list_all show_ok [sample_show]" by (simp add: sample_show_ok)
  from year_data_roundtrip [OF this, of "\<lambda>_. (True, True)"] sample_show_ok(2) show ?thesis by auto
qed

text \<open>
  The body of a list is JSON whatever the titles hold: read as a whole text it is the array of exactly the
  shows given, each an object with its TVDB id and, unless empty, its title with bytes that are not UTF-8 replaced.
\<close>

lemma list_body_reads:
  "read_json (marshal_shows shs) = Some (JArr (map (\<lambda>x. JObj ((''tvdbId'', JNum (fmt_d (TVDBID' x)))
     # (if Title' x = [] then [] else [(''title'', JStr (utf8_clean (Title' x)))]))) shs))"
proof -
  have "utf8_clean ''tvdbId'' = ''tvdbId''" by (simp add: utf8_clean_ascii)
  then show ?thesis
    unfolding read_shows by (auto simp: shows_json_def json_int_def)
qed

end
