(* ===== verification/Anilist_Wire.thy ===== *)
theory Anilist_Wire
  imports Data_Codec Json_Reader
begin

text \<open>
  What goes over the wire to AniList (\<open>internal/anilist/anilist.go\<close>): the query with its variables, and the body of a
  response from its bytes - bounded, decoded into the response struct and checked to hold nothing else. The HTTP exchange
  gives the bytes and says how they ended.
\<close>

section \<open>The request\<close>

definition page_query :: "string \<Rightarrow> string list" where
  "page_query i =
     ['' page'' @ i @ '': Page(page: $p'' @ i @ '', perPage: $perPage) {'',
      ''  pageInfo { hasNextPage currentPage }'',
      ''  media(seasonYear: $y, type: ANIME, sort: POPULARITY_DESC) { ...YearMedia }'',
      '' }'']"

definition yearQueryTemplate :: string where
  "yearQueryTemplate = join CHR 0x0A
     ([''query($y: Int, $p0: Int, $p1: Int, $p2: Int, $p3: Int, $perPage: Int) {'']
      @ page_query ''0'' @ page_query ''1'' @ page_query ''2'' @ page_query ''3''
      @ [''}'', ''fragment YearMedia on Media {'', '' id'', '' idMal'', '' title { romaji english }'', '' format'', '' duration'',
         '' tags { name }'', '' season'', '' startDate { year month day }'', '' relations { edges { relationType } }'', ''}''])"

definition maxPerPage :: int where
  "maxPerPage = 50"

text \<open>\<open>json.Marshal\<close> writes the keys of a map in order.\<close>

definition year_payload :: "int \<Rightarrow> int \<Rightarrow> json" where
  "year_payload year page = JObj
     [(''query'', JStr yearQueryTemplate),
      (''variables'', JObj
         [(''p0'', json_int page), (''p1'', json_int (page + 1)), (''p2'', json_int (page + 2)), (''p3'', json_int (page + 3)),
          (''perPage'', json_int maxPerPage), (''y'', json_int year)])]"

section \<open>The response\<close>

definition set_bool :: "bool setter" where
  "set_bool v old = (case v of JBool b \<Rightarrow> Inr b | JNull \<Rightarrow> Inr old | _ \<Rightarrow> type_error)"

definition zero_info :: page_info where
  "zero_info = \<lparr>HasNextPage = None, CurrentPage = 0\<rparr>"

definition set_info :: "page_info setter" where
  "set_info = set_struct
     [(''hasNextPage'', at_field HasNextPage (\<lambda>x r. r\<lparr>HasNextPage := x\<rparr>) (set_pointer set_bool False)),
      (''currentPage'', at_field CurrentPage (\<lambda>x r. r\<lparr>CurrentPage := x\<rparr>) set_int)]"

text \<open>The media, where null or no member at all leaves nil and an empty array does not.\<close>

definition set_media :: "anilist_show list option setter" where
  "set_media v old =
     (case v of
        JNull \<Rightarrow> Inr None
      | _ \<Rightarrow> (case set_slice set_show zero_show v (case old of None \<Rightarrow> [] | Some l \<Rightarrow> l) of
                Inl e \<Rightarrow> Inl e
              | Inr l \<Rightarrow> Inr (Some l)))"

definition zero_page :: media_page where
  "zero_page = \<lparr>PageInfo = None, Media = None\<rparr>"

definition set_page :: "media_page setter" where
  "set_page = set_struct
     [(''pageInfo'', at_field PageInfo (\<lambda>x r. r\<lparr>PageInfo := x\<rparr>) (set_pointer set_info zero_info)),
      (''media'', at_field Media (\<lambda>x r. r\<lparr>Media := x\<rparr>) set_media)]"

definition set_data :: "graphql_response setter" where
  "set_data = set_struct
     [(''page0'', at_field Page0 (\<lambda>x r. r\<lparr>Page0 := x\<rparr>) (set_pointer set_page zero_page)),
      (''page1'', at_field Page1 (\<lambda>x r. r\<lparr>Page1 := x\<rparr>) (set_pointer set_page zero_page)),
      (''page2'', at_field Page2 (\<lambda>x r. r\<lparr>Page2 := x\<rparr>) (set_pointer set_page zero_page)),
      (''page3'', at_field Page3 (\<lambda>x r. r\<lparr>Page3 := x\<rparr>) (set_pointer set_page zero_page))]"

text \<open>An error is its message.\<close>

definition set_error :: "string setter" where
  "set_error = set_struct [(''message'', set_string)]"

definition set_response :: "graphql_response setter" where
  "set_response = set_struct
     [(''data'', set_data),
      (''errors'', at_field gq_Errors (\<lambda>x r. r\<lparr>gq_Errors := x\<rparr>) (set_slice set_error []))]"

definition zero_response :: graphql_response where
  "zero_response = \<lparr>Page0 = None, Page1 = None, Page2 = None, Page3 = None, gq_Errors = []\<rparr>"

definition maxResponseBodySize :: nat where
  "maxResponseBodySize = 10 * 2 ^ 20"

text \<open>
  A body: its bytes, the read error they ended in (if they did), whether decoding the value met that error rather than
  bytes before it that cannot go on with the value, and whether the decoder had read as far as the limit when it met
  something after the value (which depends on the sizes of the reads).
\<close>

record body =
  bd_bytes :: string
  bd_unread :: "read_cause option"
  bd_midway :: bool
  bd_full :: bool

definition decode_body :: "body \<Rightarrow> decode_err + graphql_response" where
  "decode_body b =
     (let over = maxResponseBodySize < length (bd_bytes b) in
      case read_value maxNesting (take (maxResponseBodySize + 1) (bd_bytes b)) of
        None \<Rightarrow>
          (case bd_unread b of
             Some cause \<Rightarrow> if \<not> over \<and> bd_midway b then Inl (BodyUnread cause) else Inl (BadBody ''invalid character'')
           | None \<Rightarrow> Inl (BadBody ''unexpected EOF or invalid character''))
      | Some (v, r) \<Rightarrow>
          decodeResponse (case set_response v zero_response of Inl e \<Rightarrow> Inl (BadBody e) | Inr resp \<Rightarrow> Inr resp)
            (over \<and> (skip_ws r = [] \<or> bd_full b))
            (skip_ws r = [] \<and> (over \<or> bd_unread b = None)))"

section \<open>Framing\<close>

lemma decode_body_accepts:
  "decode_body b = Inr resp \<longleftrightarrow>
     length (bd_bytes b) \<le> maxResponseBodySize \<and> bd_unread b = None
     \<and> (\<exists>v. read_json (bd_bytes b) = Some v \<and> set_response v zero_response = Inr resp)"
proof (cases "maxResponseBodySize < length (bd_bytes b)")
  case True
  then show ?thesis
    by (auto simp: decode_body_def decodeResponse_def Let_def split: option.splits sum.splits if_splits)
next
  case False
  then have "take (Suc maxResponseBodySize) (bd_bytes b) = bd_bytes b" by simp
  with False show ?thesis
    by (auto simp: decode_body_def decodeResponse_def read_json_def Let_def split: option.splits sum.splits if_splits)
qed

lemma response_not_number: "set_response v x = Inr y \<Longrightarrow> \<not> is_number v"
  by (cases v) (auto simp: set_response_def set_struct_def type_error_def)

lemma skip_ws_all: "skip_ws s = [] \<longleftrightarrow> list_all is_ws s"
  by (auto simp: skip_ws_def dropWhile_eq_Nil_conv list_all_iff)

text \<open>Of two texts of which one begins the other, both read as a value that is no number, the longer one only adds white space.\<close>

lemma read_json_extended:
  assumes "read_json s = Some v" "\<not> is_number v"
  shows "read_json (s @ t) = (if list_all is_ws t then Some v else None)"
proof -
  obtain r where r: "read_value maxNesting s = Some (v, r)" "skip_ws r = []"
    using assms(1) by (auto simp: read_json_def split: option.splits if_splits)
  have "read_value maxNesting (s @ t) = Some (v, r @ t)" using read_more(1) [OF r(1)] assms(2) by blast
  then show ?thesis using r(2) by (simp add: read_json_def skip_ws_all)
qed

lemma decode_body_extended:
  assumes "decode_body b = Inr resp"
  shows "decode_body (b\<lparr>bd_bytes := bd_bytes b @ t\<rparr>) = Inr resp'
    \<longleftrightarrow> list_all is_ws t \<and> length (bd_bytes b @ t) \<le> maxResponseBodySize \<and> resp' = resp"
proof -
  obtain v where v: "read_json (bd_bytes b) = Some v" "set_response v zero_response = Inr resp" "bd_unread b = None"
    using assms unfolding decode_body_accepts by blast
  show ?thesis
    using v(2,3) read_json_extended [OF v(1) response_not_number [OF v(2)], of t]
    unfolding decode_body_accepts by (auto split: if_splits)
qed

section \<open>What is read is well typed\<close>

text \<open>A setter keeps \<open>good\<close> on what a text can hold.\<close>

definition keeps :: "('a \<Rightarrow> bool) \<Rightarrow> 'a setter \<Rightarrow> bool" where
  "keeps good f \<longleftrightarrow> (\<forall>v x y. f v x = Inr y \<longrightarrow> json_clean v = v \<longrightarrow> good x \<longrightarrow> good y)"

lemma keepsI: "(\<And>v x y. f v x = Inr y \<Longrightarrow> json_clean v = v \<Longrightarrow> good x \<Longrightarrow> good y) \<Longrightarrow> keeps good f"
  by (auto simp: keeps_def)

lemma keepsD: "keeps good f \<Longrightarrow> f v x = Inr y \<Longrightarrow> json_clean v = v \<Longrightarrow> good x \<Longrightarrow> good y"
  by (auto simp: keeps_def)

lemma keeps_field:
  assumes "keeps g f" "\<And>r. good r \<Longrightarrow> g (get r)" "\<And>x r. g x \<Longrightarrow> good r \<Longrightarrow> good (put x r)"
  shows "keeps good (at_field get put f)"
  by (rule keepsI) (use keepsD [OF assms(1)] assms(2,3) in \<open>auto simp: at_field_def split: sum.splits\<close>)

lemma find_field_in: "find_field fs k = Some f \<Longrightarrow> f \<in> snd ` set fs"
  by (force simp: find_field_def find_Some_iff image_iff split: option.splits dest: map_of_SomeD nth_mem)

lemma map_fixed: "map f xs = xs \<Longrightarrow> x \<in> set xs \<Longrightarrow> f x = x"
  by (induction xs) auto

lemma keeps_struct:
  assumes "\<forall>f \<in> snd ` set fs. keeps good f"
  shows "keeps good (set_struct fs)"
proof (rule keepsI)
  fix v x y
  assume run: "set_struct fs v x = Inr y" "json_clean v = v" "good x"
  have members: "set_members fs kvs x = Inr y \<Longrightarrow> \<forall>f \<in> snd ` set fs. keeps good f
      \<Longrightarrow> \<forall>kv \<in> set kvs. json_clean (snd kv) = snd kv \<Longrightarrow> good x \<Longrightarrow> good y" for kvs x
  proof (induction fs kvs x rule: set_members.induct)
    case (2 fs k v kvs x)
    show ?case
    proof (cases "find_field fs k")
      case None
      then show ?thesis using 2 by simp
    next
      case (Some f)
      then obtain x' where x': "f v x = Inr x'" "set_members fs kvs x' = Inr y" using "2.prems"(1) by (auto split: sum.splits)
      have kf: "keeps good f" using find_field_in [OF Some] "2.prems"(2) by blast
      then have "good x'" using keepsD [OF kf x'(1)] "2.prems"(3,4) by simp
      then show ?thesis using "2.IH"(2) [OF Some x'] "2.prems"(2,3) by simp
    qed
  qed simp
  show "good y"
  proof (cases v)
    case (JObj kvs)
    then have fixed: "map (\<lambda>kv. (utf8_clean (fst kv), json_clean (snd kv))) kvs = kvs" using run(2) by simp
    have "json_clean (snd kv) = snd kv" if "kv \<in> set kvs" for kv
      using map_fixed [OF fixed that] by (cases kv) simp
    then show ?thesis using run members [of kvs x] assms JObj by (auto simp add: set_struct_def)
  qed (use run in \<open>auto simp: set_struct_def type_error_def\<close>)
qed

text \<open>The types with a zero value, from which the elements of slices and the targets of pointers start.\<close>

locale typed =
  fixes dec :: "'a setter" and zero :: 'a and good :: "'a \<Rightarrow> bool"
  assumes zero_good: "good zero" and dec_good: "keeps good dec"
begin

lemma pointer: "keeps (pred_option good) (set_pointer dec zero)"
proof (rule keepsI)
  fix v x y
  assume run: "set_pointer dec zero v x = Inr y" "json_clean v = v" "pred_option good x"
  show "pred_option good y"
  proof (cases "v = JNull")
    case False
    then obtain a where "dec v (case x of None \<Rightarrow> zero | Some a \<Rightarrow> a) = Inr a" "y = Some a"
      using run(1) by (auto simp: set_pointer_def split: json.splits sum.splits)
    then show ?thesis using keepsD [OF dec_good] run(2,3) zero_good by (auto split: option.splits)
  qed (use run in \<open>simp add: set_pointer_def\<close>)
qed

lemma elements:
  "set_elements dec zero xs vs = Inr ys \<Longrightarrow> \<forall>v \<in> set vs. json_clean v = v \<Longrightarrow> list_all good xs \<Longrightarrow> list_all good ys"
proof (induction vs arbitrary: xs ys)
  case (Cons v vs)
  obtain y ys' where y: "dec v (if xs = [] then zero else hd xs) = Inr y" "set_elements dec zero (tl xs) vs = Inr ys'" "ys = y # ys'"
    using Cons.prems(1) by (auto split: sum.splits)
  have "good (if xs = [] then zero else hd xs)" "list_all good (tl xs)" using Cons.prems(3) zero_good by (cases xs; simp)+
  then show ?case using y keepsD [OF dec_good y(1)] Cons.IH [OF y(2)] Cons.prems(2) by simp
qed simp

lemma slice: "keeps (list_all good) (set_slice dec zero)"
proof (rule keepsI)
  fix v x y
  assume run: "set_slice dec zero v x = Inr y" "json_clean v = v" "list_all good x"
  show "list_all good y"
  proof (cases v)
    case (JArr vs)
    then have "\<forall>v \<in> set vs. json_clean v = v" using run(2) map_fixed [of json_clean vs] by auto
    then show ?thesis using run elements [of x vs y] JArr by (simp add: set_slice_def)
  qed (use run in \<open>auto simp: set_slice_def type_error_def\<close>)
qed

end

lemma keeps_int: "keeps in_int64 set_int"
  by (rule keepsI) (auto simp: set_int_def type_error_def atoi_in_int64 split: json.splits option.splits)

definition valid_utf8 :: "string \<Rightarrow> bool" where
  "valid_utf8 s \<longleftrightarrow> utf8_clean s = s"

lemma keeps_string: "keeps valid_utf8 set_string"
  by (rule keepsI) (auto simp: set_string_def type_error_def valid_utf8_def split: json.splits)

lemma keeps_bool: "keeps (\<lambda>_. True) f"
  by (rule keepsI) simp

interpretation good_ints: typed set_int 0 in_int64
  by unfold_locales (auto simp: keeps_int in_int64_def min_int64_def max_int64_def)

interpretation good_strings: typed set_string "[]" valid_utf8
  by unfold_locales (simp_all add: keeps_string valid_utf8_def)

definition good_title :: "show_title \<Rightarrow> bool" where
  "good_title t \<longleftrightarrow> pred_option valid_utf8 (English t) \<and> pred_option valid_utf8 (Romaji t)"

interpretation good_titles: typed set_title "\<lparr>English = None, Romaji = None\<rparr>" good_title
proof unfold_locales
  show "keeps good_title set_title"
    unfolding set_title_def
    by (rule keeps_struct) (auto simp: good_title_def intro!: keeps_field [OF good_strings.pointer])
qed (simp add: good_title_def)

interpretation good_dates: typed set_date "\<lparr>fd_Year = None, fd_Month = None, fd_Day = None\<rparr>" date_ok
proof unfold_locales
  show "keeps date_ok set_date"
    unfolding set_date_def
    by (rule keeps_struct) (auto simp: date_ok_def intro!: keeps_field [OF good_ints.pointer])
qed (simp add: date_ok_def)

interpretation good_tags: typed set_tag "\<lparr>tag_Name = []\<rparr>" "\<lambda>t. valid_utf8 (tag_Name t)"
  by unfold_locales
    (auto simp: set_tag_def valid_utf8_def intro!: keeps_struct keeps_field [OF keeps_string, unfolded valid_utf8_def])

interpretation good_edges: typed set_edge "\<lparr>RelationType = []\<rparr>" "\<lambda>e. valid_utf8 (RelationType e)"
  by unfold_locales
    (auto simp: set_edge_def valid_utf8_def intro!: keeps_struct keeps_field [OF keeps_string, unfolded valid_utf8_def])

definition good_relations :: "relation_block \<Rightarrow> bool" where
  "good_relations r \<longleftrightarrow> list_all (\<lambda>e. valid_utf8 (RelationType e)) (Edges r)"

interpretation good_relation_blocks: typed set_relations "\<lparr>Edges = []\<rparr>" good_relations
proof unfold_locales
  show "keeps good_relations set_relations"
    unfolding set_relations_def
    by (rule keeps_struct) (auto simp: good_relations_def intro!: keeps_field [OF good_edges.slice])
qed (simp add: good_relations_def)

definition good_show :: "anilist_show \<Rightarrow> bool" where
  "good_show s \<longleftrightarrow> in_int64 (sh_ID s) \<and> pred_option in_int64 (sh_IDMal s) \<and> good_title (sh_Title s)
     \<and> valid_utf8 (sh_Format s) \<and> pred_option in_int64 (sh_Duration s) \<and> list_all (\<lambda>t. valid_utf8 (tag_Name t)) (sh_Tags s)
     \<and> valid_utf8 (sh_Season s) \<and> date_ok (sh_StartDate s) \<and> pred_option good_relations (sh_Relations s)"

interpretation good_shows: typed set_show zero_show good_show
proof unfold_locales
  show "keeps good_show set_show"
    unfolding set_show_def
    by (rule keeps_struct)
      (auto simp: good_show_def intro!: keeps_field [OF keeps_int] keeps_field [OF good_ints.pointer]
        keeps_field [OF good_titles.dec_good] keeps_field [OF keeps_string] keeps_field [OF good_tags.slice]
        keeps_field [OF good_dates.dec_good] keeps_field [OF good_relation_blocks.pointer])
qed (simp add: good_show_def zero_show_def good_ints.zero_good good_titles.zero_good good_strings.zero_good good_dates.zero_good)

text \<open>Such a show is one that the cache gives back unchanged.\<close>

lemma valid_option: "pred_option valid_utf8 x \<Longrightarrow> map_option utf8_clean x = x"
  by (cases x) (auto simp: valid_utf8_def)

lemma valid_relations: "good_relations r \<Longrightarrow> clean_relations r = r"
  by (cases r) (auto simp: good_relations_def clean_relations_def valid_utf8_def list_all_iff intro!: map_idI)

lemma good_show_stored: "good_show s \<Longrightarrow> show_ok s \<and> clean_show s = s"
  by (cases s; cases "sh_Title s"; cases "sh_Relations s")
    (auto simp: good_show_def show_ok_def clean_show_def good_title_def clean_title_def valid_option valid_relations
      valid_utf8_def list_all_iff intro!: map_idI)

definition good_media :: "media_page \<Rightarrow> bool" where
  "good_media p \<longleftrightarrow> (\<forall>l. Media p = Some l \<longrightarrow> list_all good_show l)"

definition good_response :: "graphql_response \<Rightarrow> bool" where
  "good_response resp \<longleftrightarrow> list_all (pred_option good_media) (gq_pages resp)"

lemma keeps_media: "keeps (\<lambda>m. \<forall>l. m = Some l \<longrightarrow> list_all good_show l) set_media"
  using keepsD [OF good_shows.slice]
  by (intro keepsI) (fastforce simp: set_media_def split: json.splits sum.splits option.splits)

lemma keeps_any: "keeps (\<lambda>_. True) f"
  by (rule keepsI) simp

interpretation good_pages: typed set_page zero_page good_media
proof unfold_locales
  show "keeps good_media set_page"
    unfolding set_page_def
    by (rule keeps_struct) (auto simp: good_media_def intro!: keeps_field [OF keeps_media] intro: keeps_field [OF keeps_any])
qed (simp add: good_media_def zero_page_def)

lemma keeps_response: "keeps good_response set_response"
proof -
  have "keeps good_response set_data"
    unfolding set_data_def
    by (rule keeps_struct) (auto simp: good_response_def gq_pages_def intro!: keeps_field [OF good_pages.pointer])
  then show ?thesis
    unfolding set_response_def
    by (intro keeps_struct) (auto simp: good_response_def gq_pages_def intro!: keeps_field [OF keeps_any])
qed

lemma decode_body_good:
  assumes "decode_body b = Inr resp"
  shows "good_response resp"
proof -
  obtain v where v: "read_json (bd_bytes b) = Some v" "set_response v zero_response = Inr resp"
    using assms unfolding decode_body_accepts by blast
  have "json_clean v = v" using v(1) read_clean(1) by (auto simp: read_json_def split: option.splits if_splits)
  moreover have "good_response zero_response" by (simp add: good_response_def gq_pages_def zero_response_def)
  ultimately show ?thesis using keepsD [OF keeps_response v(2)] by blast
qed

text \<open>A request returns only what an attempt decoded, and a year only the media of such answers.\<close>

lemma FetchYear_good:
  assumes "\<forall>page k. \<exists>b. at_body (snd (env page) k) = decode_body b"
    and "FetchYear env c = Some (Inr shs, c')"
  shows "list_all good_show shs"
proof -
  obtain pages where pages: "year_pages env 1 pages" "shs = concat (map page_media pages)"
    using fetch_loop_pages [OF assms(2) [unfolded FetchYear_def]] by auto
  have "list_all good_show (page_media p)" if p: "p \<in> set pages" for p
  proof -
    obtain k where "k < length pages" "p = pages ! k" using p by (auto simp: in_set_conv_nth)
    then obtain c1 c2 resp where req: "doRequest (snd (env (1 + 4 * int (k div 4)))) c1 = Some (Inr resp, c2)"
      "p = gq_pages resp ! (k mod 4)"
      using pages(1) by (auto simp: year_pages_def answered_from_def)
    obtain j where "at_body (snd (env (1 + 4 * int (k div 4))) j) = Inr resp" using doRequest_body [OF req(1)] by blast
    with assms(1) obtain b where "decode_body b = Inr resp" by metis
    then have "good_response resp" by (rule decode_body_good)
    moreover have "p \<in> set (gq_pages resp)" unfolding req(2) by (rule nth_mem) (simp add: gq_pages_def)
    ultimately have "pred_option good_media p" by (simp add: good_response_def list_all_iff)
    then show ?thesis by (cases p) (auto simp: page_media_def good_media_def split: option.splits)
  qed
  then show ?thesis unfolding pages(2) by (auto simp: list_all_iff)
qed

section \<open>Properties\<close>

text \<open>
  Claim C21. A response body is accepted only whole: it has at most 10 MiB, its stream ended without an error, and of two
  accepted bodies the longer cannot add to the shorter anything but white space, which changes nothing. So no body that was
  cut off inside its JSON and none with anything after it is ever used.
\<close>

theorem response_body_whole:
  assumes "decode_body b = Inr resp"
  shows "length (bd_bytes b) \<le> 10 * 2 ^ 20 \<and> bd_unread b = None
    \<and> (\<forall>b' resp' t. bd_bytes b = bd_bytes b' @ t \<and> decode_body b' = Inr resp' \<longrightarrow> list_all is_ws t \<and> resp' = resp)"
proof (intro conjI allI impI; (elim conjE)?)
  show "length (bd_bytes b) \<le> 10 * 2 ^ 20" "bd_unread b = None"
    using assms unfolding decode_body_accepts maxResponseBodySize_def by blast+
  fix b' resp' t
  assume split: "bd_bytes b = bd_bytes b' @ t" and cut_off: "decode_body b' = Inr resp'"
  have "decode_body (b'\<lparr>bd_bytes := bd_bytes b' @ t\<rparr>) = Inr resp"
    using assms cut_off split by (simp add: decode_body_accepts)
  then show "list_all is_ws t" "resp' = resp" using decode_body_extended [OF cut_off] by auto
qed

lemma response_body_whole_witness:
  "\<forall>resp. decode_body \<lparr>bd_bytes = ''{'', bd_unread = None, bd_midway = False, bd_full = False\<rparr> \<noteq> Inr resp"
proof (intro allI notI)
  fix resp
  assume part: "decode_body \<lparr>bd_bytes = ''{'', bd_unread = None, bd_midway = False, bd_full = False\<rparr> = Inr resp"
  have "read_json (json_text (JObj [])) = Some (JObj [])" by (subst read_json_text) (simp_all add: maxNesting_def)
  then have "decode_body \<lparr>bd_bytes = ''{}'', bd_unread = None, bd_midway = False, bd_full = False\<rparr> = Inr zero_response"
    by (simp add: decode_body_accepts json_object_def set_response_def set_struct_def maxResponseBodySize_def)
  from response_body_whole [OF this] part have "list_all is_ws ''}''"
    by (metis append_Cons append_Nil body.select_convs(1))
  then show False by simp
qed

text \<open>
  Claim C3. What the upstream sends is what the cache gives: when every response is decoded from the bytes of its body, a
  fetch that reports success has stored a row that decodes to exactly the shows of the pages, unchanged - for whatever
  bytes the upstream sent, since what is decoded has integers of a machine word and strings of valid UTF-8.
\<close>

theorem fetched_year_stored:
  assumes "\<forall>page k. \<exists>b. at_body (snd (pages page) k) = decode_body b"
    and "FetchYear pages cl = Some (Inr shs, cl')" "fe_upstream env = Some (Inr res)" "(case res of None \<Rightarrow> [] | Some l \<Rightarrow> l) = shs"
    and "fe_joined env = None" "cache_ok (decoder_of (DecodeYearData unmarshal_year)) c" "backoff_ok b"
    and "peek_harmless (DecodeYearData unmarshal_year) (fe_peek env)"
    and "others_harmless (DecodeYearData unmarshal_year) (fe_others env)"
    and "fetchAndStore (DecodeYearData unmarshal_year) (marshal_year nil) env year (c, b) = ((True, err), (c', b'))"
  shows "err = None \<and> list_all good_show shs
    \<and> (\<exists>data. row_bytes c' year = Some data \<and> DecodeYearData unmarshal_year data = Inr shs)"
proof -
  have good: "list_all good_show shs" by (rule FetchYear_good [OF assms(1,2)])
  then have ok: "list_all show_ok shs" "map clean_show shs = shs"
    using good_show_stored by (auto simp: list_all_iff intro!: map_idI)
  note out = fetchAndStore_result [OF assms(5-9), of "marshal_year nil" year 0, unfolded assms(10)]
  have "err = None" using out by (cases err; cases "the err") auto
  moreover from this have "\<exists>data. marshal_year nil (Some shs) = Inr data \<and> row_bytes c' year = Some data"
    using out assms(3,4) by auto
  ultimately have "err = None \<and> (\<exists>data. marshal_year nil (Some shs) = Inr data \<and> row_bytes c' year = Some data)" by blast
  then show ?thesis using good year_decodes [OF ok(1)] ok(2) by auto
qed

text \<open>An answer of AniList with one show, all of whose pages are the last.\<close>

definition sample_page :: "int \<Rightarrow> anilist_show list \<Rightarrow> json" where
  "sample_page k shs = JObj
     [(''pageInfo'', JObj [(''hasNextPage'', JBool False), (''currentPage'', json_int k)]), (''media'', JArr (map (show_json (\<lambda>_. (False, False))) shs))]"

definition sample_answer :: json where
  "sample_answer = JObj
     [(''data'', JObj
        [(''page0'', sample_page 1 [sample_show]), (''page1'', sample_page 2 []), (''page2'', sample_page 3 []),
         (''page3'', sample_page 4 [])])]"

lemma names_clean_more [simp]:
  "utf8_clean ''pageInfo'' = ''pageInfo''" "utf8_clean ''hasNextPage'' = ''hasNextPage''" "utf8_clean ''media'' = ''media''"
  "utf8_clean ''currentPage'' = ''currentPage''" "utf8_clean ''data'' = ''data''" "utf8_clean ''page0'' = ''page0''"
  "utf8_clean ''page1'' = ''page1''" "utf8_clean ''page2'' = ''page2''" "utf8_clean ''page3'' = ''page3''"
  by (simp_all add: utf8_clean_ascii)

lemma sample_page_reads:
  assumes "in_int64 k" "list_all show_ok shs"
  shows "set_pointer set_page zero_page (json_clean (sample_page k shs)) None
    = Inr (Some \<lparr>PageInfo = Some \<lparr>HasNextPage = Some False, CurrentPage = k\<rparr>, Media = Some (map clean_show shs)\<rparr>)"
proof -
  have num: "set_int (json_clean (json_int k)) 0 = Inr k" using ints.dec_enc [OF assms(1)] .
  have "set_slice set_show zero_show (json_clean (json_list False (show_json (\<lambda>_. (False, False))) shs)) [] = Inr (map clean_show shs)"
    using anime.slice [OF assms(2), of False "\<lambda>_. (False, False)"] .
  then have media: "set_slice set_show zero_show (JArr (map (json_clean \<circ> show_json (\<lambda>_. (False, False))) shs)) [] = Inr (map clean_show shs)"
    by (simp add: json_list_def)
  show ?thesis
    using num media
    by (simp add: sample_page_def set_pointer_def set_page_def set_struct_def find_field_known at_field_def zero_page_def
        set_info_def zero_info_def set_bool_def set_media_def)
qed

definition sample_body :: body where
  "sample_body = \<lparr>bd_bytes = json_text sample_answer, bd_unread = None, bd_midway = False, bd_full = False\<rparr>"

definition sample_response :: graphql_response where
  "sample_response =
     (let page = (\<lambda>k l. Some \<lparr>PageInfo = Some \<lparr>HasNextPage = Some False, CurrentPage = k\<rparr>, Media = Some l\<rparr>)
      in \<lparr>Page0 = page 1 [sample_show], Page1 = page 2 [], Page2 = page 3 [], Page3 = page 4 [], gq_Errors = []\<rparr>)"

lemma sample_body_decodes:
  assumes "length (bd_bytes sample_body) \<le> maxResponseBodySize"
  shows "decode_body sample_body = Inr sample_response"
proof -
  have nums: "numbers_ok (sample_page k l)" for k l
    using ints.numbers anime.numbers by (auto simp: sample_page_def list_all_iff)
  have deep: "depth (sample_page k l) \<le> 6" for k l
  proof -
    have "foldr max (map (depth \<circ> show_json (\<lambda>_. (False, False))) l) 0 \<le> 4" by (induction l) (auto simp: anime.depth_le)
    then show ?thesis using ints.depth_le [of k] by (simp add: sample_page_def comp_def)
  qed
  have "numbers_ok sample_answer" by (simp add: sample_answer_def nums)
  moreover have "depth sample_answer \<le> maxNesting" by (simp add: sample_answer_def maxNesting_def) (use deep in \<open>simp add: le_trans [OF deep]\<close>)
  ultimately have "read_json (json_text sample_answer) = Some (json_clean sample_answer)" by (rule read_json_text)
  moreover have "set_response (json_clean sample_answer) zero_response = Inr sample_response"
  proof -
    have small: "in_int64 1" "in_int64 2" "in_int64 3" "in_int64 4" by (simp_all add: in_int64_def min_int64_def max_int64_def)
    note reads = sample_page_reads [OF small(1), of "[sample_show]"] sample_page_reads [OF small(2), of "[]"]
      sample_page_reads [OF small(3), of "[]"] sample_page_reads [OF small(4), of "[]"]
    show ?thesis using reads
      by (simp add: sample_answer_def set_response_def set_data_def set_struct_def find_field_known at_field_def
          zero_response_def sample_response_def sample_show_ok)
  qed
  ultimately show ?thesis using assms by (simp add: decode_body_accepts sample_body_def)
qed

lemma sample_body_small: "length (bd_bytes sample_body) \<le> maxResponseBodySize"
proof -
  have "length (json_text sample_answer) \<le> 1000" by code_simp
  then show ?thesis by (simp add: sample_body_def maxResponseBodySize_def)
qed

definition sample_attempt :: "graphql_response attempt_env" where
  "sample_attempt = \<lparr>at_jitter = 0, at_now = of_unix 100,
     at_wait = [\<lparr>ob_ctx = None, ob_now = of_unix 100, ob_sleep = None, ob_others = (\<lambda>c. c)\<rparr>], at_create_ok = True,
     at_http = Some \<lparr>StatusCode = 200, RateLimit_Limit = [], RateLimit_Remaining = [], RateLimit_Reset = [], Retry_After = []\<rparr>,
     at_ctx = None, at_observed = of_unix 100, at_others = (\<lambda>c. c), at_unread = None, at_body = decode_body sample_body\<rparr>"

lemma sample_FetchYear:
  "\<exists>cl. FetchYear (\<lambda>_. (None, \<lambda>_. sample_attempt)) NewWithHTTPClient = Some (Inr [sample_show], cl)"
proof -
  have u: "of_unix k = 62135596800000000000 + k * 1000000000" for k
    by (simp add: of_unix_def unix_epoch_def duration_defs)
  have no: "parse_int 64 [] = None" "parse_int 32 [] = None" by code_simp+
  have "admission_section (of_unix 100) 0 NewWithHTTPClient
      = Admitted (NewWithHTTPClient\<lparr>lastAdmission := of_unix 100\<rparr>)"
    by (simp add: admission_section_Admitted NewWithHTTPClient_def u rateLimitDelay_def second_def)
  moreover have "observeAllowance (the (at_http sample_attempt)) t c = ((NotApplicable, None), c)" for t c
    by (simp add: observeAllowance_def observe_limit_def no Let_def sample_attempt_def)
  ultimately have "doRequest (\<lambda>_. sample_attempt) NewWithHTTPClient
      = Some (Inr sample_response, NewWithHTTPClient\<lparr>lastAdmission := of_unix 100\<rparr>)"
    unfolding doRequest_def maxRetry_def numeral_eq_Suc request_loop.simps
    by (simp add: sample_attempt_def retry_at_def sample_body_decodes [OF sample_body_small])
  then show ?thesis
    by (simp add: FetchYear_def fetch_loop.simps maxPages_def gq_pages_def sample_response_def Let_def
        defaultBatchSize_def page_parts_def batch_media_def)
qed

lemma fetched_year_stored_witness:
  fixes denv renv peek env
  defines "denv \<equiv> \<lparr>fails = \<lambda>_. None, waits = \<lambda>_. None\<rparr>"
  defines "renv \<equiv> \<lparr>ctx_start = None, ctx_absent = None, ctx_waiting = None, ctx_gate = None, ctx_decoded = None,
    ctx_end = None, others_before = \<lambda>c. c, others_read = \<lambda>c. c, others_waiting = \<lambda>c. c, others_decoding = \<lambda>c. c\<rparr>"
  defines "peek \<equiv> \<lparr>pk_db = denv, pk_read = renv, pk_caps = \<lparr>raw_cap = 2, shows_cap = 0, tag_edge_caps = []\<rparr>,
    pk_clock = \<lparr>ck_now = of_unix 100, ck_year = 2024\<rparr>\<rparr>"
  defines "env \<equiv> \<lparr>fe_joined = None, fe_peek = peek, fe_cool = of_unix 100, fe_others = \<lambda>s. s,
    fe_upstream = Some (Inr (Some [sample_show])), fe_set_db = denv,
    fe_set_clock = \<lparr>ck_now = of_unix 101, ck_year = 2024\<rparr>, fe_end = of_unix 102\<rparr>"
  shows "\<exists>c' b' data. fetchAndStore (DecodeYearData unmarshal_year) (marshal_year (\<lambda>_. (True, True))) env 2024
      (openCacheDB [] [], new_backoff) = ((True, None), (c', b'))
    \<and> row_bytes c' 2024 = Some data \<and> DecodeYearData unmarshal_year data = Inr [sample_show]"
proof -
  let ?dec = "DecodeYearData unmarshal_year" and ?c = "openCacheDB [] []"
  have ok: "fe_joined env = None" "cache_ok (decoder_of ?dec) ?c" "backoff_ok new_backoff"
    "peek_harmless ?dec (fe_peek env)" "others_harmless ?dec (fe_others env)"
    by (simp_all add: env_def peek_def renv_def peek_harmless_def keeps_ok_def others_harmless_def
        new_backoff_ok openCacheDB_ok mwf_def)
  have db: "env_error denv = None" by (simp add: env_error_def env_error_from.simps denv_def)
  have "peek_year ?dec peek 2024 ?c = Some ((zero_decoded_year, None), ?c)"
    using db by (simp add: peek_year_def PeekDecodedYearContext_def readDecodedYearContext_def readYearContext_def
        queryRowWithRetry_eq peek_def renv_def lookup_def openCacheDB_def newDecodedYearCache_def Let_def
        zero_decoded_year_def)
  moreover obtain d where "invalidate 2024 False False (decoded ?c) = Some d"
    using invalidate_ok [OF cache_okD(1) [OF ok(2)]] .
  ultimately obtain c' b' where run: "fetchAndStore ?dec (marshal_year (\<lambda>_. (True, True))) env 2024 (?c, new_backoff) = ((True, None), (c', b'))"
    using db by (simp add: fetchAndStore_def fetch_lead_def fetch_body_def fetch_finish_def fetch_attempt_def
        env_def zero_decoded_year_def fetchCooldownRemaining_def new_backoff_def SetYearContext_def
        execResultWithRetry_eq marshal_year_def)
  obtain cl where "FetchYear (\<lambda>_. (None, \<lambda>_. sample_attempt)) NewWithHTTPClient = Some (Inr [sample_show], cl)"
    using sample_FetchYear by blast
  moreover have "\<forall>page k. \<exists>b. at_body (snd ((\<lambda>_. (None, \<lambda>_. sample_attempt)) page) k) = decode_body b"
    by (auto simp: sample_attempt_def)
  moreover have "fe_upstream env = Some (Inr (Some [sample_show]))" by (simp add: env_def)
  ultimately show ?thesis using fetched_year_stored [OF _ _ _ _ ok run] run by fastforce
qed

end
