(* ===== verification/Bridge_System.thy ===== *)
theory Bridge_System
  imports Anilist_Wire Maintenance Mapping_Loader
begin

text \<open>
  The parts together: the state of the running service and the steps of everything that works on it - requests, fetches,
  prewarming, the maintenance worker, the writer of last hits, the tracking of new mappings, the refresh worker of the
  mapping and the background slots - in any order. Within a step other goroutines interleave as the operations of the
  components let them; what they do keeps the invariants.
\<close>

section \<open>What the remaining operations keep\<close>

lemma mwf_settle: "mwf p \<Longrightarrow> mwf (settle_pending batch p)"
  unfolding settle_pending_def
  by (induction batch arbitrary: p) (auto simp: gm.ok_del split: option.splits)

lemma mwf_update_last_hits: "mwf (update_last_hits batch t) = mwf t"
  by (simp add: mwf_def update_last_hits_def comp_def case_prod_unfold)

lemma flush_write_mwf: "flush_write env batch t = (err, t') \<Longrightarrow> mwf t \<Longrightarrow> mwf t'"
  by (auto simp: flush_write_def Let_def mwf_update_last_hits split: option.splits prod.splits if_splits)

lemma flush_finish_ok:
  assumes "mwf batch" "cache_ok dec c"
  shows "cache_ok dec (flush_finish batch err c)"
  using assms mget_settle_pending [OF assms(1), of "pendingLastHits c"]
  by (auto simp: flush_finish_def cache_ok_def mwf_settle split: option.splits if_splits)

lemma flushLastHits_ok:
  assumes "cache_ok dec c" "keeps_ok dec before" "keeps_ok dec after"
  shows "cache_ok dec (flushLastHits env before after c)"
proof -
  have ok1: "cache_ok dec (before c)" using assms(1,2) by (simp add: keeps_ok_def)
  obtain err t where w: "flush_write env (pendingLastHits c) (year_cache (before c)) = (err, t)" by fastforce
  have "mwf t" by (rule flush_write_mwf [OF w cache_okD(2) [OF ok1]])
  then have "cache_ok dec ((before c)\<lparr>year_cache := t\<rparr>)" using ok1 by (simp add: cache_ok_def)
  then have "cache_ok dec (after ((before c)\<lparr>year_cache := t\<rparr>))" using assms(3) by (simp add: keeps_ok_def)
  then show ?thesis
    using assms(1) w flush_finish_ok [OF cache_okD(5) [OF assms(1)]] by (simp add: flushLastHits_def Let_def)
qed

lemma insert_loop_mwf: "insert_loop errs i now ms acc t = Inr (new, t') \<Longrightarrow> mwf t \<Longrightarrow> mwf t'"
  by (induction errs i now ms acc t rule: insert_loop.induct)
    (auto simp: insert_or_ignore_def gm.ok_put split: option.splits if_splits)

lemma markSeenMappingsOnce_ok:
  "markSeenMappingsOnce tx now ms c = (r, c') \<Longrightarrow> cache_ok dec c \<Longrightarrow> cache_ok dec c'"
  by (auto simp: markSeenMappingsOnce_def cache_ok_def insert_loop_mwf split: option.splits sum.splits)

lemma MarkSeenMappings_ok:
  assumes "MarkSeenMappings wts txs now ms c = (r, c')" "cache_ok dec c"
  shows "cache_ok dec c'"
proof (cases "ms = []")
  case False
  let ?fn = "\<lambda>i. markSeenMappingsOnce (txs i) (unix_now now) ms"
  have run: "retry_loop (busyRetryAttempts - 1) 0 wts ?fn c = (r, c')"
    using assms(1) False by (simp add: MarkSeenMappings_def retryBusyValue_def)
  have same: "?fn i c = (Inl e, s') \<Longrightarrow> s' = c" for i e s'
    by (auto simp: markSeenMappingsOnce_def split: option.splits sum.splits)
  have "case r of Inl _ \<Rightarrow> c' = c | Inr v \<Rightarrow> \<exists>k. ?fn k c = (Inr v, c')"
    using retry_loop_cases [where fn = ?fn and s = c, OF same run] by simp
  then show ?thesis using assms(2) markSeenMappingsOnce_ok by (cases r) (simp, fastforce)
qed (use assms in \<open>simp add: MarkSeenMappings_def\<close>)

lemma trackNewMappings_ok:
  assumes "trackNewMappings env meanwhile wts txs now shows batch season year c = (announced, c')"
    and "cache_ok dec c" "keeps_ok dec meanwhile"
  shows "cache_ok dec c'"
proof -
  have "cache_ok dec (meanwhile c)" using assms(2,3) by (simp add: keeps_ok_def)
  then show ?thesis
    using assms(1,2) MarkSeenMappings_ok
    by (auto simp: trackNewMappings_def Let_def split: if_splits sum.splits prod.splits)
qed

lemma peek_year_ok:
  assumes "cache_ok (decoder_of decode) c" "peek_harmless decode p"
  obtains res err c' where "peek_year decode p year c = Some ((res, err), c')" "cache_ok (decoder_of decode) c'"
  using ys.look_ok [OF assms] by blast

definition prewarm_harmless where
  "prewarm_harmless decode env \<longleftrightarrow> peek_harmless decode (pw_peek env) \<and> peek_harmless decode (pw_hydrate env)
     \<and> peek_harmless decode (fe_peek (pw_fetch env)) \<and> others_harmless decode (fe_others (pw_fetch env))"

lemma prewarm_fetch_ok:
  assumes "cache_ok (decoder_of decode) c" "backoff_ok b" "prewarm_harmless decode env"
  shows "\<exists>r n' c' b'. prewarm_fetch decode marshal env year err n (c, b) = Some (r, n', (c', b'))
    \<and> cache_ok (decoder_of decode) c' \<and> backoff_ok b'"
proof -
  obtain did fe c1 b1 where f: "fetchAndStore decode marshal (pw_fetch env) year (c, b) = ((did, fe), (c1, b1))"
    by (metis prod.exhaust)
  have ok: "cache_ok (decoder_of decode) c1" "backoff_ok b1"
    using fetchAndStore_ok [OF assms(1,2) _ _ f] assms(3) by (simp_all add: prewarm_harmless_def)
  obtain res e c2 where p: "peek_year decode (pw_hydrate env) year c1 = Some ((res, e), c2)" "cache_ok (decoder_of decode) c2"
    using peek_year_ok [OF ok(1)] assms(3) unfolding prewarm_harmless_def by blast
  show ?thesis
    using f ok p by (cases fe; cases "pw_ctx_failed env"; cases "pw_ctx_hydrate env") (auto simp: prewarm_fetch_def Let_def)
qed

lemma prewarm_loop_ok:
  assumes "cache_ok (decoder_of decode) c" "backoff_ok b" "\<forall>j. prewarm_harmless decode (envs j)"
  shows "\<exists>err' n' c' b'. prewarm_loop decode marshal envs i years err n (c, b) = Some (err', n', (c', b'))
    \<and> cache_ok (decoder_of decode) c' \<and> backoff_ok b'"
  using assms(1,2)
proof (induction years arbitrary: i err n c b)
  case (Cons year years)
  show ?case
  proof (cases "pw_ctx (envs i)")
    case None
    have h: "prewarm_harmless decode (envs i)" using assms(3) by blast
    obtain data e c1 where p: "peek_year decode (pw_peek (envs i)) year c = Some ((data, e), c1)" "cache_ok (decoder_of decode) c1"
      using peek_year_ok [OF Cons.prems(1)] h unfolding prewarm_harmless_def by blast
    show ?thesis
    proof (cases "e = None \<and> dy_Present data \<and> dy_Fresh data \<and> dy_DecodeErr data = None")
      case True
      then show ?thesis using None p Cons.IH [OF p(2) Cons.prems(2)] by simp
    next
      case False
      obtain r n1 c2 b2 where f: "prewarm_fetch decode marshal (envs i) year err n (c1, b) = Some (r, n1, (c2, b2))"
        "cache_ok (decoder_of decode) c2" "backoff_ok b2"
        using prewarm_fetch_ok [OF p(2) Cons.prems(2) h] by blast
      have step: "prewarm_loop decode marshal envs i (year # years) err n (c, b) =
          (case r of Inl x \<Rightarrow> Some (Some (PrewarmCtx x), n1, (c2, b2))
           | Inr err1 \<Rightarrow> prewarm_loop decode marshal envs (Suc i) years err1 n1 (c2, b2))"
        using None p(1) False f(1) by (auto split: sum.splits)
      show ?thesis unfolding step using f(2,3) Cons.IH [OF f(2,3)] by (cases r) auto
    qed
  qed (use Cons.prems in simp)
qed simp

lemma Prewarm_ok:
  assumes "cache_ok (decoder_of decode) c" "backoff_ok b" "\<forall>j. prewarm_harmless decode (envs j)"
  shows "\<exists>err' n' c' b'. Prewarm decode marshal envs years (c, b) = Some (err', n', (c', b'))
    \<and> cache_ok (decoder_of decode) c' \<and> backoff_ok b'"
  unfolding Prewarm_def by (rule prewarm_loop_ok [OF assms])

section \<open>The resolver during a request\<close>

lemma list_answer_resolver:
  "list_answer cfg env data prior season year category w m s = (p, w', m', s') \<Longrightarrow> sv_resolver s' = li_resolver env (sv_resolver s)"
  by (auto simp: list_answer_def Let_def split: prod.splits)

lemma list_prior_resolver:
  assumes "list_prior cfg env data season year category w m s = (p, w', m', s')"
  shows "sv_resolver s' \<in> {sv_resolver s, li_resolver env (sv_resolver s)}"
proof (cases "season = ''WINTER''")
  case False
  with assms show ?thesis using list_answer_resolver by (simp add: list_prior_def)
next
  case True
  show ?thesis
  proof (cases "get_year env (li_prior env) (year - 1) (sv_cache s)")
    case None
    with assms True show ?thesis by (simp add: list_prior_def)
  next
    case (Some r)
    obtain d e c where "r = ((d, e), c)" by (metis prod.exhaust)
    with assms True Some show ?thesis
      by (cases e) (auto simp: list_prior_def split: if_splits dest: list_answer_resolver)
  qed
qed

lemma handleList_resolver:
  assumes "handleList cfg env rq w m s = (p, w', m', s')"
  shows "sv_resolver s' \<in> {sv_resolver s, li_resolver env (sv_resolver s)}"
proof (cases "list_request (li_quote env) (li_year env) (ResolverLoaded s) rq")
  case (Inl respond)
  with assms show ?thesis by (simp add: handleList_def)
next
  case (Inr x)
  obtain season year category where x: "x = (season, year, category)" by (metis prod.exhaust)
  note start = handleList_def Inr x Let_def
  show ?thesis
  proof (cases "get_year env (li_read env) year (sv_cache s)")
    case None
    with assms show ?thesis by (simp add: start)
  next
    case (Some r)
    obtain d e c where r: "r = ((d, e), c)" by (metis prod.exhaust)
    obtain fe c1 b1 where f: "FetchAndStore (li_decode env) (li_marshal env) (li_fetch env) year (c, sv_backoff s) = (fe, (c1, b1))"
      by (metis prod.exhaust)
    note start = start Some r f
    show ?thesis
    proof (cases "e = None \<and> unusable d \<and> fe = None")
      case False
      with assms show ?thesis
        by (cases e; cases fe) (auto simp: start respondEmpty_def split: if_splits dest: list_prior_resolver)
    next
      case True
      show ?thesis
      proof (cases "get_year env (li_reread env) year c1")
        case None
        with assms True show ?thesis by (auto simp: start)
      next
        case (Some r2)
        obtain d2 e2 c2 where "r2 = ((d2, e2), c2)" by (metis prod.exhaust)
        with assms True Some show ?thesis
          by (cases e2) (auto simp: start respondEmpty_def split: if_splits dest: list_prior_resolver)
      qed
    qed
  qed
qed

lemma handleCacheClear_resolver:
  "handleCacheClear db cfg rq w m s = (p, w', m', s') \<Longrightarrow> sv_resolver s' = sv_resolver s"
  by (auto simp: handleCacheClear_def debugHandler_def split: if_splits option.splits prod.splits)

section \<open>The running service\<close>

record system =
  sy_server :: server
  sy_last_vacuum :: int
  sy_loader :: "parsed_source option"
  sy_disk :: disk

abbreviation decode_year :: "string \<Rightarrow> string + anilist_show list" where
  "decode_year \<equiv> DecodeYearData unmarshal_year"

abbreviation cache_coherent :: "cache \<Rightarrow> bool" where
  "cache_coherent \<equiv> cache_ok (decoder_of decode_year)"

definition with_cache :: "system \<Rightarrow> cache \<Rightarrow> backoff \<Rightarrow> system" where
  "with_cache s c b = s\<lparr>sy_server := (sy_server s)\<lparr>sv_cache := c, sv_backoff := b\<rparr>\<rparr>"

text \<open>
  What may happen, for the codecs \<open>cd\<close>, the configuration \<open>cfg\<close>, the bytes \<open>B\<close> that the mapping file and downloads may
  hold, and the path \<open>p\<close> of the file. A request sees the resolver as the refresh worker left it at some point.
\<close>

inductive bridge_step :: "codecs \<Rightarrow> config \<Rightarrow> string set \<Rightarrow> string \<Rightarrow> system \<Rightarrow> system \<Rightarrow> bool"
  for cd cfg B p where
  request: "li_decode env = decode_year \<Longrightarrow> list_harmless env
    \<Longrightarrow> \<forall>r. resolver_ok cd B r \<longrightarrow> resolver_ok cd B (li_resolver env r)
    \<Longrightarrow> serve (server_routes cfg env db ping) ms broken rq (sy_server s) = Some (w, line, sv)
    \<Longrightarrow> bridge_step cd cfg B p s (s\<lparr>sy_server := sv\<rparr>)"
| fetch: "peek_harmless decode_year (fe_peek (fe :: (cache \<times> backoff) fetch_env)) \<Longrightarrow> others_harmless decode_year (fe_others fe)
    \<Longrightarrow> FetchAndStore decode_year (marshal_year nil) fe year (sv_cache (sy_server s), sv_backoff (sy_server s)) = (err, (c, b))
    \<Longrightarrow> bridge_step cd cfg B p s (with_cache s c b)"
| prewarm: "\<forall>j. prewarm_harmless decode_year (envs j :: (cache \<times> backoff) prewarm_env)
    \<Longrightarrow> Prewarm decode_year (marshal_year nil) envs years (sv_cache (sy_server s), sv_backoff (sy_server s)) = Some (perr, n, (c, b))
    \<Longrightarrow> bridge_step cd cfg B p s (with_cache s c b)"
| maintain: "maintenance_harmless decode_year (mt :: (cache \<times> backoff) maintenance_env)
    \<Longrightarrow> maintenance_turn decode_year (marshal_year nil) mt (sv_cache (sy_server s), sy_last_vacuum s, sv_backoff (sy_server s))
      = Some (vac, (c, vacuumed, b))
    \<Longrightarrow> bridge_step cd cfg B p s (with_cache (s\<lparr>sy_last_vacuum := vacuumed\<rparr>) c b)"
| flush: "keeps_ok (decoder_of decode_year) before \<Longrightarrow> keeps_ok (decoder_of decode_year) after
    \<Longrightarrow> bridge_step cd cfg B p s (with_cache s (flushLastHits fenv before after (sv_cache (sy_server s))) (sv_backoff (sy_server s)))"
| track: "keeps_ok (decoder_of decode_year) meanwhile
    \<Longrightarrow> trackNewMappings denv meanwhile wts txs now shs batch season year (sv_cache (sy_server s)) = (announced, c)
    \<Longrightarrow> bridge_step cd cfg B p s (with_cache s c (sv_backoff (sy_server s)))"
| refresh: "load_in B cd (rf_load (rf :: refresh_env)) \<Longrightarrow> \<forall>d. bytes_in B p d \<longrightarrow> bytes_in B p (rf_disk rf d)
    \<Longrightarrow> refresh_turn cd cfg i rf ((sy_loader s, sy_disk s), sv_resolver (sy_server s)) = (delay, ((st, d), r))
    \<Longrightarrow> bridge_step cd cfg B p s (s\<lparr>sy_loader := st, sy_disk := d, sy_server := (sy_server s)\<lparr>sv_resolver := r\<rparr>\<rparr>)"
| background: "bg_step (sv_background (sy_server s)) bg
    \<Longrightarrow> bridge_step cd cfg B p s (s\<lparr>sy_server := (sy_server s)\<lparr>sv_background := bg\<rparr>\<rparr>)"

text \<open>The service as it starts on an opened cache and the files on disk, and what it can become.\<close>

definition fresh_system :: "(int, year_row) gomap \<Rightarrow> (seen_key, seen_row) gomap \<Rightarrow> disk \<Rightarrow> system" where
  "fresh_system years seen d =
     \<lparr>sy_server = \<lparr>sv_cache = openCacheDB years seen, sv_backoff = new_backoff, sv_background = NewBackground,
        sv_resolver = NewResolver\<rparr>, sy_last_vacuum = 0, sy_loader = None, sy_disk = d\<rparr>"

inductive bridge_reach :: "codecs \<Rightarrow> config \<Rightarrow> string set \<Rightarrow> string \<Rightarrow> system \<Rightarrow> bool" for cd cfg B p where
  start: "mwf years \<Longrightarrow> mwf seen \<Longrightarrow> bytes_in B p d \<Longrightarrow> bridge_reach cd cfg B p (fresh_system years seen d)"
| more: "bridge_reach cd cfg B p s \<Longrightarrow> bridge_step cd cfg B p s s' \<Longrightarrow> bridge_reach cd cfg B p s'"

text \<open>The invariant.\<close>

definition system_ok :: "codecs \<Rightarrow> string set \<Rightarrow> string \<Rightarrow> system \<Rightarrow> bool" where
  "system_ok cd B p s \<longleftrightarrow> server_ok decode_year (sy_server s) \<and> resolver_ok cd B (sv_resolver (sy_server s))
     \<and> loader_ok cd B (sy_loader s) \<and> bytes_in B p (sy_disk s)"

lemma system_okD:
  assumes "system_ok cd B p s"
  shows "cache_coherent (sv_cache (sy_server s))" "backoff_ok (sv_backoff (sy_server s))" "bg_ok (sv_background (sy_server s))"
    "resolver_ok cd B (sv_resolver (sy_server s))" "loader_ok cd B (sy_loader s)" "bytes_in B p (sy_disk s)"
  using assms by (simp_all add: system_ok_def server_ok_def)

lemma with_cache_ok:
  "system_ok cd B p s \<Longrightarrow> cache_coherent c \<Longrightarrow> backoff_ok b \<Longrightarrow> system_ok cd B p (with_cache s c b)"
  by (simp add: system_ok_def with_cache_def server_ok_def)

lemma fresh_system_ok: "mwf years \<Longrightarrow> mwf seen \<Longrightarrow> bytes_in B p d \<Longrightarrow> system_ok cd B p (fresh_system years seen d)"
  by (simp add: system_ok_def fresh_system_def server_ok_def openCacheDB_ok new_backoff_ok bg_reach_ok [OF bg_reach.bg_new]
      resolver_ok_def NewResolver_def loader_ok_def)

text \<open>Requests keep the resolver to mappings of known bytes: a second instance of the server's contract.\<close>

interpretation served: web_server "server_routes cfg env db ping"
  "\<lambda>sv. list_harmless env \<and> li_decode env = decode_year \<and> (\<forall>r. resolver_ok cd B r \<longrightarrow> resolver_ok cd B (li_resolver env r))
     \<longrightarrow> server_ok decode_year sv \<and> resolver_ok cd B (sv_resolver sv)"
  for cfg env db ping cd B
proof (unfold_locales, goal_cases)
  case (1 path h s w rq m panicked w' m' s')
  have w: "writer_ok w" using 1(3) by simp
  from 1(1) consider "h = handleList cfg env" | "h = handleHealth db ping (PrewarmYears cfg)"
    | "h = handleCacheStats db (Some cfg)" | "h = handleCacheClear db (Some cfg)"
    by (auto simp: server_routes_def)
  then have "writer_ok w' \<and> sv_resolver s' \<in> {sv_resolver s, li_resolver env (sv_resolver s)}"
  proof cases
    case a: 1
    then show ?thesis using 1(4) handleList_resolver handleList_writer w by blast
  next
    case 2
    then show ?thesis using 1(4) w by (auto simp: handleHealth_result split: if_splits)
  next
    case 3
    then show ?thesis using 1(4) handleCacheStats_result [of db "Some cfg" rq w m s] w by auto
  next
    case 4
    then show ?thesis using 1(4) handleCacheClear_resolver handleCacheClear_keeps w by auto
  qed
  moreover have "server_ok decode_year s'" if "list_harmless env" "li_decode env = decode_year" "server_ok decode_year s"
    using web.keeps [where env = env, OF 1(1) _ 1(3,4)] that by simp
  ultimately show ?case using 1(2) by auto
qed

lemma bridge_step_ok:
  assumes "bridge_step cd cfg B p s s'" "system_ok cd B p s"
    and path: "Validate (cd_tmpdir cd) (used_path (AnibridgeMappingPath cfg)) = Inr p"
  shows "system_ok cd B p s'"
  using assms(1)
proof (cases rule: bridge_step.cases)
  case (request env db ping ms broken rq w line sv)
  have ok: "server_ok decode_year (sy_server s) \<and> resolver_ok cd B (sv_resolver (sy_server s))"
    using assms(2) by (simp add: system_ok_def)
  have "server_ok decode_year sv \<and> resolver_ok cd B (sv_resolver sv)"
    using served.served [where env = env and s = "sy_server s" and cd = cd and B = B, of cfg db ping ms broken rq] ok request
    by auto
  then show ?thesis using assms(2) request(1) by (simp add: system_ok_def)
next
  case (fetch fe nil year err c b)
  then show ?thesis
    using FetchAndStore_ok [OF system_okD(1,2) [OF assms(2)] fetch(2,3,4)] with_cache_ok [OF assms(2)] by simp
next
  case (prewarm envs nil years perr n c b)
  then show ?thesis
    using Prewarm_ok [OF system_okD(1,2) [OF assms(2)] prewarm(2), of "marshal_year nil" years] with_cache_ok [OF assms(2)] by simp
next
  case (maintain mt nil vac c vacuumed b)
  then show ?thesis
    using maintenance_turn_result [OF maintain(2) system_okD(1,2) [OF assms(2)], of "marshal_year nil" "sy_last_vacuum s"]
      with_cache_ok [of cd B p "s\<lparr>sy_last_vacuum := vacuumed\<rparr>" c b] assms(2)
    by (auto simp: system_ok_def)
next
  case (flush before after fenv)
  then show ?thesis
    using flushLastHits_ok [OF system_okD(1) [OF assms(2)] flush(2,3)] with_cache_ok [OF assms(2)] system_okD(2) [OF assms(2)]
    by simp
next
  case (track meanwhile denv wts txs now shs batch season year announced c)
  then show ?thesis
    using trackNewMappings_ok [OF track(3) system_okD(1) [OF assms(2)] track(2)] with_cache_ok [OF assms(2)] system_okD(2) [OF assms(2)]
    by simp
next
  case (refresh rf i delay st d r)
  obtain err where run: "loadResolver cd (rf_gate rf) (rf_after rf) (rf_load rf) cfg
      ((sy_loader s, rf_disk rf (sy_disk s)), sv_resolver (sy_server s)) = (err, ((st, d), r))"
    using refresh(4) by (auto simp: refresh_turn_def refreshMapping_def Let_def) (metis prod.collapse)
  have "bytes_in B p (rf_disk rf (sy_disk s))" using refresh(3) system_okD(6) [OF assms(2)] by blast
  from loadResolver_result [OF run refresh(2) system_okD(5) [OF assms(2)] this path] show ?thesis
    using assms(2) refresh(1) by (simp add: system_ok_def server_ok_def)
next
  case (background bg)
  then show ?thesis
    using bg_step_ok [OF background(2) system_okD(3) [OF assms(2)]] assms(2) by (simp add: system_ok_def server_ok_def)
qed

lemma bridge_reach_ok:
  assumes "bridge_reach cd cfg B p s" "Validate (cd_tmpdir cd) (used_path (AnibridgeMappingPath cfg)) = Inr p"
  shows "system_ok cd B p s"
  using assms(1)
proof (induction rule: bridge_reach.induct)
  case (start years seen d)
  then show ?case by (rule fresh_system_ok)
next
  case (more s s')
  show ?case by (rule bridge_step_ok [OF more.hyps(2) more.IH assms(2)])
qed

section \<open>Properties\<close>

text \<open>A sample: a configuration with the sample file, and the service after the first turn of the refresh worker.\<close>

definition sample_cfg :: config where
  "sample_cfg = sample_config\<lparr>AnibridgeMappingPath := ''/data/m'', AnibridgeURL := ''u''\<rparr>"

definition sample_system :: "(int, year_row) gomap \<Rightarrow> system" where
  "sample_system years =
     (let s = fresh_system years [] [(''/data/m'', File ''z'')]
      in s\<lparr>sy_loader := Some \<lparr>ps_path = ''/data/m'', ps_url = ''u'', ps_digest = ''z'', ps_mapping = sample_mapping,
              ps_metadata = zero_metadata\<rparr>,
           sy_server := (sy_server s)\<lparr>sv_resolver := Some sample_mapping\<rparr>\<rparr>)"

lemma sample_cfg_path: "Validate (cd_tmpdir sample_codecs) (used_path (AnibridgeMappingPath sample_cfg)) = Inr ''/data/m''"
  using sample_path by (simp add: sample_cfg_def)

lemma sample_reach:
  assumes "mwf years"
  shows "bridge_reach sample_codecs sample_cfg UNIV ''/data/m'' (sample_system years)"
proof -
  let ?s = "fresh_system years [] [(''/data/m'', File ''z'')]"
  let ?rf = "\<lparr>rf_gate = None, rf_after = None, rf_load = sample_load, rf_disk = \<lambda>d. d\<rparr>"
  let ?st = "Some \<lparr>ps_path = ''/data/m'', ps_url = ''u'', ps_digest = ''z'', ps_mapping = sample_mapping, ps_metadata = zero_metadata\<rparr>"
  have start: "bridge_reach sample_codecs sample_cfg UNIV ''/data/m'' ?s"
    by (rule bridge_reach.start [OF assms]) (simp_all add: mwf_def bytes_in_def)
  obtain delay where "refresh_turn sample_codecs sample_cfg 0 ?rf ((sy_loader ?s, sy_disk ?s), sv_resolver (sy_server ?s))
      = (delay, ((?st, [(''/data/m'', File ''z'')]), Some sample_mapping))"
    by (simp add: refresh_turn_def refreshMapping_def loadResolver_def sample_cfg_def fresh_system_def sample_loads
        NewResolver_def SetMapping_def Let_def)
  from bridge_step.refresh [where rf = ?rf, OF _ _ this] have "bridge_step sample_codecs sample_cfg UNIV ''/data/m'' ?s
      (?s\<lparr>sy_loader := ?st, sy_disk := [(''/data/m'', File ''z'')], sy_server := (sy_server ?s)\<lparr>sv_resolver := Some sample_mapping\<rparr>\<rparr>)"
    by (simp add: sample_in)
  moreover have "?s\<lparr>sy_loader := ?st, sy_disk := [(''/data/m'', File ''z'')], sy_server := (sy_server ?s)\<lparr>sv_resolver := Some sample_mapping\<rparr>\<rparr>
      = sample_system years"
    by (simp add: sample_system_def fresh_system_def Let_def)
  ultimately show ?thesis using bridge_reach.more [OF start] by simp
qed

text \<open>
  Claim C2. However requests, fetches, prewarming, maintenance, the writer of last hits, the tracking, the refresh worker and
  the background slots follow one another since the start, nothing of it panics past its boundary: every request is
  answered and logged with the status sent (only good answers of \<open>/health\<close> are not logged), prewarming and maintenance come to an end, the cache is coherent with what is stored,
  at most one background task works on a year, and a mapping in use is one that the bytes of the file or a download parse to.
\<close>

theorem service_keeps_going:
  assumes "bridge_reach cd cfg B p s" "Validate (cd_tmpdir cd) (used_path (AnibridgeMappingPath cfg)) = Inr p"
  shows "cache_coherent (sv_cache (sy_server s)) \<and> backoff_ok (sv_backoff (sy_server s))
    \<and> (\<forall>y. count_list (tasks (sv_background (sy_server s))) (YearTask y) \<le> 1)
    \<and> (\<forall>m. sv_resolver (sy_server s) = Some m \<longrightarrow> (\<exists>data \<in> B. parses_to cd data m))
    \<and> (\<forall>env db ping ms broken rq. list_harmless env \<and> li_decode env = decode_year \<longrightarrow>
        (\<exists>w line sv. serve (server_routes cfg env db ping) ms broken rq (sy_server s) = Some (w, line, sv)
          \<and> (line = None \<longrightarrow> rq_Path rq = ''/health'' \<and> rw_status w < 400 \<and> rw_writeErr w = None)
          \<and> (\<forall>level msg attrs. line = Some (level, msg, attrs) \<longrightarrow>
              map_of attrs ''status'' = Some (AInt (case sent_status w of None \<Rightarrow> 200 | Some code \<Rightarrow> code)))))
    \<and> (\<forall>envs years. (\<forall>j. prewarm_harmless decode_year (envs j)) \<longrightarrow>
        Prewarm decode_year (marshal_year nil) envs years (sv_cache (sy_server s), sv_backoff (sy_server s)) \<noteq> None)
    \<and> (\<forall>mt. maintenance_harmless decode_year mt \<longrightarrow> maintenance_turn decode_year (marshal_year nil) mt
          (sv_cache (sy_server s), sy_last_vacuum s, sv_backoff (sy_server s)) \<noteq> None)"
proof (intro conjI allI impI)
  note ok = system_okD [OF bridge_reach_ok [OF assms]]
  show "cache_coherent (sv_cache (sy_server s))" "backoff_ok (sv_backoff (sy_server s))" by (rule ok)+
  show "count_list (tasks (sv_background (sy_server s))) (YearTask y) \<le> 1" for y using ok(3) by (simp add: bg_ok_def)
  show "\<exists>data \<in> B. parses_to cd data m" if "sv_resolver (sy_server s) = Some m" for m
    using ok(4) that by (simp add: resolver_ok_def)
  show "\<exists>w line sv. serve (server_routes cfg env db ping) ms broken rq (sy_server s) = Some (w, line, sv)
      \<and> (line = None \<longrightarrow> rq_Path rq = ''/health'' \<and> rw_status w < 400 \<and> rw_writeErr w = None)
      \<and> (\<forall>level msg attrs. line = Some (level, msg, attrs) \<longrightarrow>
          map_of attrs ''status'' = Some (AInt (case sent_status w of None \<Rightarrow> 200 | Some code \<Rightarrow> code)))"
    if "list_harmless env \<and> li_decode env = decode_year" for env db ping ms broken rq
    using web.served [where env = env and s = "sy_server s", of cfg db ping ms broken rq] that ok(1-3)
    by (simp add: server_ok_def) blast
  show "Prewarm decode_year (marshal_year nil) envs years (sv_cache (sy_server s), sv_backoff (sy_server s)) \<noteq> None"
    if "\<forall>j. prewarm_harmless decode_year (envs j)" for envs years
    using Prewarm_ok [OF ok(1,2) that, of "marshal_year nil" years] by auto
  show "maintenance_turn decode_year (marshal_year nil) mt (sv_cache (sy_server s), sy_last_vacuum s, sv_backoff (sy_server s)) \<noteq> None"
    if "maintenance_harmless decode_year mt" for mt
    using maintenance_turn_result [OF that ok(1,2), of "marshal_year nil" "sy_last_vacuum s"] by auto
qed

lemma service_keeps_going_witness:
  "\<exists>s. bridge_reach sample_codecs sample_cfg UNIV ''/data/m'' s \<and> sv_resolver (sy_server s) = Some sample_mapping
    \<and> (\<exists>w line sv. serve (server_routes sample_cfg (sample_list\<lparr>li_decode := decode_year\<rparr>) (pk_db sample_peek) None) 3 None
        (sample_request ''GET'' ''/list'') (sy_server s) = Some (w, Some line, sv))"
proof -
  have reach: "bridge_reach sample_codecs sample_cfg UNIV ''/data/m'' (sample_system [])"
    by (rule sample_reach) (simp add: mwf_def)
  have "list_harmless (sample_list\<lparr>li_decode := decode_year\<rparr>) \<and> li_decode (sample_list\<lparr>li_decode := decode_year\<rparr>) = decode_year"
    by (simp add: sample_list_def list_harmless_def peek_harmless_def others_harmless_def keeps_ok_def sample_peek_def)
  then obtain w line sv where "serve (server_routes sample_cfg (sample_list\<lparr>li_decode := decode_year\<rparr>) (pk_db sample_peek) None) 3 None
        (sample_request ''GET'' ''/list'') (sy_server (sample_system [])) = Some (w, line, sv)"
      "line = None \<longrightarrow> rq_Path (sample_request ''GET'' ''/list'') = ''/health''"
    using service_keeps_going [OF reach sample_cfg_path, THEN conjunct2, THEN conjunct2, THEN conjunct2, THEN conjunct2,
        THEN conjunct1, rule_format, where env = "sample_list\<lparr>li_decode := decode_year\<rparr>"] by metis
  moreover have "rq_Path (sample_request ''GET'' ''/list'') = ''/list''" by (simp add: sample_request_def)
  ultimately obtain l where "serve (server_routes sample_cfg (sample_list\<lparr>li_decode := decode_year\<rparr>) (pk_db sample_peek) None) 3 None
        (sample_request ''GET'' ''/list'') (sy_server (sample_system [])) = Some (w, Some l, sv)"
    by (cases line) auto
  moreover have "sv_resolver (sy_server (sample_system [])) = Some sample_mapping" by (simp add: sample_system_def Let_def)
  ultimately show ?thesis using reach by blast
qed

end
