(* ===== verification/Spec2Isabelle.thy ===== *)
theory Spec2Isabelle
  imports Bridge_Prelude Go_Calendar Anilist_Show Show_Filter Mapping_Resolve Json_Tokens
    Mapping_Parse Mapping_Reference Decoded_Cache Year_Cache Anilist_Client Data_Path Config_Load Fetch_Backoff Year_Fetch Fetch_Inflight
    Background_Tasks Show_Process Mapping_Disk Mapping_Download Byte_Readers
    Mapping_Loader Maintenance Http_Writer Http_Server Decode_Gate Cache_Open Server_Run Json_Codec Json_Reader Json_Scanner Json_Struct Data_Codec Anilist_Wire Bridge_System
begin

text \<open>
  A verification of the Sonarr AniList bridge (\<open>src/\<close>, Go).

  The program is a small web service. It fetches the shows of a year from AniList (\<open>internal/anilist\<close>), stores them as JSON
  in SQLite with a cache of decoded years in front (\<open>internal/cache\<close>), downloads and parses the anibridge mapping from
  AniList and MAL ids to TVDB ids (\<open>internal/mapping\<close>), filters and resolves the shows for a season (\<open>internal/filter\<close>,
  \<open>internal/scheduler\<close>), refreshes everything in the background (\<open>internal/scheduler\<close>), and answers \<open>/list\<close>, \<open>/health\<close>,
  \<open>/cache/stats\<close> and \<open>/cache/clear\<close> (\<open>cmd/server/main.go\<close>).

  Parts and theories, in the order of the imports:

  \<^item> Shared. \<open>Bridge_Prelude\<close>: 64-bit integers, the routines of \<open>strings\<close> and \<open>strconv\<close>, Go maps as association lists
    behind the locale \<open>go_map\<close>. \<open>Go_Calendar\<close>: \<open>time.Time\<close> and \<open>time.Duration\<close> as integers, the proleptic calendar.
  \<^item> Shows. \<open>Anilist_Show\<close> (the structs and predicates of \<open>anilist.go\<close>), \<open>Show_Filter\<close> (\<open>filter.go\<close>, with the five loops
    that append to \<open>shows[:0]\<close> on their backing array), \<open>Show_Process\<close> (\<open>Process\<close>, batch resolution and announcements of
    \<open>scheduler.go\<close>).
  \<^item> The mapping. \<open>Json_Tokens\<close>, \<open>Mapping_Parse\<close> (\<open>parse.go\<close> on the decoder's token stream), \<open>Mapping_Reference\<close> (the same
    on documents, and the equivalence), \<open>Mapping_Resolve\<close> (\<open>resolve.go\<close>, key snapshots), \<open>Mapping_Disk\<close> (atomic writes with
    the directories they make, and the sidecar), \<open>Mapping_Download\<close> (URL policy, redirects, public addresses, checksum), \<open>Byte_Readers\<close> (the
    context and limit readers around a file or decoder), \<open>Mapping_Loader\<close> (\<open>loader.go\<close> over them, and the
    refresh worker of \<open>scheduler.go\<close> that publishes to the resolver).
  \<^item> The cache. \<open>Decoded_Cache\<close> (the LRU of \<open>decoded_year.go\<close>, refining lists), \<open>Decode_Gate\<close> (the per-year gate of
    \<open>acquire\<close> as steps of goroutines), \<open>Year_Cache\<close> (\<open>cache.go\<close>: both tables, retries on busy statements, the worker that
    writes last hits, decoded reads with interleaving), \<open>Cache_Open\<close> (opening, pragmas, the URI of the database).
  \<^item> The upstream. \<open>Anilist_Client\<close> (rate limiter, retries, pagination), \<open>Anilist_Wire\<close> (the query and the bytes of a
    response).
  \<^item> The scheduler. \<open>Fetch_Backoff\<close>, \<open>Year_Fetch\<close> (one fetch, prewarming and refreshing, over the locale \<open>year_store\<close>),
    \<open>Fetch_Inflight\<close> (coalescing concurrent fetches), \<open>Background_Tasks\<close> (slots and shutdown), \<open>Maintenance\<close>.
  \<^item> The server. \<open>Data_Path\<close> and \<open>Config_Load\<close> (\<open>datapath.go\<close>, \<open>allowlist.go\<close>, \<open>config.go\<close>), \<open>Http_Writer\<close> (writer,
    middleware, mux, over the locale \<open>web_server\<close>), \<open>Http_Server\<close> (the handlers), \<open>Server_Run\<close> (startup, shutdown, health
    check of the container).
  \<^item> JSON. \<open>Json_Codec\<close> (writer and reader of \<open>encoding/json\<close>), \<open>Json_Reader\<close> (reading depends on no more than the value; what
    is read is UTF-8), \<open>Json_Scanner\<close> (the decoder's tokens from bytes, equal to those of the value read),
    \<open>Json_Struct\<close> (structs as \<open>encoding/json\<close> takes them, the locale \<open>codec\<close>), \<open>Data_Codec\<close> (the program's structs).
  \<^item> The whole. \<open>Bridge_System\<close>: the state of the running service and its steps - requests and everything that works in the
    background, in any order.

  State and operations. A struct is a record with the fields of the code, an operation a function from the old state to
  its result and the new state; the name of a definition is the name of the Go function where there is one. Errors are
  sums or options, and a panic is an outcome of its own (the outer \<open>None\<close> of the cache operations, the flag of a handler).
  What the program does not decide itself is an argument, consumed in the order the code asks for it: the clock, random
  jitter, how a statement, system call or HTTP exchange ends, and what other goroutines do at the points where a lock is
  released (a function on the shared state that keeps its invariant). Shared objects whose interleaving is the point - the
  decode gates, the flights of a fetch, the background slots - are step relations or step functions with an invariant.
  Integers that can wrap (\<open>generation\<close> counters, bytes, ports) are words or have their range checked; durations and
  instants are integers far from the bounds of the code.

  What the lemmas show. Per component: an invariant that every operation keeps (\<open>dc_ok\<close>, \<open>cache_ok\<close>, \<open>backoff_ok\<close>,
  \<open>bg_ok\<close>, \<open>server_ok\<close>, \<open>loader_ok\<close>, \<open>resolver_ok\<close>), the result on every branch, equivalence with a plainer definition
  (the parser with its reference on documents, the LRU with lists, the filters with their loops on arrays, the address
  check with a table of networks), round trips (the JSON of the shows, the URI of the database, the sidecar) and what
  interleaving cannot break. Across components: a fetch stores what the upstream sent (\<open>fetched_year_stored\<close>), a list
  request answers with what was stored (\<open>list_end_to_end\<close> below), a mapping that is served was parsed from a file or
  a verified download (\<open>refresh_worker_serves\<close>), no order of requests and background work breaks an invariant or leaves a
  request unanswered (\<open>service_keeps_going\<close>), a run stops in order (\<open>runContext_stops\<close>).

  Termination and bounds. Everything is total; no operation runs on fuel: a reader is read to its end because every read
  takes a byte or one of the short sizes given. The retry loops carry the bound of the code
  (five attempts), pagination stops after 100 pages, the parser and the reader carry the nesting limits of the code and
  of \<open>encoding/json\<close> (10000), and the guards on lengths in the reader never fail. A wait for admission consumes a list of
  observations, and its end within them is proved from the clock (\<open>throttle_admits\<close>).

  Not modelled. \<open>net/http\<close>, \<open>database/sql\<close> and the SQLite engine, DNS and sockets, the file system below single calls,
  SHA-256, MD5 and zstd (functions given to the model), the RFC 3339 times of the sidecar, the text of log lines beyond their level and outcome, Unicode case
  and blanks outside ASCII, the flags parsed by \<open>main\<close>, and the program's test helpers and fixtures
  (\<open>internal/testutil\<close>, \<open>testdata/runtime-fixture\<close>), scripts and container files. SQLite is two tables whose statements
  either apply whole or fail.
\<close>

section \<open>From the upstream to the answer\<close>

text \<open>The object a show becomes in the answer when it has a TVDB id.\<close>

definition show_object :: "anilist_show \<Rightarrow> int \<Rightarrow> json" where
  "show_object s t = JObj ((''tvdbId'', JNum (fmt_d t))
     # (if DisplayTitle s = [] then [] else [(''title'', JStr (DisplayTitle s))]))"

lemma DisplayTitle_valid:
  assumes "good_show s"
  shows "utf8_clean (DisplayTitle s) = DisplayTitle s"
proof -
  have num: "utf8_clean (''Anime #'' @ fmt_d n) = ''Anime #'' @ fmt_d n" for n
  proof (rule utf8_clean_ascii)
    have "(of_char c :: nat) < 128" if "is_digit c" for c using that by (simp add: is_digit_def)
    then show "\<forall>c \<in> set (''Anime #'' @ fmt_d n). (of_char c :: nat) < 128"
      using nat_str_digits by (auto simp: fmt_d_def)
  qed
  have "pred_option valid_utf8 (English (sh_Title s))" "pred_option valid_utf8 (Romaji (sh_Title s))"
    using assms by (simp_all add: good_show_def good_title_def)
  then show ?thesis using num [simplified] by (auto simp: DisplayTitle_def valid_utf8_def split: option.splits list.splits)
qed

text \<open>The body for the shows of a year, and what a client reads from it.\<close>

lemma answer_reads:
  assumes "list_all good_show l"
  shows "read_json (marshal_shows (List.map_filter (\<lambda>s. if p s then map_option (\<lambda>t. \<lparr>TVDBID' = t, Title' = DisplayTitle s\<rparr>) (f s) else None) l))
    = Some (JArr (List.map_filter (\<lambda>s. if p s then map_option (show_object s) (f s) else None) l))"
proof -
  have "map (\<lambda>x. JObj ((''tvdbId'', JNum (fmt_d (TVDBID' x))) # (if Title' x = [] then [] else [(''title'', JStr (utf8_clean (Title' x)))])))
      (List.map_filter (\<lambda>s. if p s then map_option (\<lambda>t. \<lparr>TVDBID' = t, Title' = DisplayTitle s\<rparr>) (f s) else None) l)
    = List.map_filter (\<lambda>s. if p s then map_option (show_object s) (f s) else None) l"
    using assms by (induction l) (auto simp: map_filter_simps show_object_def DisplayTitle_valid split: option.splits)
  then show ?thesis unfolding list_body_reads by simp
qed

text \<open>
  Claim C1. From the stored bytes to the client: in any state the service can reach, if the row of the asked year holds what
  \<open>json.Marshal\<close> writes for shows that a response of the upstream can give, with distinct ids, then a list request for any
  season but winter that passes the checks and whose reads work is answered with 200 and, unless the connection fails, with
  a JSON array that reads back as one object per wanted show that the mapping in use knows, in the order stored, with its
  TVDB id and its title unchanged - and that mapping is one the bytes of a cached file or a verified download parse to.
\<close>

theorem list_end_to_end:
  assumes "bridge_reach cd cfg B p sys" "Validate (cd_tmpdir cd) (used_path (AnibridgeMappingPath cfg)) = Inr p"
    and "list_request (li_quote env) (li_year env) (ResolverLoaded (sy_server sys)) rq = Inr (season, year, category)"
    and "season \<noteq> ''WINTER''" "li_decode env = decode_year" "list_harmless env" "untouched w"
    and "\<forall>r. resolver_ok cd B r \<longrightarrow> resolver_ok cd B (li_resolver env r)"
    and "read_lives (li_read env)" "read_lives (li_reread env)" "read_lives (li_prior env)"
    and "row_bytes (seen_by (li_read env) (sv_cache (sy_server sys))) year = Some data" "marshal_year nil (Some l) = Inr data"
    and "list_all good_show l" "distinct (map sh_ID l)"
  defines "mapping \<equiv> li_resolver env (sv_resolver (sy_server sys))"
  shows "\<exists>w' m' s'. handleList cfg env rq w m (sy_server sys) = (False, w', m', s') \<and> sent_status w' = Some 200
    \<and> (rw_fails w' = None \<longrightarrow> read_json (rw_body w') = Some (JArr (List.map_filter (\<lambda>sh.
          if wanted cfg (li_now env) season category sh then map_option (show_object sh) (tvdb_for mapping sh) else None) l)))
    \<and> (\<forall>mp. mapping = Some mp \<longrightarrow> (\<exists>bytes \<in> B. parses_to cd bytes mp))"
proof -
  let ?s = "sy_server sys"
  note sys = bridge_reach_ok [OF assms(1,2)]
  have server: "server_ok (li_decode env) ?s" using sys assms(5) by (simp add: system_ok_def)
  have ok: "list_all show_ok l" "map clean_show l = l"
    using assms(14) good_show_stored by (auto simp: list_all_iff intro!: map_idI)
  have row: "row_shows (li_decode env) (seen_by (li_read env) (sv_cache ?s)) year = Some l"
    using year_decodes [OF ok(1) assms(13)] ok(2) assms(5,12) by (simp add: row_shows_def decoder_of_def)
  obtain w' m' s' shs c where run: "handleList cfg env rq w m ?s = (False, w', m', s')"
    and answer: "served_shows env year ?s shs" "answered_with cfg env (sv_resolver ?s) shs (prior_shows env season year c) season category w'"
    using handleList_result [OF server assms(6,7,3), of cfg m] by (elim exE conjE) (auto simp: row assms(9-11))
  have shs: "shs = l" using answer(1) row by (simp add: served_shows_def)
  have prior: "prior_shows env season year c = []" using assms(4) by (simp add: prior_shows_def)
  have "fst (Process cfg mapping (li_now env) l [] season category)
      = List.map_filter (\<lambda>sh. if wanted cfg (li_now env) season category sh
          then map_option (\<lambda>t. \<lparr>TVDBID' = t, Title' = DisplayTitle sh\<rparr>) (tvdb_for mapping sh) else None) l"
    using Process_result [OF assms(15), of "[]"] assms(4) by simp
  then have body: "rw_fails w' = None \<longrightarrow> read_json (rw_body w') = Some (JArr (List.map_filter (\<lambda>sh.
      if wanted cfg (li_now env) season category sh then map_option (show_object sh) (tvdb_for mapping sh) else None) l))"
    using answer(2) answer_reads [OF assms(14)] by (simp add: answered_with_def shs prior mapping_def)
  have "resolver_ok cd B mapping" using assms(8) system_okD(4) [OF sys] by (simp add: mapping_def)
  then have "\<forall>mp. mapping = Some mp \<longrightarrow> (\<exists>bytes \<in> B. parses_to cd bytes mp)" by (auto simp: resolver_ok_def)
  with run body answer(2) show ?thesis by (auto simp: answered_with_def)
qed

lemma list_end_to_end_witness:
  fixes env s rq data
  defines "env \<equiv> sample_list\<lparr>li_decode := decode_year, li_marshal := marshal_year (\<lambda>_. (True, True))\<rparr>"
  defines "data \<equiv> json_text (JArr [show_json (\<lambda>_. (True, True)) sample_show])"
  defines "s \<equiv> sample_system [(2024, \<lparr>yr_data = data, fetched_at = 90, last_hit = 90\<rparr>)]"
  defines "rq \<equiv> \<lparr>rq_Method = ''GET'', rq_Path = ''/list'', rq_Query = \<lambda>_. [], rq_Authorization = []\<rparr>"
  shows "\<exists>w' m' s'. handleList sample_cfg env rq (new_writer None) no_metadata (sy_server s) = (False, w', m', s')
    \<and> sent_status w' = Some 200
    \<and> (rw_fails w' = None \<longrightarrow> read_json (rw_body w')
        = Some (JArr [JObj [(''tvdbId'', JNum ''9''), (''title'', JStr ''A \"B\" <C>'')]]))"
proof -
  have resolver: "sv_resolver (sy_server s) = Some sample_mapping" by (simp add: s_def sample_system_def Let_def)
  have req: "list_request (li_quote env) (li_year env) (ResolverLoaded (sy_server s)) rq = Inr (''ALL'', 2024, ''series'')"
    by (simp add: list_request_def list_season_def list_year_def list_category_def validSeasons_def ResolverLoaded_def resolver
        env_def sample_list_def rq_def trim_space_def to_upper_def)
  have season: "''ALL'' \<noteq> ''WINTER''" by simp
  have ok: "li_decode env = decode_year" "list_harmless env"
    by (simp_all add: env_def sample_list_def list_harmless_def peek_harmless_def others_harmless_def keeps_ok_def sample_peek_def)
  have res: "\<forall>r. resolver_ok sample_codecs UNIV r \<longrightarrow> resolver_ok sample_codecs UNIV (li_resolver env r)"
    by (simp add: env_def sample_list_def)
  have lives: "read_lives (li_read env)" "read_lives (li_reread env)" "read_lives (li_prior env)"
    by (simp_all add: env_def sample_list_def sample_reads)
  have row: "row_bytes (seen_by (li_read env) (sv_cache (sy_server s))) 2024 = Some data" "marshal_year (\<lambda>_. (True, True)) (Some [sample_show]) = Inr data"
    by (simp_all add: row_bytes_def seen_by_def env_def sample_list_def sample_peek_def s_def sample_system_def fresh_system_def
        openCacheDB_def mget_def marshal_year_def data_def Let_def)
  have good: "list_all good_show [sample_show]"
    by (simp add: good_show_def sample_show_def in_int64_def min_int64_def max_int64_def good_title_def valid_utf8_def date_ok_def
        utf8_clean_ascii)
  have dist: "distinct (map sh_ID [sample_show])" by simp
  have reach: "bridge_reach sample_codecs sample_cfg UNIV ''/data/m'' s" unfolding s_def by (rule sample_reach) (simp add: mwf_def)
  have answer: "List.map_filter (\<lambda>sh. if wanted sample_cfg (li_now env) ''ALL'' ''series'' sh
      then map_option (show_object sh) (tvdb_for (li_resolver env (sv_resolver (sy_server s))) sh) else None) [sample_show]
    = [JObj [(''tvdbId'', JNum ''9''), (''title'', JStr ''A \"B\" <C>'')]]"
  proof -
    have "wanted sample_cfg (li_now env) ''ALL'' ''series'' sample_show"
      by (simp add: wanted_def sample_cfg_def sample_config_def sample_show_def SkipByDuration_def)
    moreover have "tvdb_for (li_resolver env (sv_resolver (sy_server s))) sample_show = Some 9"
      by (simp add: tvdb_for_def env_def sample_list_def resolver sample_mapping_def sample_show_def LookupByMAL_def
          NewAnibridgeMapping_def mget_def)
    moreover have "show_object sample_show 9 = JObj [(''tvdbId'', JNum ''9''), (''title'', JStr ''A \"B\" <C>'')]"
      by (simp add: show_object_def DisplayTitle_def sample_show_def) code_simp
    ultimately show ?thesis by (simp add: map_filter_simps)
  qed
  show ?thesis
    using list_end_to_end [OF reach sample_cfg_path req season ok new_writer_ok(1) [of None] res lives row good dist, where m = no_metadata]
    unfolding answer by (elim exE conjE) (intro exI conjI)
qed

end
